(* ===== verification/Prelude.thy ===== *)
theory Prelude
  imports Main "HOL-Library.Word" "HOL-Library.Monad_Syntax"
begin

text \<open>
  The prelude of the development: the fact collections the component theories fill and use,
  the error numbers of the C library that the thread library stores in \<open>errno\<close>, and the
  generic lemmas on options and lists that the queue and scheduler proofs share.

  Throughout the development a value \<open>None\<close> of a state transformer
  \<open>'s \<Rightarrow> 's option\<close> stands for undefined behaviour of the C program (a corrupted
  intrusive list, a double free, a signed overflow); error \<^emph>\<open>returns\<close> of the C code
  are ordinary results.
\<close>

named_theorems queue_simps "effect of the queue operations on the projections of the state"
named_theorems op_defs "definitions of the library operations"
named_theorems inv_defs "definitions of the state invariants"

section \<open>Error numbers (errno.h on Linux)\<close>

abbreviation ENOMEM :: int where "ENOMEM \<equiv> 12"
abbreviation EFAULT :: int where "EFAULT \<equiv> 14"
abbreviation EINVAL :: int where "EINVAL \<equiv> 22"
abbreviation EDEADLK :: int where "EDEADLK \<equiv> 35"

abbreviation INT_MAX :: int where "INT_MAX \<equiv> 2147483647"
abbreviation INT_MIN :: int where "INT_MIN \<equiv> -2147483648"

section \<open>Options\<close>

lemma bind_Some_iff [simp]:
  "(m \<bind> f = Some y) \<longleftrightarrow> (\<exists>x. m = Some x \<and> f x = Some y)"
  by (cases m) auto

section \<open>Inserting before a list element\<close>

text \<open>The list reading of \<open>TAILQ_INSERT_BEFORE\<close>: put \<open>t\<close> in front of the first
  occurrence of \<open>c\<close>.\<close>

fun list_insert_before :: "'a \<Rightarrow> 'a \<Rightarrow> 'a list \<Rightarrow> 'a list" where
  "list_insert_before c t [] = []"
| "list_insert_before c t (x # xs) = (if x = c then t # x # xs else x # list_insert_before c t xs)"

lemma list_insert_before_append:
  "c \<notin> set xs \<Longrightarrow> list_insert_before c t (xs @ c # ys) = xs @ t # c # ys"
  by (induction xs) auto

lemma set_list_insert_before [simp]:
  "c \<in> set xs \<Longrightarrow> set (list_insert_before c t xs) = insert t (set xs)"
  by (induction xs) auto

lemma distinct_list_insert_before [simp]:
  "c \<in> set xs \<Longrightarrow> t \<notin> set xs \<Longrightarrow> distinct xs \<Longrightarrow> distinct (list_insert_before c t xs)"
  by (induction xs) auto

section \<open>Descending insertion\<close>

text \<open>Insertion behind every element of at least the same key: the order that the priority
  scheduler maintains.\<close>

definition desc_insert :: "('a \<Rightarrow> 'k::linorder) \<Rightarrow> 'a \<Rightarrow> 'a list \<Rightarrow> 'a list" where
  "desc_insert key t xs =
     takeWhile (\<lambda>c. key t \<le> key c) xs @ t # dropWhile (\<lambda>c. key t \<le> key c) xs"

abbreviation desc_sorted :: "('a \<Rightarrow> 'k::linorder) \<Rightarrow> 'a list \<Rightarrow> bool" where
  "desc_sorted key xs \<equiv> sorted_wrt (\<lambda>a b. key b \<le> key a) xs"

lemma desc_insert_Nil [simp]: "desc_insert key t [] = [t]"
  by (simp add: desc_insert_def)

lemma desc_insert_Cons:
  "desc_insert key t (c # cs) =
     (if key t \<le> key c then c # desc_insert key t cs else t # c # cs)"
  by (simp add: desc_insert_def)

lemma set_desc_insert [simp]: "set (desc_insert key t xs) = insert t (set xs)"
  by (induction xs) (auto simp: desc_insert_Cons)

lemma distinct_desc_insert [simp]:
  "distinct (desc_insert key t xs) \<longleftrightarrow> t \<notin> set xs \<and> distinct xs"
  by (induction xs) (auto simp: desc_insert_Cons)

lemma desc_sorted_insert:
  "desc_sorted key xs \<Longrightarrow> desc_sorted key (desc_insert key t xs)"
  by (induction xs) (fastforce simp: desc_insert_Cons)+

lemma desc_sorted_remove1:
  "desc_sorted key xs \<Longrightarrow> desc_sorted key (remove1 t xs)"
proof (induction xs)
  case (Cons x xs)
  then show ?case using set_remove1_subset [of t xs] by auto
qed simp

lemma desc_sorted_mono:
  assumes "desc_sorted key xs" and "\<And>a b. a \<in> set xs \<Longrightarrow> b \<in> set xs \<Longrightarrow> key b \<le> key a \<Longrightarrow> key' b \<le> key' a"
  shows "desc_sorted key' xs"
  using assms by (induction xs) auto

lemma desc_sorted_cong:
  "(\<And>a. a \<in> set xs \<Longrightarrow> key a = key' a) \<Longrightarrow> desc_sorted key xs \<longleftrightarrow> desc_sorted key' xs"
  by (induction xs) auto

lemma desc_insert_find:
  assumes "distinct xs"
  shows "(case find (\<lambda>c. key t > key c) xs of None \<Rightarrow> xs @ [t] | Some c \<Rightarrow> list_insert_before c t xs)
    = desc_insert key t xs"
  using assms
proof (induction xs)
  case (Cons x xs)
  have "c \<in> set xs" if "find (\<lambda>c. key t > key c) xs = Some c" for c
    using that by (auto simp: find_Some_iff)
  with Cons show ?case
    by (cases "find (\<lambda>c. key t > key c) xs") (auto simp: desc_insert_Cons not_less)
qed simp

lemma remove1_hd: "xs = t # ts \<Longrightarrow> remove1 t xs = ts"
  by simp

lemma set_remove1_distinct: "distinct xs \<Longrightarrow> set (remove1 t xs) = set xs - {t}"
  by (rule set_remove1_eq)

section \<open>Repeating an operation\<close>

fun repeat_op :: "nat \<Rightarrow> ('s \<Rightarrow> ('s \<times> 'r) option) \<Rightarrow> 's \<Rightarrow> 's option" where
  "repeat_op 0 f s = Some s"
| "repeat_op (Suc n) f s = do { (s', _) \<leftarrow> f s; repeat_op n f s' }"

end
