(* ===== verification/Tailq.thy ===== *)
theory Tailq
  imports Prelude
begin

text \<open>
  The intrusive doubly linked tail queues of \<open>sys/queue.h\<close> that the library uses for its
  ready, zombie and waiting queues (\<open>include/thread.h\<close> declares
  \<open>TAILQ_HEAD(thread_queue, thread)\<close>, \<open>include/thread_internal.h\<close> embeds one
  \<open>TAILQ_ENTRY\<close> per thread).

  Two levels: the macros on the pointers they write (\<^emph>\<open>one\<close> pair of link fields per
  thread, shared by all queues), and the list reading that the rest of the development
  uses.  The locale \<open>tail_queues\<close> states what a client may rely on; it is interpreted on the
  pointer level here and on the library state in \<open>Thread_State\<close>.
\<close>

section \<open>The macros on pointers\<close>

text \<open>\<open>tqe_prev\<close> and \<open>tqh_last\<close> hold the \<^emph>\<open>address\<close> of a pointer: of the head's
  \<open>tqh_first\<close> or of a predecessor's \<open>tqe_next\<close>.\<close>

datatype ('q, 't) slot = First 'q | Next 't

record ('q, 't) tq_heap =
  tqh_first :: "'q \<Rightarrow> 't option"
  tqh_last :: "'q \<Rightarrow> ('q, 't) slot"
  tqe_next :: "'t \<Rightarrow> 't option"
  tqe_prev :: "'t \<Rightarrow> ('q, 't) slot"

fun slot_read :: "('q, 't) tq_heap \<Rightarrow> ('q, 't) slot \<Rightarrow> 't option" where
  "slot_read h (First q) = tqh_first h q"
| "slot_read h (Next t) = tqe_next h t"

fun slot_write :: "('q, 't) slot \<Rightarrow> 't option \<Rightarrow> ('q, 't) tq_heap \<Rightarrow> ('q, 't) tq_heap" where
  "slot_write (First q) v h = h\<lparr>tqh_first := (tqh_first h)(q := v)\<rparr>"
| "slot_write (Next t) v h = h\<lparr>tqe_next := (tqe_next h)(t := v)\<rparr>"

definition TAILQ_INIT :: "'q \<Rightarrow> ('q, 't) tq_heap \<Rightarrow> ('q, 't) tq_heap" where
  "TAILQ_INIT q h =
     (let h = h\<lparr>tqh_first := (tqh_first h)(q := None)\<rparr>
      in h\<lparr>tqh_last := (tqh_last h)(q := First q)\<rparr>)"

definition TAILQ_FIRST :: "'q \<Rightarrow> ('q, 't) tq_heap \<Rightarrow> 't option" where
  "TAILQ_FIRST q h = tqh_first h q"

definition TAILQ_EMPTY :: "'q \<Rightarrow> ('q, 't) tq_heap \<Rightarrow> bool" where
  "TAILQ_EMPTY q h \<longleftrightarrow> tqh_first h q = None"

definition TAILQ_INSERT_TAIL :: "'q \<Rightarrow> 't \<Rightarrow> ('q, 't) tq_heap \<Rightarrow> ('q, 't) tq_heap" where
  "TAILQ_INSERT_TAIL q t h =
     (let h = h\<lparr>tqe_next := (tqe_next h)(t := None)\<rparr>;
          h = h\<lparr>tqe_prev := (tqe_prev h)(t := tqh_last h q)\<rparr>;
          h = slot_write (tqh_last h q) (Some t) h
      in h\<lparr>tqh_last := (tqh_last h)(q := Next t)\<rparr>)"

definition TAILQ_INSERT_BEFORE :: "'t \<Rightarrow> 't \<Rightarrow> ('q, 't) tq_heap \<Rightarrow> ('q, 't) tq_heap" where
  "TAILQ_INSERT_BEFORE c t h =
     (let h = h\<lparr>tqe_prev := (tqe_prev h)(t := tqe_prev h c)\<rparr>;
          h = h\<lparr>tqe_next := (tqe_next h)(t := Some c)\<rparr>;
          h = slot_write (tqe_prev h c) (Some t) h
      in h\<lparr>tqe_prev := (tqe_prev h)(c := Next t)\<rparr>)"

definition TAILQ_REMOVE :: "'q \<Rightarrow> 't \<Rightarrow> ('q, 't) tq_heap \<Rightarrow> ('q, 't) tq_heap" where
  "TAILQ_REMOVE q t h =
     (let h = (case tqe_next h t of
                 Some n \<Rightarrow> h\<lparr>tqe_prev := (tqe_prev h)(n := tqe_prev h t)\<rparr>
               | None \<Rightarrow> h\<lparr>tqh_last := (tqh_last h)(q := tqe_prev h t)\<rparr>)
      in slot_write (tqe_prev h t) (tqe_next h t) h)"

section \<open>Segments and the queue representation\<close>

text \<open>The nodes \<open>xs\<close> hang off slot \<open>s\<close>, each pointing back to the slot before it.\<close>

fun seg :: "('q, 't) tq_heap \<Rightarrow> ('q, 't) slot \<Rightarrow> 't list \<Rightarrow> bool" where
  "seg h s [] = True"
| "seg h s (x # xs) = (slot_read h s = Some x \<and> tqe_prev h x = s \<and> seg h (Next x) xs)"

text \<open>The slot that ends a segment.\<close>

fun end_slot :: "('q, 't) slot \<Rightarrow> 't list \<Rightarrow> ('q, 't) slot" where
  "end_slot s [] = s"
| "end_slot s (x # xs) = end_slot (Next x) xs"

definition tq_list :: "('q, 't) tq_heap \<Rightarrow> 'q \<Rightarrow> 't list \<Rightarrow> bool" where
  "tq_list h q xs \<longleftrightarrow>
     seg h (First q) xs \<and> tqh_last h q = end_slot (First q) xs \<and>
     slot_read h (end_slot (First q) xs) = None"

text \<open>A heap represents a family of queues when each list is laid out in it and no node is
  linked twice.\<close>

definition tq_rep :: "('q, 't) tq_heap \<Rightarrow> ('q \<Rightarrow> 't list) \<Rightarrow> bool" where
  "tq_rep h Q \<longleftrightarrow>
     (\<forall>q. tq_list h q (Q q) \<and> distinct (Q q)) \<and>
     (\<forall>q q' t. t \<in> set (Q q) \<longrightarrow> t \<in> set (Q q') \<longrightarrow> q = q')"

lemma end_slot_snoc [simp]: "end_slot s (xs @ [x]) = Next x"
  by (induction s xs rule: end_slot.induct) auto

lemma end_slot_append: "end_slot s (xs @ ys) = end_slot (end_slot s xs) ys"
  by (induction s xs rule: end_slot.induct) auto

lemma end_slot_cases: "end_slot s xs = (if xs = [] then s else Next (last xs))"
  by (induction s xs rule: end_slot.induct) auto

lemma seg_append: "seg h s (xs @ ys) \<longleftrightarrow> seg h s xs \<and> seg h (end_slot s xs) ys"
  by (induction h s xs rule: seg.induct) auto

text \<open>Frame rule: a segment reads its entry slot and the link fields of its nodes only.\<close>

lemma seg_frame:
  assumes "seg h s xs" and "xs \<noteq> [] \<longrightarrow> slot_read h' s = slot_read h s"
    and "\<forall>x \<in> set (butlast xs). tqe_next h' x = tqe_next h x"
    and "\<forall>x \<in> set xs. tqe_prev h' x = tqe_prev h x"
  shows "seg h' s xs"
  using assms
proof (induction h s xs rule: seg.induct)
  case (2 h s x xs)
  then have "seg h' (Next x) xs" by (cases xs) auto
  with 2 show ?case by simp
qed simp

lemma slot_read_write:
  "slot_read (slot_write s v h) s' = (if s' = s then v else slot_read h s')"
  by (cases s; cases s') auto

lemma slot_write_sel [simp]:
  "tqe_prev (slot_write s v h) = tqe_prev h" "tqh_last (slot_write s v h) = tqh_last h"
  by (cases s; simp)+

lemma tqe_next_slot_write [simp]:
  "tqe_next (slot_write s v h) t = (if s = Next t then v else tqe_next h t)"
  by (cases s) auto

lemma tqh_first_slot_write [simp]:
  "tqh_first (slot_write s v h) q = (if s = First q then v else tqh_first h q)"
  by (cases s) auto

lemma tq_rep_disjoint:
  "tq_rep h Q \<Longrightarrow> t \<in> set (Q q) \<Longrightarrow> q' \<noteq> q \<Longrightarrow> t \<notin> set (Q q')"
  by (auto simp: tq_rep_def)

lemma tq_repI:
  assumes "\<And>q'. q' \<noteq> q \<Longrightarrow> tq_list h q' (Q q')" and "tq_list h q xs"
    and "distinct xs" and "\<And>q'. q' \<noteq> q \<Longrightarrow> distinct (Q q')"
    and "\<And>q' t. q' \<noteq> q \<Longrightarrow> t \<in> set (Q q') \<Longrightarrow> t \<notin> set xs"
    and "\<And>q1 q2 t. q1 \<noteq> q \<Longrightarrow> q2 \<noteq> q \<Longrightarrow> t \<in> set (Q q1) \<Longrightarrow> t \<in> set (Q q2) \<Longrightarrow> q1 = q2"
  shows "tq_rep h (Q(q := xs))"
  using assms unfolding tq_rep_def by (auto simp: fun_upd_apply)

text \<open>A queue whose head and nodes are untouched keeps its layout.\<close>

lemma tq_list_frame:
  assumes "tq_list h q xs" and "tqh_first h' q = tqh_first h q" and "tqh_last h' q = tqh_last h q"
    and "\<forall>x \<in> set xs. tqe_next h' x = tqe_next h x"
    and "\<forall>x \<in> set xs. tqe_prev h' x = tqe_prev h x"
  shows "tq_list h' q xs"
proof -
  have "seg h' (First q) xs"
    using assms by - (rule seg_frame [of h _ _ h']; auto simp: tq_list_def dest: in_set_butlastD)
  moreover have "slot_read h' (end_slot (First q) xs) = slot_read h (end_slot (First q) xs)"
    using assms(2,4) by (simp add: end_slot_cases)
  ultimately show ?thesis using assms(1,3) by (simp add: tq_list_def)
qed

lemma tq_repD:
  assumes "tq_rep h Q"
  shows "tq_list h q (Q q)" and "distinct (Q q)"
  using assms by (auto simp: tq_rep_def)

lemma last_notin_butlast: "distinct xs \<Longrightarrow> xs \<noteq> [] \<Longrightarrow> last xs \<notin> set (butlast xs)"
  by (metis append_butlast_last_id distinct_append disjoint_iff list.set_intros(1))

section \<open>The macros refine the list operations\<close>

lemma TAILQ_INSERT_TAIL_sel:
  "tqh_last (TAILQ_INSERT_TAIL q t h) = (tqh_last h)(q := Next t)"
  "tqe_prev (TAILQ_INSERT_TAIL q t h) = (tqe_prev h)(t := tqh_last h q)"
  "tqh_first (TAILQ_INSERT_TAIL q t h) q' = (if tqh_last h q = First q' then Some t else tqh_first h q')"
  "tqe_next (TAILQ_INSERT_TAIL q t h) x =
     (if tqh_last h q = Next x then Some t else if x = t then None else tqe_next h x)"
  by (auto simp: TAILQ_INSERT_TAIL_def Let_def)

lemma tq_list_INSERT_TAIL:
  assumes "tq_list h q xs" "distinct xs" "t \<notin> set xs"
  shows "tq_list (TAILQ_INSERT_TAIL q t h) q (xs @ [t])"
proof -
  let ?h = "TAILQ_INSERT_TAIL q t h" and ?e = "end_slot (First q) xs"
  have last: "tqh_last h q = ?e" using assms(1) by (simp add: tq_list_def)
  have "seg ?h (First q) xs"
    using assms by - (rule seg_frame [of h _ _ ?h];
      auto simp: tq_list_def TAILQ_INSERT_TAIL_sel end_slot_cases last_notin_butlast
        dest: in_set_butlastD)
  moreover have "slot_read ?h ?e = Some t" "tqe_prev ?h t = ?e"
    by (simp_all add: end_slot_cases TAILQ_INSERT_TAIL_sel last)
  moreover have "tqe_next ?h t = None"
    using assms(3) by (auto simp: TAILQ_INSERT_TAIL_sel last end_slot_cases split: if_splits)
  ultimately show ?thesis
    by (simp add: tq_list_def seg_append TAILQ_INSERT_TAIL_sel)
qed

text \<open>Linking a node that no queue holds appends it to one list and leaves the others alone.\<close>

lemma tq_rep_INSERT_TAIL:
  assumes rep: "tq_rep h Q" and new: "\<And>q. t \<notin> set (Q q)"
  shows "tq_rep (TAILQ_INSERT_TAIL q t h) (Q(q := Q q @ [t]))"
proof (rule tq_repI)
  fix q' assume q': "q' \<noteq> q"
  have last: "tqh_last h q = end_slot (First q) (Q q)"
    using rep by (simp add: tq_rep_def tq_list_def)
  have "last (Q q) \<notin> set (Q q')" if "Q q \<noteq> []"
    using tq_rep_disjoint [OF rep _ q'] that by simp
  then show "tq_list (TAILQ_INSERT_TAIL q t h) q' (Q q')"
    using new [of q'] q' tq_repD(1) [OF rep, of q']
    by - (rule tq_list_frame [of h]; auto simp: TAILQ_INSERT_TAIL_sel last end_slot_cases)
next
  show "tq_list (TAILQ_INSERT_TAIL q t h) q (Q q @ [t])"
    using rep new by (intro tq_list_INSERT_TAIL) (auto simp: tq_rep_def)
qed (use rep new in \<open>auto simp: tq_rep_def\<close>)

lemma TAILQ_REMOVE_sel:
  "tqh_last (TAILQ_REMOVE q t h) =
     (if tqe_next h t = None then (tqh_last h)(q := tqe_prev h t) else tqh_last h)"
  "tqe_prev (TAILQ_REMOVE q t h) =
     (case tqe_next h t of None \<Rightarrow> tqe_prev h | Some n \<Rightarrow> (tqe_prev h)(n := tqe_prev h t))"
  "tqe_next h t \<noteq> Some t \<Longrightarrow> tqh_first (TAILQ_REMOVE q t h) q' =
     (if tqe_prev h t = First q' then tqe_next h t else tqh_first h q')"
  "tqe_next h t \<noteq> Some t \<Longrightarrow> tqe_next (TAILQ_REMOVE q t h) x =
     (if tqe_prev h t = Next x then tqe_next h t else tqe_next h x)"
  by (auto simp: TAILQ_REMOVE_def Let_def split: option.splits)

text \<open>The links around a node of a queue.\<close>

lemma tq_list_split:
  assumes "tq_list h q (as @ t # bs)"
  shows "tqe_prev h t = end_slot (First q) as"
    and "tqe_next h t = (case bs of [] \<Rightarrow> None | b # _ \<Rightarrow> Some b)"
    and "seg h (First q) as" and "seg h (Next t) bs"
    and "tqh_last h q = end_slot (Next t) bs"
    and "slot_read h (end_slot (Next t) bs) = None"
  using assms by (auto simp: tq_list_def seg_append end_slot_append split: list.splits)

lemma tq_list_REMOVE:
  assumes lst: "tq_list h q (as @ t # bs)" and dist: "distinct (as @ t # bs)"
  shows "tq_list (TAILQ_REMOVE q t h) q (as @ bs)"
proof -
  let ?h = "TAILQ_REMOVE q t h" and ?p = "end_slot (First q) as"
  note sp = tq_list_split [OF lst]
  have nt: "tqe_next h t \<noteq> Some t" using dist by (auto simp: sp(2) split: list.splits)
  note rs = TAILQ_REMOVE_sel(1,2) TAILQ_REMOVE_sel(3,4) [OF nt]
  have la: "last as \<notin> set bs" if "as \<noteq> []" using dist last_in_set [OF that] by auto
  have as: "seg ?h (First q) as"
    using dist sp(3) by - (rule seg_frame [of h _ _ ?h];
      auto simp: rs sp(1,2) end_slot_cases last_notin_butlast split: list.splits
        dest: in_set_butlastD)
  have p: "slot_read ?h ?p = tqe_next h t"
    by (simp add: end_slot_cases rs sp(1))
  show ?thesis
  proof (cases bs)
    case Nil
    with as p show ?thesis
      by (simp add: tq_list_def rs sp(1,2))
  next
    case (Cons b bs')
    have "seg ?h (Next b) bs'"
      using dist sp(4) Cons la by - (rule seg_frame [of h _ _ ?h];
        auto simp: rs sp(1,2) end_slot_cases dest: in_set_butlastD split: if_splits)
    moreover have "end_slot (Next b) bs' = Next (last bs)" "last bs \<in> set bs"
      using Cons by (simp_all add: end_slot_cases)
    then have "slot_read ?h (end_slot (Next b) bs') = None"
      using sp(6) Cons la by (auto simp: rs sp(1,2) end_slot_cases split: if_splits)
    ultimately show ?thesis
      using as p Cons sp(5)
      by (simp add: tq_list_def seg_append end_slot_append rs sp(1,2))
  qed
qed

lemma tq_rep_REMOVE:
  assumes rep: "tq_rep h Q" and t: "t \<in> set (Q q)"
  shows "tq_rep (TAILQ_REMOVE q t h) (Q(q := remove1 t (Q q)))"
proof (rule tq_repI)
  obtain as bs where q: "Q q = as @ t # bs" using t by (meson split_list)
  have lst: "tq_list h q (as @ t # bs)" and dist: "distinct (as @ t # bs)"
    using tq_repD [OF rep, of q] q by simp_all
  note sp = tq_list_split [OF lst]
  have nt: "tqe_next h t \<noteq> Some t" using dist by (auto simp: sp(2) split: list.splits)
  note rs = TAILQ_REMOVE_sel(1,2) TAILQ_REMOVE_sel(3,4) [OF nt]
  show "tq_list (TAILQ_REMOVE q t h) q (remove1 t (Q q))"
    using tq_list_REMOVE [OF lst dist] dist by (simp add: q remove1_append)
  fix q' assume q': "q' \<noteq> q"
  have "\<forall>x \<in> set (Q q'). x \<notin> set as \<and> x \<notin> set bs \<and> x \<noteq> t"
    using rep q' q by (fastforce simp: tq_rep_def)
  then show "tq_list (TAILQ_REMOVE q t h) q' (Q q')"
    using q' tq_repD(1) [OF rep, of q']
    by - (rule tq_list_frame [of h];
      auto simp: rs sp(1,2) end_slot_cases split: list.splits if_splits)
qed (use rep in \<open>auto simp: tq_rep_def distinct_remove1 dest: notin_set_remove1 [THEN notE]\<close>)

lemma TAILQ_INSERT_BEFORE_sel:
  "tqh_last (TAILQ_INSERT_BEFORE c t h) = tqh_last h"
  "c \<noteq> t \<Longrightarrow> tqe_prev (TAILQ_INSERT_BEFORE c t h) = (tqe_prev h)(t := tqe_prev h c, c := Next t)"
  "c \<noteq> t \<Longrightarrow> tqh_first (TAILQ_INSERT_BEFORE c t h) q' =
     (if tqe_prev h c = First q' then Some t else tqh_first h q')"
  "c \<noteq> t \<Longrightarrow> tqe_next (TAILQ_INSERT_BEFORE c t h) x =
     (if tqe_prev h c = Next x then Some t else if x = t then Some c else tqe_next h x)"
  by (auto simp: TAILQ_INSERT_BEFORE_def Let_def)

lemma tq_list_INSERT_BEFORE:
  assumes lst: "tq_list h q (as @ c # bs)" and dist: "distinct (as @ c # bs)"
    and new: "t \<notin> set (as @ c # bs)"
  shows "tq_list (TAILQ_INSERT_BEFORE c t h) q (as @ t # c # bs)"
proof -
  let ?h = "TAILQ_INSERT_BEFORE c t h"
  note sp = tq_list_split [OF lst]
  have ct: "c \<noteq> t" using new by auto
  note rs = TAILQ_INSERT_BEFORE_sel(1) TAILQ_INSERT_BEFORE_sel(2-4) [OF ct]
  have la: "last as \<notin> set bs" "last as \<noteq> c" "last as \<noteq> t" if "as \<noteq> []"
    using dist new last_in_set [OF that] by auto
  have "seg ?h (First q) as"
    using dist new sp(3) by - (rule seg_frame [of h _ _ ?h];
      auto simp: rs sp(1) end_slot_cases last_notin_butlast dest: in_set_butlastD)
  moreover have "slot_read ?h (end_slot (First q) as) = Some t" "tqe_prev ?h t = end_slot (First q) as"
    using ct by (simp_all add: end_slot_cases rs sp(1))
  moreover have "tqe_next ?h t = Some c" "tqe_prev ?h c = Next t"
    using ct la(3) by (auto simp: rs sp(1) end_slot_cases)
  moreover have "seg ?h (Next c) bs"
    using dist new sp(4) la by - (rule seg_frame [of h _ _ ?h];
      auto simp: rs sp(1) end_slot_cases dest: in_set_butlastD)
  moreover have "end_slot (Next c) bs = Next (last (c # bs))" "last (c # bs) \<in> set (c # bs)"
    by (simp_all add: end_slot_cases)
  then have "slot_read ?h (end_slot (Next c) bs) = None"
    using sp(6) la new by (auto simp: rs sp(1) end_slot_cases split: if_splits)
  ultimately show ?thesis
    using sp(5) by (simp add: tq_list_def seg_append end_slot_append rs(1))
qed

lemma tq_rep_INSERT_BEFORE:
  assumes rep: "tq_rep h Q" and c: "c \<in> set (Q q)" and new: "\<And>q. t \<notin> set (Q q)"
  shows "tq_rep (TAILQ_INSERT_BEFORE c t h) (Q(q := list_insert_before c t (Q q)))"
proof (rule tq_repI)
  obtain as bs where q: "Q q = as @ c # bs" using c by (meson split_list)
  have lst: "tq_list h q (as @ c # bs)" and dist: "distinct (as @ c # bs)"
    using tq_repD [OF rep, of q] q by simp_all
  note sp = tq_list_split [OF lst]
  have ct: "c \<noteq> t" using new [of q] c by auto
  note rs = TAILQ_INSERT_BEFORE_sel(1) TAILQ_INSERT_BEFORE_sel(2-4) [OF ct]
  show "tq_list (TAILQ_INSERT_BEFORE c t h) q (list_insert_before c t (Q q))"
    using tq_list_INSERT_BEFORE [OF lst dist] new [of q] dist
    by (simp add: q list_insert_before_append)
  show "distinct (list_insert_before c t (Q q))"
    using tq_repD [OF rep, of q] c new [of q] by simp
  fix q' assume q': "q' \<noteq> q"
  have "\<forall>x \<in> set (Q q'). x \<notin> set as \<and> x \<noteq> c"
    using rep q' q by (fastforce simp: tq_rep_def)
  then show "tq_list (TAILQ_INSERT_BEFORE c t h) q' (Q q')"
    using q' tq_repD(1) [OF rep, of q'] new [of q']
    by - (rule tq_list_frame [of h]; auto simp: rs sp(1) end_slot_cases)
qed (use rep c new in \<open>auto simp: tq_rep_def\<close>)

lemma tq_rep_INIT:
  assumes rep: "tq_rep h Q" shows "tq_rep (TAILQ_INIT q h) (Q(q := []))"
proof (rule tq_repI)
  show "tq_list (TAILQ_INIT q h) q []" by (simp add: tq_list_def TAILQ_INIT_def)
  fix q' assume "q' \<noteq> q"
  with tq_repD(1) [OF rep, of q'] show "tq_list (TAILQ_INIT q h) q' (Q q')"
    by - (rule tq_list_frame [of h]; auto simp: TAILQ_INIT_def)
qed (use rep in \<open>auto simp: tq_rep_def\<close>)

lemma tq_rep_FIRST: "tq_rep h Q \<Longrightarrow> TAILQ_FIRST q h = (case Q q of [] \<Rightarrow> None | t # _ \<Rightarrow> Some t)"
  using tq_repD(1) [of h Q q] by (auto simp: tq_list_def TAILQ_FIRST_def split: list.splits)

lemma tq_rep_EMPTY: "tq_rep h Q \<Longrightarrow> TAILQ_EMPTY q h \<longleftrightarrow> Q q = []"
  using tq_rep_FIRST [of h Q q] by (auto simp: TAILQ_EMPTY_def TAILQ_FIRST_def split: list.splits)

section \<open>The interface the library relies on\<close>

text \<open>
  \<open>view s Q\<close>: state \<open>s\<close> holds the queues \<open>Q\<close>.  Linking requires that the node is in no
  queue, unlinking that it is in the named one; under these conditions the operations are
  defined and act on one list.
\<close>

locale tail_queues =
  fixes view :: "'s \<Rightarrow> ('q \<Rightarrow> 't list) \<Rightarrow> bool"
    and insert_tail :: "'q \<Rightarrow> 't \<Rightarrow> 's \<Rightarrow> 's option"
    and insert_before :: "'q \<Rightarrow> 't \<Rightarrow> 't \<Rightarrow> 's \<Rightarrow> 's option"
    and remove :: "'q \<Rightarrow> 't \<Rightarrow> 's \<Rightarrow> 's option"
    and first :: "'q \<Rightarrow> 's \<Rightarrow> 't option"
  assumes view_distinct: "view s Q \<Longrightarrow> distinct (Q q)"
    and view_disjoint: "view s Q \<Longrightarrow> t \<in> set (Q q) \<Longrightarrow> t \<in> set (Q q') \<Longrightarrow> q = q'"
    and view_insert_tail: "view s Q \<Longrightarrow> (\<forall>q. t \<notin> set (Q q)) \<Longrightarrow>
      \<exists>s'. insert_tail q t s = Some s' \<and> view s' (Q(q := Q q @ [t]))"
    and view_insert_before: "view s Q \<Longrightarrow> c \<in> set (Q q) \<Longrightarrow> (\<forall>q. t \<notin> set (Q q)) \<Longrightarrow>
      \<exists>s'. insert_before q c t s = Some s' \<and> view s' (Q(q := list_insert_before c t (Q q)))"
    and view_remove: "view s Q \<Longrightarrow> t \<in> set (Q q) \<Longrightarrow>
      \<exists>s'. remove q t s = Some s' \<and> view s' (Q(q := remove1 t (Q q)))"
    and view_first: "view s Q \<Longrightarrow> first q s = (case Q q of [] \<Rightarrow> None | t # _ \<Rightarrow> Some t)"
begin

lemma view_take_first:
  assumes "view s Q" "Q q = t # ts"
  shows "first q s = Some t \<and> (\<exists>s'. remove q t s = Some s' \<and> view s' (Q(q := ts)))"
  using view_remove [OF assms(1), of t q] assms by (simp add: view_first)

lemma view_removed_free:
  assumes "view s Q" "t \<in> set (Q q)"
  shows "t \<notin> set ((Q(q := remove1 t (Q q))) q')"
proof (cases "q' = q")
  case True
  then show ?thesis using view_distinct [OF assms(1), of q] by (simp add: set_remove1_eq)
next
  case False
  then show ?thesis using view_disjoint [OF assms, of q'] by auto
qed

text \<open>Moving the head of one queue to the tail of another: the shape of every wake-up.\<close>

lemma view_move_first:
  assumes v: "view s Q" and q: "Q q = t # ts" and ne: "q' \<noteq> q"
  shows "\<exists>s1 s2. remove q t s = Some s1 \<and> insert_tail q' t s1 = Some s2 \<and>
           view s2 (Q(q := ts, q' := Q q' @ [t]))"
proof -
  obtain s1 where s1: "remove q t s = Some s1" "view s1 (Q(q := ts))"
    using view_take_first [OF v q] by blast
  have "\<forall>q'. t \<notin> set ((Q(q := ts)) q')"
    using view_removed_free [OF v, of t q] q by simp
  from view_insert_tail [OF s1(2) this, of q']
  obtain s2 where "insert_tail q' t s1 = Some s2" "view s2 (Q(q := ts, q' := (Q(q := ts)) q' @ [t]))"
    by blast
  with s1(1) ne show ?thesis by simp
qed

text \<open>Taking the head and putting it back at the tail rotates the queue.\<close>

lemma view_rotate:
  assumes v: "view s Q" and q: "Q q = t # ts"
  shows "\<exists>s1 s2. remove q t s = Some s1 \<and> insert_tail q t s1 = Some s2 \<and> view s2 (Q(q := ts @ [t]))"
proof -
  obtain s1 where s1: "remove q t s = Some s1" "view s1 (Q(q := ts))"
    using view_take_first [OF v q] by blast
  have "\<forall>q'. t \<notin> set ((Q(q := ts)) q')"
    using view_removed_free [OF v, of t q] q by simp
  from view_insert_tail [OF s1(2) this, of q]
  obtain s2 where "insert_tail q t s1 = Some s2" "view s2 (Q(q := ts, q := (Q(q := ts)) q @ [t]))"
    by blast
  with s1(1) show ?thesis by simp
qed

end

interpretation ptr: tail_queues tq_rep
    "\<lambda>q t h. Some (TAILQ_INSERT_TAIL q t h)" "\<lambda>q c t h. Some (TAILQ_INSERT_BEFORE c t h)"
    "\<lambda>q t h. Some (TAILQ_REMOVE q t h)" TAILQ_FIRST
  by unfold_locales
    (auto simp: tq_repD(2) tq_rep_INSERT_TAIL tq_rep_INSERT_BEFORE tq_rep_REMOVE tq_rep_FIRST
      dest: tq_rep_disjoint)

end
