(* ===== verification/Stack_Pool.thy ===== *)
theory Stack_Pool
  imports Prelude
begin

text \<open>
  The compile-time configuration, the operating-system services the library calls, and the
  stack pool of \<open>src/pool.c\<close>.

  The services (\<open>mmap\<close>, \<open>mprotect\<close>, \<open>malloc\<close>, Valgrind's stack registration) are functions
  stored in the state, so that every theorem holds for all of their possible answers.  What
  their documentation promises is \<open>os_sane\<close>.  The set \<open>mapped\<close> records the base addresses of
  the stack regions that are mapped, \<open>guarded\<close> those whose guard page is inaccessible.
  The pool array with its size counter is the list \<open>stack_pool\<close>, whose last element is the
  top of the pool.
\<close>

section \<open>Configuration and operating system\<close>

datatype policy = THREAD_SCHED_FIFO | THREAD_SCHED_PRIO

record config =
  sched_policy :: policy
  enable_preemption :: bool
  enable_guard_page :: bool
  enable_overflow_detection :: bool

text \<open>\<open>os_mmap k M\<close> is the answer to the \<open>k\<close>-th call of \<open>mmap\<close> while the regions \<open>M\<close> are
  mapped (\<open>None\<close> is \<open>MAP_FAILED\<close>); \<open>os_malloc\<close> likewise for the allocated blocks.\<close>

record os = config +
  os_mmap :: "nat \<Rightarrow> nat set \<Rightarrow> nat option"
  os_mprotect :: "nat \<Rightarrow> bool"
  os_malloc :: "nat \<Rightarrow> nat set \<Rightarrow> nat option"
  os_valgrind_register :: "nat \<Rightarrow> nat \<Rightarrow> nat"
  os_sigaltstack :: bool
  mmap_calls :: nat
  mprotect_calls :: nat
  malloc_calls :: nat
  mapped :: "nat set"
  guarded :: "nat set"
  madvised :: "nat set"
  deregistered :: "nat list"
  allocated :: "nat set"

definition STACK_SIZE :: nat where "STACK_SIZE = 32 * 1024"
definition GUARD_SIZE :: nat where "GUARD_SIZE = 4 * 1024"

definition region_disjoint :: "nat \<Rightarrow> nat \<Rightarrow> bool" where
  "region_disjoint a b \<longleftrightarrow>
     a + (STACK_SIZE + GUARD_SIZE) \<le> b \<or> b + (STACK_SIZE + GUARD_SIZE) \<le> a"

text \<open>Documented behaviour of \<open>mmap\<close> and \<open>malloc\<close>: a mapping is page-aligned, not at the
  null address and disjoint from the existing ones; a block is not null and not in use.\<close>

definition os_sane :: "'a os_scheme \<Rightarrow> bool" where
  "os_sane s \<longleftrightarrow>
     (\<forall>k M a. os_mmap s k M = Some a \<longrightarrow>
        a \<noteq> 0 \<and> a mod 4096 = 0 \<and> (\<forall>b \<in> M. region_disjoint a b)) \<and>
     (\<forall>k H a. os_malloc s k H = Some a \<longrightarrow> a \<noteq> 0 \<and> a \<notin> H)"

lemma os_sane_cong:
  "os_mmap s = os_mmap s' \<Longrightarrow> os_malloc s = os_malloc s' \<Longrightarrow> os_sane s = os_sane s'"
  by (simp add: os_sane_def)

lemma os_sane_update [simp]:
  "os_sane (s\<lparr>mapped := m\<rparr>) = os_sane s" "os_sane (s\<lparr>guarded := m\<rparr>) = os_sane s"
  "os_sane (s\<lparr>madvised := m\<rparr>) = os_sane s" "os_sane (s\<lparr>deregistered := d\<rparr>) = os_sane s"
  by (simp_all add: os_sane_def)

definition sys_mmap :: "'a os_scheme \<Rightarrow> nat option \<times> 'a os_scheme" where
  "sys_mmap s =
     (let r = os_mmap s (mmap_calls s) (mapped s);
          s = s\<lparr>mmap_calls := Suc (mmap_calls s)\<rparr>
      in case r of None \<Rightarrow> (None, s)
         | Some a \<Rightarrow> (Some a, s\<lparr>mapped := insert a (mapped s)\<rparr>))"

definition sys_mprotect_none :: "nat \<Rightarrow> 'a os_scheme \<Rightarrow> bool \<times> 'a os_scheme" where
  "sys_mprotect_none a s =
     (let r = os_mprotect s (mprotect_calls s);
          s = s\<lparr>mprotect_calls := Suc (mprotect_calls s)\<rparr>
      in (r, if r then s\<lparr>guarded := insert a (guarded s)\<rparr> else s))"

definition sys_munmap :: "nat \<Rightarrow> 'a os_scheme \<Rightarrow> 'a os_scheme" where
  "sys_munmap a s = s\<lparr>mapped := mapped s - {a}, guarded := guarded s - {a}, madvised := madvised s - {a}\<rparr>"

definition valgrind_deregister :: "nat \<Rightarrow> 'a os_scheme \<Rightarrow> 'a os_scheme" where
  "valgrind_deregister v s = s\<lparr>deregistered := deregistered s @ [v]\<rparr>"

definition c_malloc :: "'a os_scheme \<Rightarrow> nat option \<times> 'a os_scheme" where
  "c_malloc s =
     (let r = os_malloc s (malloc_calls s) (allocated s);
          s = s\<lparr>malloc_calls := Suc (malloc_calls s)\<rparr>
      in case r of None \<Rightarrow> (None, s)
         | Some a \<Rightarrow> (Some a, s\<lparr>allocated := insert a (allocated s)\<rparr>))"

text \<open>Freeing a block that is not allocated is undefined behaviour.\<close>

definition c_free :: "nat \<Rightarrow> 'a os_scheme \<Rightarrow> 'a os_scheme option" where
  "c_free a s = (if a \<in> allocated s then Some (s\<lparr>allocated := allocated s - {a}\<rparr>) else None)"

text \<open>\<open>realloc\<close> frees the old block when it succeeds and may hand out the same address.\<close>

definition c_realloc :: "nat option \<Rightarrow> 'a os_scheme \<Rightarrow> (nat option \<times> 'a os_scheme) option" where
  "c_realloc p s =
     (if set_option p \<subseteq> allocated s then
        (let rest = allocated s - set_option p;
             r = os_malloc s (malloc_calls s) rest;
             s = s\<lparr>malloc_calls := Suc (malloc_calls s)\<rparr>
         in Some (case r of None \<Rightarrow> (None, s) | Some a \<Rightarrow> (Some a, s\<lparr>allocated := insert a rest\<rparr>)))
      else None)"

section \<open>The stack pool\<close>

record stack_entry =
  se_map :: nat
  se_stack :: nat
  se_valgrind_id :: nat

record pool = os +
  stack_pool :: "stack_entry list"

lemma os_sane_stack_pool [simp]: "os_sane (s\<lparr>stack_pool := p\<rparr>) = os_sane s"
  by (simp add: os_sane_def)

definition MAX_POOLED_STACKS :: nat where "MAX_POOLED_STACKS = 131072"

text \<open>\<open>Some entry\<close> is the return value 0 with the entry filled in, \<open>None\<close> the value -1.\<close>

definition stack_pool_alloc :: "'a pool_scheme \<Rightarrow> stack_entry option \<times> 'a pool_scheme" where
  "stack_pool_alloc s =
     (if stack_pool s \<noteq> [] then
        (Some (last (stack_pool s)), s\<lparr>stack_pool := butlast (stack_pool s)\<rparr>)
      else
        (case sys_mmap s of
           (None, s) \<Rightarrow> (None, s)
         | (Some mp, s) \<Rightarrow>
             (let (ok, s) = (if enable_guard_page s then sys_mprotect_none mp s else (True, s))
              in if \<not> ok then (None, sys_munmap mp s)
                 else
                   (let stack = mp + GUARD_SIZE
                    in (Some \<lparr>se_map = mp, se_stack = stack,
                              se_valgrind_id = os_valgrind_register s stack (stack + STACK_SIZE)\<rparr>,
                        s)))))"

definition stack_pool_push :: "stack_entry \<Rightarrow> 'a pool_scheme \<Rightarrow> 'a pool_scheme" where
  "stack_pool_push entry s =
     (if length (stack_pool s) \<ge> MAX_POOLED_STACKS then
        sys_munmap (se_map entry) (valgrind_deregister (se_valgrind_id entry) s)
      else
        (let s = (if length (stack_pool s) > 65536
                  then s\<lparr>madvised := insert (se_map entry) (madvised s)\<rparr> else s)
         in s\<lparr>stack_pool := stack_pool s @ [entry]\<rparr>))"

definition stack_pool_empty :: "'a pool_scheme \<Rightarrow> bool" where
  "stack_pool_empty s \<longleftrightarrow> stack_pool s = []"

fun release_stacks :: "stack_entry list \<Rightarrow> 'a pool_scheme \<Rightarrow> 'a pool_scheme" where
  "release_stacks [] s = s"
| "release_stacks (e # es) s =
     release_stacks es (sys_munmap (se_map e) (valgrind_deregister (se_valgrind_id e) s))"

definition stack_pool_free_all :: "'a pool_scheme \<Rightarrow> 'a pool_scheme" where
  "stack_pool_free_all s = (release_stacks (stack_pool s) s)\<lparr>stack_pool := []\<rparr>"

section \<open>Invariant and laws\<close>

definition entry_ok :: "stack_entry \<Rightarrow> bool" where
  "entry_ok e \<longleftrightarrow> se_map e \<noteq> 0 \<and> se_stack e = se_map e + GUARD_SIZE \<and> se_map e mod 4096 = 0"

definition pool_maps :: "'a pool_scheme \<Rightarrow> nat set" where
  "pool_maps s = se_map ` set (stack_pool s)"

text \<open>Every pooled stack is a mapped region, held once; the pool respects its bound; mapped
  regions do not overlap.\<close>

definition pool_ok :: "'a pool_scheme \<Rightarrow> bool" where
  "pool_ok s \<longleftrightarrow>
     os_sane s \<and> length (stack_pool s) \<le> MAX_POOLED_STACKS \<and>
     distinct (map se_map (stack_pool s)) \<and> pool_maps s \<subseteq> mapped s \<and>
     (\<forall>e \<in> set (stack_pool s). entry_ok e) \<and>
     (\<forall>a \<in> mapped s. \<forall>b \<in> mapped s. a \<noteq> b \<longrightarrow> region_disjoint a b)"

text \<open>The regions handed out to threads.\<close>

definition in_use :: "'a pool_scheme \<Rightarrow> nat set" where
  "in_use s = mapped s - pool_maps s"

lemmas pool_defs =
  stack_pool_alloc_def stack_pool_push_def sys_mmap_def sys_mprotect_none_def sys_munmap_def
  valgrind_deregister_def

lemma region_disjoint_neq: "region_disjoint a b \<Longrightarrow> a \<noteq> b"
  by (auto simp: region_disjoint_def STACK_SIZE_def)

lemma region_disjoint_sym: "region_disjoint a b \<longleftrightarrow> region_disjoint b a"
  by (auto simp: region_disjoint_def)

text \<open>The possible outcomes of an allocation.\<close>

lemma stack_pool_alloc_cases:
  assumes "stack_pool_alloc s = (r, s')"
  obtains (pooled) xs e where "stack_pool s = xs @ [e]" "r = Some e" "s' = s\<lparr>stack_pool := xs\<rparr>"
  | (fresh) a e where "stack_pool s = []" "os_mmap s (mmap_calls s) (mapped s) = Some a"
      "r = Some e" "se_map e = a" "se_stack e = a + GUARD_SIZE"
      "mapped s' = insert a (mapped s)" "stack_pool s' = []" "os_mmap s' = os_mmap s"
      "os_malloc s' = os_malloc s"
      "enable_guard_page s \<longrightarrow> a \<in> guarded s'"
  | (fail) "stack_pool s = []" "r = None" "stack_pool s' = []" "os_mmap s' = os_mmap s"
      "os_malloc s' = os_malloc s" "mapped s' = mapped s \<or>
        (\<exists>a. os_mmap s (mmap_calls s) (mapped s) = Some a \<and> mapped s' = insert a (mapped s) - {a})"
proof (cases "stack_pool s = []")
  case True
  show ?thesis
  proof (cases "os_mmap s (mmap_calls s) (mapped s)")
    case None
    with True assms show ?thesis
      by (intro fail) (auto simp: pool_defs Let_def)
  next
    case (Some a)
    show ?thesis
    proof (cases "enable_guard_page s \<and> \<not> os_mprotect s (mprotect_calls s)")
      case True
      with \<open>stack_pool s = []\<close> Some assms show ?thesis
        by (intro fail) (auto simp: pool_defs Let_def)
    next
      case False
      with \<open>stack_pool s = []\<close> Some assms show ?thesis
        by (intro fresh) (auto simp: pool_defs Let_def split: if_splits)
    qed
  qed
next
  case False
  then have "stack_pool s = butlast (stack_pool s) @ [last (stack_pool s)]" by simp
  with False assms show ?thesis by (intro pooled) (auto simp: stack_pool_alloc_def)
qed

lemma pool_ok_alloc:
  assumes ok: "pool_ok s" and al: "stack_pool_alloc s = (Some e, s')"
  shows "pool_ok s' \<and> entry_ok e \<and> se_map e \<notin> in_use s \<and> in_use s' = insert (se_map e) (in_use s)"
  using al
proof (cases rule: stack_pool_alloc_cases)
  case (pooled xs e')
  with ok show ?thesis by (auto simp: pool_ok_def in_use_def pool_maps_def)
next
  case (fresh a e')
  have a: "a \<noteq> 0" "a mod 4096 = 0" "\<forall>b \<in> mapped s. region_disjoint a b"
    using ok fresh(2) unfolding pool_ok_def os_sane_def by blast+
  then have "a \<notin> mapped s" using region_disjoint_neq by blast
  moreover have "pool_ok s'"
    using a fresh ok os_sane_cong [of s' s] region_disjoint_sym
    by (simp add: pool_ok_def pool_maps_def)
  ultimately show ?thesis
    using a fresh ok by (auto simp: in_use_def pool_maps_def entry_ok_def)
qed simp

lemma pool_ok_alloc_fail:
  assumes ok: "pool_ok s" and al: "stack_pool_alloc s = (None, s')"
  shows "pool_ok s' \<and> in_use s' = in_use s \<and> mapped s' = mapped s"
  using al
proof (cases rule: stack_pool_alloc_cases)
  case fail
  have "mapped s' = mapped s"
  proof (cases "mapped s' = mapped s")
    case False
    then obtain a where a: "os_mmap s (mmap_calls s) (mapped s) = Some a"
      and m: "mapped s' = insert a (mapped s) - {a}" using fail(6) by blast
    have "\<forall>b \<in> mapped s. region_disjoint a b"
      using ok a unfolding pool_ok_def os_sane_def by blast
    then have "a \<notin> mapped s" using region_disjoint_neq by blast
    with m show ?thesis by blast
  qed
  with fail ok os_sane_cong [of s' s] show ?thesis by (simp add: pool_ok_def in_use_def pool_maps_def)
qed simp_all

lemma pool_ok_push:
  assumes "pool_ok s" and "entry_ok e" and "se_map e \<in> in_use s"
  shows "pool_ok (stack_pool_push e s) \<and> in_use (stack_pool_push e s) = in_use s - {se_map e}"
  using assms
  by (auto simp: pool_ok_def in_use_def pool_maps_def pool_defs Let_def image_iff)

lemma release_stacks_sel:
  "mapped (release_stacks es s) = mapped s - se_map ` set es"
  "stack_pool (release_stacks es s) = stack_pool s"
  "os_mmap (release_stacks es s) = os_mmap s" "os_malloc (release_stacks es s) = os_malloc s"
  by (induction es s rule: release_stacks.induct)
    (auto simp: sys_munmap_def valgrind_deregister_def)

lemma pool_ok_free_all:
  "pool_ok s \<Longrightarrow> pool_ok (stack_pool_free_all s) \<and> mapped (stack_pool_free_all s) = in_use s \<and>
     in_use (stack_pool_free_all s) = in_use s"
  by (auto simp: stack_pool_free_all_def pool_ok_def in_use_def pool_maps_def release_stacks_sel
      os_sane_cong [OF release_stacks_sel(3,4)])

section \<open>The interface to the thread life cycle\<close>

text \<open>
  A store of stacks: \<open>used\<close> are the regions owned by the client.  Allocation hands over a
  region the client does not own yet, pushing takes one back.
\<close>

locale stack_store =
  fixes ok :: "'s \<Rightarrow> bool" and used :: "'s \<Rightarrow> nat set"
    and alloc :: "'s \<Rightarrow> stack_entry option \<times> 's" and push :: "stack_entry \<Rightarrow> 's \<Rightarrow> 's"
  assumes alloc_ok: "ok s \<Longrightarrow> alloc s = (Some e, s') \<Longrightarrow>
      ok s' \<and> entry_ok e \<and> se_map e \<notin> used s \<and> used s' = insert (se_map e) (used s)"
    and alloc_fail: "ok s \<Longrightarrow> alloc s = (None, s') \<Longrightarrow> ok s' \<and> used s' = used s"
    and push_ok: "ok s \<Longrightarrow> entry_ok e \<Longrightarrow> se_map e \<in> used s \<Longrightarrow>
      ok (push e s) \<and> used (push e s) = used s - {se_map e}"
begin

lemma alloc_push:
  assumes "ok s" "alloc s = (Some e, s')"
  shows "ok (push e s') \<and> used (push e s') = used s"
  using alloc_ok [OF assms] push_ok [of s' e] by auto

lemma push_list:
  assumes "ok s" "\<forall>e \<in> set es. entry_ok e" "distinct (map se_map es)" "se_map ` set es \<subseteq> used s"
  shows "ok (fold push es s) \<and> used (fold push es s) = used s - se_map ` set es"
  using assms
proof (induction es arbitrary: s)
  case (Cons e es)
  then have p: "ok (push e s)" "used (push e s) = used s - {se_map e}"
    using push_ok [of s e] by auto
  with Cons have "ok (fold push es (push e s)) \<and>
      used (fold push es (push e s)) = used (push e s) - se_map ` set es"
    by (intro Cons.IH) (auto simp: image_iff)
  with p show ?case by auto
qed simp

end

interpretation sp: stack_store pool_ok in_use stack_pool_alloc stack_pool_push
  by unfold_locales (use pool_ok_alloc pool_ok_alloc_fail pool_ok_push in blast)+

section \<open>Behaviour of the pool\<close>

lemma alloc_after_push:
  "length (stack_pool s) < MAX_POOLED_STACKS \<Longrightarrow>
   \<exists>s'. stack_pool_alloc (stack_pool_push e s) = (Some e, s') \<and> stack_pool s' = stack_pool s"
  by (simp add: stack_pool_alloc_def stack_pool_push_def Let_def)

lemma push_full:
  "length (stack_pool s) \<ge> MAX_POOLED_STACKS \<Longrightarrow>
   stack_pool (stack_pool_push e s) = stack_pool s \<and>
   mapped (stack_pool_push e s) = mapped s - {se_map e}"
  by (simp add: stack_pool_push_def sys_munmap_def valgrind_deregister_def)

lemma push_madvise:
  "madvised (stack_pool_push e s) = insert (se_map e) (madvised s) \<longleftrightarrow>
   se_map e \<in> madvised s \<and> length (stack_pool s) < MAX_POOLED_STACKS \<or>
   65536 < length (stack_pool s) \<and> length (stack_pool s) < MAX_POOLED_STACKS"
  by (auto simp: stack_pool_push_def sys_munmap_def valgrind_deregister_def Let_def)

end
