(* ===== verification/Thread_State.thy ===== *)
theory Thread_State
  imports Tailq Stack_Pool
begin

text \<open>
  The data of the library: the thread structure of \<open>include/thread_internal.h\<close>, the static
  variables of the source files gathered in one record, the signal mask operations of
  \<open>src/preemption.c\<close>, the queue primitives on the state, and the context switch.

  \<^item> A thread pointer is a \<open>tid\<close>; \<open>main_thread\<close> is the static structure of \<open>thread.c\<close>, every
    other address comes from \<open>malloc\<close>.  \<open>NULL\<close> is \<open>None\<close> where the code tests for it.
  \<^item> All queues are one function \<open>queues\<close> from queue names to lists; a thread's \<open>entries\<close> field
    says in which queue its link node hangs.  Linking a linked node or unlinking a node from
    a queue it is not in corrupts the pointers, so these cases are undefined (\<open>None\<close>).
    \<open>Tailq\<close> shows that the macros implement these list operations otherwise.
  \<^item> The saved context of a thread is the list of library frames that are suspended below the
    call of \<open>fast_swap_context\<close>, innermost first; \<open>Fast_Context\<close> treats the registers.
  \<^item> \<open>live\<close>, \<open>initialised\<close>, \<open>unmasked\<close> and \<open>bare_inits\<close> are auxiliary variables that no operation
    reads: the structures that were handed out by \<open>thread_create\<close> and not yet released, the queues on
    which \<open>TAILQ_INIT\<close> has run, whether a thread was ever linked into or unlinked from a queue while the
    preemption signal could arrive, and the queues that were initialised while it could.
\<close>

section \<open>Threads\<close>

type_synonym tid = nat
type_synonym val = int
type_synonym oid = nat \<comment> \<open>address of a mutex, semaphore or condition variable\<close>

datatype tstate = THREAD_READY | THREAD_RUNNING | THREAD_TERMINATED | THREAD_BLOCKED

datatype qid = ReadyQ | ZombieQ | MutexQ oid | SemQ oid | CondQ oid

datatype signo = SIGVTALRM | SIGSEGV

text \<open>The points at which a library call can be suspended, with the local variables that are
  used after resumption.\<close>

datatype frame =
    F_entry \<comment> \<open>start of \<open>thread_entry\<close>\<close>
  | F_yield \<comment> \<open>\<open>thread_yield\<close> after \<open>swap_thread\<close>\<close>
  | F_yield_to
  | F_join tid bool \<comment> \<open>target, \<open>retval != NULL\<close>\<close>
  | F_mutex_lock
  | F_sem_wait
  | F_cond_wait oid \<comment> \<open>the mutex to re-acquire\<close>
  | F_cond_relock int \<comment> \<open>\<open>thread_cond_wait\<close> inside its final \<open>thread_mutex_lock\<close>, its return value\<close>
  | F_sigwait "32 word"
  | F_create tid nat val nat \<comment> \<open>\<open>newth\<close>, \<open>func\<close>, \<open>funcarg\<close>, \<open>alloc_retries\<close>\<close>
  | F_handler "signo set" \<comment> \<open>\<open>preemption_handler\<close>, the signal mask that its return restores\<close>

type_synonym cell = "nat \<times> nat" \<comment> \<open>a \<open>head_joiner\<close> slot: chunk and index\<close>

record thread =
  saved_ctx :: "frame list"
  start_fun :: nat
  arg :: val
  entries :: "qid option"
  retval :: val
  stack_map :: "nat option"
  stack_base :: "nat option"
  joined_by :: "tid option"
  waiting_for :: "tid option"
  head_joiner :: "cell option"
  th_id :: int
  th_state :: tstate
  valgrind_stack_id :: nat
  priority :: int
  in_ready_queue :: bool
  in_zombie_queue :: bool
  stack_overflow :: bool
  pending_signals :: "32 word"
  blocked_signals :: "32 word"
  waited_signals :: "32 word"
  waiting_for_signal :: bool

section \<open>The library state\<close>

datatype exit_handler = H_final_cleanup | H_pool_free_all

record sys = pool +
  \<comment> \<open>memory: the thread structures\<close>
  thr :: "tid \<Rightarrow> thread"
  \<comment> \<open>thread.c\<close>
  current_thread :: tid
  next_thread_id :: int
  scheduler_initialized :: bool
  thread_pool :: "tid list"
  head_ref_chunks_ptr :: "nat option" \<comment> \<open>the array; its used part is \<open>head_ref_chunks\<close>\<close>
  head_ref_chunks :: "nat list"
  head_ref_chunks_cap :: nat
  head_ref_active_chunk :: "nat option"
  head_ref_active_index :: nat
  head_cells :: "cell \<Rightarrow> tid"
  deferred_stacks :: "stack_entry list"
  \<comment> \<open>scheduler.c, thread\_gc.c and the synchronisation objects: all tail queues\<close>
  queues :: "qid \<Rightarrow> tid list"
  zombie_initialized :: bool
  atexit_handlers :: "exit_handler list" \<comment> \<open>registered exit handlers, latest first\<close>
  cleanup_registered :: bool
  \<comment> \<open>synchronisation objects\<close>
  m_locked :: "oid \<Rightarrow> int"
  s_count :: "oid \<Rightarrow> int"
  \<comment> \<open>preemption.c and the signal mask of the process\<close>
  sigvtalrm_mask :: "signo set"
  sigmask :: "signo set"
  handler_vtalrm :: bool
  handler_segv :: bool
  timer_us :: "int option"
  overflow_detection_initialized :: bool
  \<comment> \<open>C library\<close>
  errno :: int
  \<comment> \<open>auxiliary\<close>
  live :: "tid set"
  initialised :: "qid set"
  unmasked :: bool
  bare_inits :: "qid set"

definition main_thread :: tid where "main_thread = 0"

text \<open>The result of a library call in the calling thread: it returned, control went to the
  saved context of the thread that is now current, \<open>exit\<close> is called, or a signal kills the process.\<close>

datatype out = No_out | Out_thread tid | Out_val val | Out_sig int

datatype outcome = Ret int out | Switched | Exited | Killed

type_synonym result = "(sys \<times> outcome) option"

definition upd_thread :: "tid \<Rightarrow> (thread \<Rightarrow> thread) \<Rightarrow> sys \<Rightarrow> sys" where
  "upd_thread t f st = st\<lparr>thr := (thr st)(t := f (thr st t))\<rparr>"

abbreviation set_state :: "tid \<Rightarrow> tstate \<Rightarrow> sys \<Rightarrow> sys" where
  "set_state t s \<equiv> upd_thread t (\<lambda>x. x\<lparr>th_state := s\<rparr>)"

abbreviation set_errno :: "int \<Rightarrow> sys \<Rightarrow> sys" where
  "set_errno e st \<equiv> st\<lparr>errno := e\<rparr>"

abbreviation ready_queue :: "sys \<Rightarrow> tid list" where
  "ready_queue st \<equiv> queues st ReadyQ"

abbreviation zombie_queue :: "sys \<Rightarrow> tid list" where
  "zombie_queue st \<equiv> queues st ZombieQ"

section \<open>The preemption mask\<close>

definition preem_block :: "sys \<Rightarrow> sys" where
  "preem_block st = st\<lparr>sigmask := sigmask st \<union> sigvtalrm_mask st\<rparr>"

definition preem_unblock :: "sys \<Rightarrow> sys" where
  "preem_unblock st = st\<lparr>sigmask := sigmask st - sigvtalrm_mask st\<rparr>"

definition preem_mask_init :: "sys \<Rightarrow> sys" where
  "preem_mask_init st = (let st = st\<lparr>sigvtalrm_mask := {}\<rparr>
     in st\<lparr>sigvtalrm_mask := insert SIGVTALRM (sigvtalrm_mask st)\<rparr>)"

text \<open>The calls under \<open>#ifdef ENABLE_PREEMPTION\<close>.\<close>

definition block :: "sys \<Rightarrow> sys" where
  "block st = (if enable_preemption st then preem_block st else st)"

definition unblock :: "sys \<Rightarrow> sys" where
  "unblock st = (if enable_preemption st then preem_unblock st else st)"

text \<open>Can the preemption signal interrupt the code that runs now?\<close>

definition preemptible :: "sys \<Rightarrow> bool" where
  "preemptible st \<longleftrightarrow> timer_us st \<noteq> None \<and> SIGVTALRM \<notin> sigmask st"

definition touch_queues :: "sys \<Rightarrow> sys" where
  "touch_queues st = (if preemptible st then st\<lparr>unmasked := True\<rparr> else st)"

section \<open>Queue primitives on the state\<close>

definition tailq_init :: "qid \<Rightarrow> sys \<Rightarrow> sys" where
  "tailq_init q st = st\<lparr>queues := (queues st)(q := []), initialised := insert q (initialised st),
     bare_inits := (if preemptible st then insert q (bare_inits st) else bare_inits st)\<rparr>"

definition tailq_first :: "qid \<Rightarrow> sys \<Rightarrow> tid option" where
  "tailq_first q st = (case queues st q of [] \<Rightarrow> None | t # _ \<Rightarrow> Some t)"

definition tailq_link :: "qid \<Rightarrow> tid \<Rightarrow> tid list \<Rightarrow> sys \<Rightarrow> sys option" where
  "tailq_link q t xs st =
     (if entries (thr st t) = None
      then Some (upd_thread t (\<lambda>x. x\<lparr>entries := Some q\<rparr>)
             ((touch_queues st)\<lparr>queues := (queues st)(q := xs)\<rparr>))
      else None)"

definition tailq_insert_tail :: "qid \<Rightarrow> tid \<Rightarrow> sys \<Rightarrow> sys option" where
  "tailq_insert_tail q t st = tailq_link q t (queues st q @ [t]) st"

definition tailq_insert_before :: "qid \<Rightarrow> tid \<Rightarrow> tid \<Rightarrow> sys \<Rightarrow> sys option" where
  "tailq_insert_before q c t st =
     (if entries (thr st c) = Some q then tailq_link q t (list_insert_before c t (queues st q)) st
      else None)"

definition tailq_remove :: "qid \<Rightarrow> tid \<Rightarrow> sys \<Rightarrow> sys option" where
  "tailq_remove q t st =
     (if entries (thr st t) = Some q
      then Some (upd_thread t (\<lambda>x. x\<lparr>entries := None\<rparr>)
             ((touch_queues st)\<lparr>queues := (queues st)(q := remove1 t (queues st q))\<rparr>))
      else None)"

section \<open>Context switch\<close>

text \<open>\<open>fast_swap_context\<close> saves the suspended frames of the running thread; execution goes on
  with the saved context of the thread that has become current.\<close>

definition fast_swap_context :: "tid \<Rightarrow> frame list \<Rightarrow> sys \<Rightarrow> sys" where
  "fast_swap_context prev ks st = upd_thread prev (\<lambda>x. x\<lparr>saved_ctx := ks\<rparr>) st"

definition swap_thread :: "tid \<Rightarrow> tid \<Rightarrow> frame list \<Rightarrow> sys \<Rightarrow> sys" where
  "swap_thread prev nxt ks st =
     (let st = st\<lparr>current_thread := nxt\<rparr>;
          st = set_state nxt THREAD_RUNNING st
      in fast_swap_context prev ks st)"

section \<open>Normal forms\<close>

text \<open>Every primitive is an update of a few fields; these equations let the simplifier compute
  the projections of a result.\<close>

named_theorems state_eqs "primitives as record updates"

lemma block_eq [state_eqs]:
  "block st = st\<lparr>sigmask := sigmask st \<union> (if enable_preemption st then sigvtalrm_mask st else {})\<rparr>"
  by (simp add: block_def preem_block_def)

lemma unblock_eq [state_eqs]:
  "unblock st = st\<lparr>sigmask := sigmask st - (if enable_preemption st then sigvtalrm_mask st else {})\<rparr>"
  by (simp add: unblock_def preem_unblock_def)

lemma touch_queues_eq [state_eqs]:
  "touch_queues st = st\<lparr>unmasked := unmasked st \<or> preemptible st\<rparr>"
  by (simp add: touch_queues_def)

lemma swap_thread_eq [state_eqs]:
  "swap_thread prev nxt ks st =
     st\<lparr>current_thread := nxt,
        thr := (thr st)(nxt := (thr st nxt)\<lparr>th_state := THREAD_RUNNING\<rparr>,
                        prev := ((thr st)(nxt := (thr st nxt)\<lparr>th_state := THREAD_RUNNING\<rparr>)) prev
                          \<lparr>saved_ctx := ks\<rparr>)\<rparr>"
  by (simp add: swap_thread_def fast_swap_context_def upd_thread_def Let_def)

lemmas [state_eqs] = upd_thread_def fast_swap_context_def tailq_init_def

lemma block_sel [simp]:
  "thr (block st) = thr st" "thr (unblock st) = thr st"
  "current_thread (block st) = current_thread st" "current_thread (unblock st) = current_thread st"
  "queues (block st) = queues st" "queues (unblock st) = queues st"
  "live (block st) = live st" "live (unblock st) = live st"
  "sched_policy (block st) = sched_policy st" "sched_policy (unblock st) = sched_policy st"
  "enable_preemption (block st) = enable_preemption st" "enable_preemption (unblock st) = enable_preemption st"
  "m_locked (block st) = m_locked st" "m_locked (unblock st) = m_locked st"
  "s_count (block st) = s_count st" "s_count (unblock st) = s_count st"
  "errno (block st) = errno st" "errno (unblock st) = errno st"
  "unmasked (block st) = unmasked st" "unmasked (unblock st) = unmasked st"
  "initialised (block st) = initialised st" "initialised (unblock st) = initialised st"
  "bare_inits (block st) = bare_inits st" "bare_inits (unblock st) = bare_inits st"
  "sigvtalrm_mask (block st) = sigvtalrm_mask st" "sigvtalrm_mask (unblock st) = sigvtalrm_mask st"
  "timer_us (block st) = timer_us st" "timer_us (unblock st) = timer_us st"
  "thread_pool (block st) = thread_pool st" "thread_pool (unblock st) = thread_pool st"
  "head_cells (block st) = head_cells st" "head_cells (unblock st) = head_cells st"
  "head_ref_chunks (block st) = head_ref_chunks st" "head_ref_chunks (unblock st) = head_ref_chunks st"
  "head_ref_chunks_cap (block st) = head_ref_chunks_cap st" "head_ref_chunks_cap (unblock st) = head_ref_chunks_cap st"
  "head_ref_active_chunk (block st) = head_ref_active_chunk st" "head_ref_active_chunk (unblock st) = head_ref_active_chunk st"
  "head_ref_active_index (block st) = head_ref_active_index st" "head_ref_active_index (unblock st) = head_ref_active_index st"
  "deferred_stacks (block st) = deferred_stacks st" "deferred_stacks (unblock st) = deferred_stacks st"
  "stack_pool (block st) = stack_pool st" "stack_pool (unblock st) = stack_pool st"
  "mapped (block st) = mapped st" "mapped (unblock st) = mapped st"
  "allocated (block st) = allocated st" "allocated (unblock st) = allocated st"
  by (simp_all add: state_eqs)


section \<open>Queues and link fields agree\<close>

definition queues_ok :: "sys \<Rightarrow> bool" where
  "queues_ok st \<longleftrightarrow>
     (\<forall>q. distinct (queues st q)) \<and>
     (\<forall>q t. t \<in> set (queues st q) \<longleftrightarrow> entries (thr st t) = Some q)"

lemma queues_ok_distinct: "queues_ok st \<Longrightarrow> distinct (queues st q)"
  by (simp add: queues_ok_def)

lemma queues_ok_mem: "queues_ok st \<Longrightarrow> t \<in> set (queues st q) \<longleftrightarrow> entries (thr st t) = Some q"
  by (simp add: queues_ok_def)

lemma queues_ok_cong:
  "queues st' = queues st \<Longrightarrow> (\<And>t. entries (thr st' t) = entries (thr st t)) \<Longrightarrow>
   queues_ok st' = queues_ok st"
  by (simp add: queues_ok_def)

text \<open>The effect of a successful primitive.\<close>

lemma tailq_link_Some:
  "tailq_link q t xs st = Some st' \<longleftrightarrow> entries (thr st t) = None \<and>
     st' = st\<lparr>thr := (thr st)(t := (thr st t)\<lparr>entries := Some q\<rparr>),
              queues := (queues st)(q := xs), unmasked := unmasked st \<or> preemptible st\<rparr>"
  by (auto simp: tailq_link_def state_eqs)

lemma tailq_remove_Some:
  "tailq_remove q t st = Some st' \<longleftrightarrow> entries (thr st t) = Some q \<and>
     st' = st\<lparr>thr := (thr st)(t := (thr st t)\<lparr>entries := None\<rparr>),
              queues := (queues st)(q := remove1 t (queues st q)),
              unmasked := unmasked st \<or> preemptible st\<rparr>"
  by (auto simp: tailq_remove_def state_eqs)

lemma queues_ok_link:
  assumes "queues_ok st" "tailq_link q t xs st = Some st'"
    and "distinct xs" "set xs = insert t (set (queues st q))"
  shows "queues_ok st'"
  using assms by (auto simp: queues_ok_def tailq_link_Some)

lemma queues_ok_remove:
  assumes "queues_ok st" "tailq_remove q t st = Some st'"
  shows "queues_ok st'"
  using assms by (auto simp: queues_ok_def tailq_remove_Some set_remove1_eq)

lemma queues_ok_insert_tail:
  "queues_ok st \<Longrightarrow> tailq_insert_tail q t st = Some st' \<Longrightarrow> queues_ok st'"
  unfolding tailq_insert_tail_def
  by (rule queues_ok_link [of st q t "queues st q @ [t]"]) (auto simp: queues_ok_def tailq_link_Some)

lemma queues_ok_insert_before:
  "queues_ok st \<Longrightarrow> tailq_insert_before q c t st = Some st' \<Longrightarrow> queues_ok st'"
  unfolding tailq_insert_before_def
  by (auto simp: queues_ok_mem queues_ok_distinct tailq_link_Some split: if_splits
      intro!: queues_ok_link [of st q t "list_insert_before c t (queues st q)"])

text \<open>The library state provides the queue interface.\<close>

definition sys_view :: "sys \<Rightarrow> (qid \<Rightarrow> tid list) \<Rightarrow> bool" where
  "sys_view st Q \<longleftrightarrow> Q = queues st \<and> queues_ok st"

lemma unlinked_iff: "queues_ok st \<Longrightarrow> (\<forall>q. t \<notin> set (queues st q)) \<longleftrightarrow> entries (thr st t) = None"
  by (simp add: queues_ok_mem)

interpretation sq: tail_queues sys_view tailq_insert_tail tailq_insert_before tailq_remove tailq_first
proof
  fix s Q t and q q' :: qid
  assume "sys_view s Q"
  then have [simp]: "Q = queues s" and ok: "queues_ok s" by (auto simp: sys_view_def)
  show "distinct (Q q)" using ok by (simp add: queues_ok_distinct)
  show "tailq_first q s = (case Q q of [] \<Rightarrow> None | t # _ \<Rightarrow> Some t)" by (simp add: tailq_first_def)
  show "t \<in> set (Q q) \<Longrightarrow> t \<in> set (Q q') \<Longrightarrow> q = q'" using ok by (simp add: queues_ok_mem)
  show "\<forall>q. t \<notin> set (Q q) \<Longrightarrow> \<exists>s'. tailq_insert_tail q t s = Some s' \<and> sys_view s' (Q(q := Q q @ [t]))"
    using ok queues_ok_insert_tail [OF ok]
    by (auto simp: unlinked_iff sys_view_def tailq_insert_tail_def tailq_link_Some)
  show "\<exists>s'. tailq_insert_before q c t s = Some s' \<and> sys_view s' (Q(q := list_insert_before c t (Q q)))"
    if "c \<in> set (Q q)" "\<forall>q. t \<notin> set (Q q)" for c
    using ok that queues_ok_insert_before [OF ok, of q c t]
    by (auto simp: unlinked_iff sys_view_def tailq_insert_before_def tailq_link_Some queues_ok_mem)
  show "t \<in> set (Q q) \<Longrightarrow> \<exists>s'. tailq_remove q t s = Some s' \<and> sys_view s' (Q(q := remove1 t (Q q)))"
    using ok queues_ok_remove [OF ok, of q t]
    by (auto simp: sys_view_def tailq_remove_Some queues_ok_mem)
qed

end
