(* ===== verification/Scheduler.thy ===== *)
theory Scheduler
  imports Thread_State
begin

text \<open>
  The scheduler of \<open>src/scheduler.c\<close> under both policies: the ready queue, aging, yielding and
  priorities.  An operation that may switch takes the frames \<open>ks\<close> of its library callers, so
  that the saved context of the suspended thread is complete.
\<close>

section \<open>Definitions\<close>

definition THREAD_DEFAULT_PRIORITY :: int where "THREAD_DEFAULT_PRIORITY = 10"
definition THREAD_MAX_PRIORITY :: int where "THREAD_MAX_PRIORITY = 100"
definition THREAD_MIN_PRIORITY :: int where "THREAD_MIN_PRIORITY = 0"
definition THREAD_AGING :: int where "THREAD_AGING = 2"
definition THREAD_WAIT :: int where "THREAD_WAIT = 1"

definition thread_get_ready_queue :: qid where
  "thread_get_ready_queue = ReadyQ"

definition thread_ready_queue_empty :: "sys \<Rightarrow> bool" where
  "thread_ready_queue_empty st \<longleftrightarrow> queues st thread_get_ready_queue = []"

abbreviation prio :: "sys \<Rightarrow> tid \<Rightarrow> int" where
  "prio st t \<equiv> priority (thr st t)"

definition thread_scheduler_enqueue :: "tid \<Rightarrow> sys \<Rightarrow> sys option" where
  "thread_scheduler_enqueue t st =
     (if in_ready_queue (thr st t) then Some st
      else case sched_policy st of
        THREAD_SCHED_FIFO \<Rightarrow>
          tailq_insert_tail ReadyQ t (upd_thread t (\<lambda>x. x\<lparr>in_ready_queue := True\<rparr>) st)
      | THREAD_SCHED_PRIO \<Rightarrow>
          (case find (\<lambda>cursor. prio st t > prio st cursor) (ready_queue st) of
             Some cursor \<Rightarrow>
               tailq_insert_before ReadyQ cursor t (upd_thread t (\<lambda>x. x\<lparr>in_ready_queue := True\<rparr>) st)
           | None \<Rightarrow>
               tailq_insert_tail ReadyQ t (upd_thread t (\<lambda>x. x\<lparr>in_ready_queue := True\<rparr>) st)))"

definition thread_scheduler_pick_next :: "sys \<Rightarrow> (tid option \<times> sys) option" where
  "thread_scheduler_pick_next st =
     (case tailq_first ReadyQ st of
        None \<Rightarrow> Some (None, st)
      | Some nxt \<Rightarrow> do {
          st \<leftarrow> tailq_remove ReadyQ nxt st;
          Some (Some nxt, upd_thread nxt (\<lambda>x. x\<lparr>in_ready_queue := False\<rparr>) st)
        })"

text \<open>The two aging steps of \<open>thread_yield\<close>.\<close>

definition age_waiting :: "sys \<Rightarrow> sys" where
  "age_waiting st =
     fold (\<lambda>t. upd_thread t (\<lambda>x.
             let p = priority x + THREAD_WAIT
             in x\<lparr>priority := (if p > THREAD_MAX_PRIORITY then THREAD_MAX_PRIORITY else p)\<rparr>))
       (ready_queue st) st"

definition age_running :: "tid \<Rightarrow> sys \<Rightarrow> sys" where
  "age_running prev st =
     (if th_state (thr st prev) = THREAD_RUNNING then
        upd_thread prev (\<lambda>x.
          let p = priority x - THREAD_AGING
          in x\<lparr>priority := (if p < THREAD_MIN_PRIORITY then THREAD_MIN_PRIORITY else p)\<rparr>) st
      else st)"

definition thread_yield :: "frame list \<Rightarrow> sys \<Rightarrow> result" where
  "thread_yield ks st =
     (let st = block st;
          prev = current_thread st;
          st = (if sched_policy st = THREAD_SCHED_PRIO then age_running prev (age_waiting st) else st)
      in do {
        (nxt, st) \<leftarrow> thread_scheduler_pick_next st;
        (case nxt of
           None \<Rightarrow> Some (unblock st, Ret 0 No_out)
         | Some nxt \<Rightarrow>
             if nxt = prev then Some (unblock st, Ret 0 No_out)
             else if sched_policy st = THREAD_SCHED_PRIO \<and> prio st nxt \<le> prio st prev then do {
               st \<leftarrow> thread_scheduler_enqueue nxt (unblock st);
               Some (st, Ret 0 No_out)
             }
             else do {
               st \<leftarrow> (if th_state (thr st prev) = THREAD_RUNNING
                      then thread_scheduler_enqueue prev (set_state prev THREAD_READY st)
                      else Some st);
               Some (swap_thread prev nxt (F_yield # ks) st, Switched)
             })
      })"

definition thread_yield_to :: "frame list \<Rightarrow> tid option \<Rightarrow> sys \<Rightarrow> result" where
  "thread_yield_to ks target_handle st =
     (case target_handle of
        None \<Rightarrow> Some (set_errno EINVAL st, Ret (-1) No_out)
      | Some target \<Rightarrow>
          (let st = block st
           in if th_state (thr st target) \<noteq> THREAD_READY then thread_yield ks (unblock st)
              else
                (let prev = current_thread st;
                     st = set_state prev THREAD_READY st
                 in do {
                   st \<leftarrow> thread_scheduler_enqueue prev st;
                   st \<leftarrow> tailq_remove ReadyQ target st;
                   let st = upd_thread target (\<lambda>x. x\<lparr>in_ready_queue := False\<rparr>) st;
                   Some (swap_thread prev target (F_yield_to # ks) st, Switched)
                 })))"

definition clamp_priority :: "int \<Rightarrow> int" where
  "clamp_priority p =
     (let p = (if p > THREAD_MAX_PRIORITY then THREAD_MAX_PRIORITY else p)
      in if p < THREAD_MIN_PRIORITY then THREAD_MIN_PRIORITY else p)"

definition thread_set_priority :: "frame list \<Rightarrow> tid option \<Rightarrow> int \<Rightarrow> sys \<Rightarrow> result" where
  "thread_set_priority ks t p st =
     (case t of
        None \<Rightarrow> Some (st, Ret (-1) No_out)
      | Some th \<Rightarrow>
          (let st = block st;
               st = upd_thread th (\<lambda>x. x\<lparr>priority := clamp_priority p\<rparr>) st
           in if sched_policy st = THREAD_SCHED_PRIO \<and> th_state (thr st th) = THREAD_READY then do {
                st \<leftarrow> tailq_remove ReadyQ th st;
                let st = upd_thread th (\<lambda>x. x\<lparr>in_ready_queue := False\<rparr>) st;
                st \<leftarrow> thread_scheduler_enqueue th st;
                let cur = current_thread st;
                if th \<noteq> cur \<and> prio st th > prio st cur
                then thread_yield_to ks (Some th) (unblock st)
                else Some (unblock st, Ret 0 No_out)
              }
              else Some (unblock st, Ret 0 No_out)))"

section \<open>Well-formed states\<close>

text \<open>What one live thread structure looks like between two library steps.\<close>

definition thread_wf :: "bool \<Rightarrow> thread \<Rightarrow> bool" where
  "thread_wf is_cur x \<longleftrightarrow>
     (in_ready_queue x \<longleftrightarrow> entries x = Some ReadyQ) \<and>
     (in_zombie_queue x \<longleftrightarrow> entries x = Some ZombieQ) \<and>
     THREAD_MIN_PRIORITY \<le> priority x \<and> priority x \<le> THREAD_MAX_PRIORITY \<and>
     (is_cur \<longleftrightarrow> th_state x = THREAD_RUNNING) \<and>
     (case th_state x of
        THREAD_READY \<Rightarrow> entries x = Some ReadyQ
      | THREAD_RUNNING \<Rightarrow> entries x = None
      | THREAD_TERMINATED \<Rightarrow> entries x = None \<or> entries x = Some ZombieQ
      | THREAD_BLOCKED \<Rightarrow> entries x \<noteq> Some ReadyQ \<and> entries x \<noteq> Some ZombieQ)"

definition prio_ok :: "sys \<Rightarrow> bool" where
  "prio_ok st \<longleftrightarrow> (sched_policy st = THREAD_SCHED_PRIO \<longrightarrow> desc_sorted (prio st) (ready_queue st))"

text \<open>
  Inside a library call some threads are \<^emph>\<open>in flight\<close>: taken off their queue, or about to be put
  on one.  \<open>flight_inv P c st\<close> says that the threads \<open>P\<close> are in flight, \<open>c\<close> is the thread that
  runs (if it is not in flight), and everything else is as between two calls.
\<close>

definition unlinked :: "thread \<Rightarrow> bool" where
  "unlinked x \<longleftrightarrow> entries x = None \<and> \<not> in_ready_queue x \<and> \<not> in_zombie_queue x \<and>
     THREAD_MIN_PRIORITY \<le> priority x \<and> priority x \<le> THREAD_MAX_PRIORITY"

definition flight_inv :: "tid set \<Rightarrow> tid option \<Rightarrow> sys \<Rightarrow> bool" where
  "flight_inv P c st \<longleftrightarrow>
     queues_ok st \<and> prio_ok st \<and>
     (\<forall>t \<in> live st - P. thread_wf (c = Some t) (thr st t)) \<and>
     (\<forall>t \<in> P. t \<in> live st \<and> unlinked (thr st t)) \<and>
     (\<forall>t. entries (thr st t) \<noteq> None \<longrightarrow> t \<in> live st) \<and>
     main_thread \<in> live st"

definition sched_inv :: "sys \<Rightarrow> bool" where
  "sched_inv st \<longleftrightarrow> flight_inv {} (Some (current_thread st)) st \<and> current_thread st \<in> live st"

section \<open>The operations as state updates\<close>

definition ready_insert :: "sys \<Rightarrow> tid \<Rightarrow> tid list" where
  "ready_insert st t = (case sched_policy st of
     THREAD_SCHED_FIFO \<Rightarrow> ready_queue st @ [t]
   | THREAD_SCHED_PRIO \<Rightarrow> desc_insert (prio st) t (ready_queue st))"

lemma set_ready_insert [simp]: "set (ready_insert st t) = insert t (set (ready_queue st))"
  by (cases "sched_policy st") (auto simp: ready_insert_def)

lemma ready_insert_cong:
  assumes "ready_queue st' = ready_queue st" "sched_policy st' = sched_policy st"
    "\<And>u. prio st' u = prio st u"
  shows "ready_insert st' t = ready_insert st t"
proof -
  have "prio st' = prio st" using assms(3) by (rule ext)
  with assms(1,2) show ?thesis by (cases "sched_policy st") (simp_all add: ready_insert_def)
qed

lemma enqueue_noop: "in_ready_queue (thr st t) \<Longrightarrow> thread_scheduler_enqueue t st = Some st"
  by (simp add: thread_scheduler_enqueue_def)

lemma enqueue_eq:
  assumes ok: "queues_ok st" and t: "\<not> in_ready_queue (thr st t)" "entries (thr st t) = None"
  shows "thread_scheduler_enqueue t st = Some (st\<lparr>
    thr := (thr st)(t := (thr st t)\<lparr>in_ready_queue := True, entries := Some ReadyQ\<rparr>),
    queues := (queues st)(ReadyQ := ready_insert st t), unmasked := unmasked st \<or> preemptible st\<rparr>)"
proof (cases "sched_policy st")
  case THREAD_SCHED_FIFO
  with t show ?thesis
    by (simp add: thread_scheduler_enqueue_def tailq_insert_tail_def tailq_link_Some state_eqs
        ready_insert_def preemptible_def)
next
  case THREAD_SCHED_PRIO
  have d: "distinct (ready_queue st)" using ok by (rule queues_ok_distinct)
  show ?thesis
  proof (cases "find (\<lambda>c. prio st t > prio st c) (ready_queue st)")
    case None
    with THREAD_SCHED_PRIO t desc_insert_find [OF d, where key = "prio st" and t = t] show ?thesis
      by (simp add: thread_scheduler_enqueue_def tailq_insert_tail_def tailq_link_Some state_eqs
          ready_insert_def preemptible_def)
  next
    case (Some c)
    then have "c \<in> set (ready_queue st)" by (auto simp: find_Some_iff)
    with ok have c: "entries (thr st c) = Some ReadyQ" by (simp add: queues_ok_mem)
    with t have "c \<noteq> t" by auto
    with c Some THREAD_SCHED_PRIO t desc_insert_find [OF d, where key = "prio st" and t = t] show ?thesis
      by (simp add: thread_scheduler_enqueue_def tailq_insert_before_def tailq_link_Some state_eqs
          ready_insert_def preemptible_def)
  qed
qed

lemma pick_next_empty:
  "ready_queue st = [] \<Longrightarrow> thread_scheduler_pick_next st = Some (None, st)"
  by (simp add: thread_scheduler_pick_next_def tailq_first_def)

lemma pick_next_eq:
  assumes ok: "queues_ok st" and q: "ready_queue st = n # ns"
  shows "thread_scheduler_pick_next st = Some (Some n, st\<lparr>
    thr := (thr st)(n := (thr st n)\<lparr>entries := None, in_ready_queue := False\<rparr>),
    queues := (queues st)(ReadyQ := ns), unmasked := unmasked st \<or> preemptible st\<rparr>)"
proof -
  have "entries (thr st n) = Some ReadyQ" using ok q queues_ok_mem [of st n ReadyQ] by simp
  then show ?thesis
    using q by (simp add: thread_scheduler_pick_next_def tailq_first_def tailq_remove_def state_eqs)
qed

end
