(* ===== verification/Dispatch.thy ===== *)
theory Dispatch
  imports Scheduler
begin

text \<open>
  The contract between the scheduler and the blocking primitives: taking the next thread,
  making a thread ready, parking it on a waiting queue and taking it off again, and switching
  to the chosen thread.  Each step is shown to keep \<open>flight_inv\<close>; the locale \<open>dispatcher\<close>
  composes the steps into the two moves that mutexes, semaphores, conditions, signals and
  joins are made of: blocking the running thread and waking a blocked one.
\<close>

section \<open>Fields the scheduler does not look at\<close>

definition sched_part :: "thread \<Rightarrow> qid option \<times> bool \<times> bool \<times> tstate \<times> int" where
  "sched_part x = (entries x, in_ready_queue x, in_zombie_queue x, th_state x, priority x)"

lemma sched_part_eqD:
  assumes "sched_part x = sched_part y"
  shows "entries x = entries y" "in_ready_queue x = in_ready_queue y"
    "in_zombie_queue x = in_zombie_queue y" "th_state x = th_state y" "priority x = priority y"
  using assms by (auto simp: sched_part_def)

lemma sched_part_wf:
  assumes "sched_part x = sched_part y"
  shows "thread_wf b x = thread_wf b y" "unlinked x = unlinked y"
  using sched_part_eqD [OF assms] by (cases "th_state x"; simp add: thread_wf_def unlinked_def)+

lemma flight_cong:
  assumes "queues st' = queues st" "live st' = live st" "sched_policy st' = sched_policy st"
    and "\<And>t. sched_part (thr st' t) = sched_part (thr st t)"
  shows "flight_inv P c st' = flight_inv P c st"
  using assms(1-3) sched_part_eqD(1,5) [OF assms(4)] sched_part_wf [OF assms(4)]
  by (simp add: flight_inv_def queues_ok_def prio_ok_def)

section \<open>Steps\<close>

lemma flight_detach:
  "flight_inv P c st \<Longrightarrow> t \<in> live st \<Longrightarrow> entries (thr st t) = None \<Longrightarrow> flight_inv (insert t P) c st"
  by (auto simp: flight_inv_def thread_wf_def unlinked_def)

lemma flight_stop:
  assumes "flight_inv P (Some t) st" "t \<in> P" shows "flight_inv P None st"
proof -
  have "(Some t = Some ta) = (None = Some ta)" if "ta \<in> live st - P" for ta
    using that assms(2) by auto
  with assms(1) show ?thesis by (simp add: flight_inv_def)
qed

lemma flight_prioI:
  assumes "flight_inv P c st" "sched_policy st' = sched_policy st"
    and "\<And>t. t \<in> set (ready_queue st') \<Longrightarrow> prio st' t = prio st t"
    and "sched_policy st = THREAD_SCHED_PRIO \<Longrightarrow> desc_sorted (prio st) (ready_queue st')"
  shows "prio_ok st'"
  using assms desc_sorted_cong [of "ready_queue st'" "prio st'" "prio st"] by (simp add: prio_ok_def)

lemma flight_wf: "flight_inv P c st \<Longrightarrow> t \<in> live st \<Longrightarrow> t \<notin> P \<Longrightarrow> thread_wf (c = Some t) (thr st t)"
  by (simp add: flight_inv_def)

lemma flight_pick:
  assumes inv: "flight_inv P c st" and q: "ready_queue st = n # ns"
  shows "\<exists>st'. thread_scheduler_pick_next st = Some (Some n, st') \<and> flight_inv (insert n P) c st' \<and>
     n \<notin> P \<and> c \<noteq> Some n \<and> queues st' = (queues st)(ReadyQ := ns) \<and> live st' = live st \<and>
     th_state (thr st n) = THREAD_READY \<and>
     thr st' = (thr st)(n := (thr st n)\<lparr>entries := None, in_ready_queue := False\<rparr>) \<and>
     current_thread st' = current_thread st"
proof -
  let ?st = "st\<lparr>thr := (thr st)(n := (thr st n)\<lparr>entries := None, in_ready_queue := False\<rparr>),
    queues := (queues st)(ReadyQ := ns), unmasked := unmasked st \<or> preemptible st\<rparr>"
  have ok: "queues_ok st" using inv by (simp add: flight_inv_def)
  have n: "entries (thr st n) = Some ReadyQ" using ok q queues_ok_mem [of st n ReadyQ] by simp
  have m: "entries (thr st t) = Some ReadyQ \<longleftrightarrow> t \<in> set ns" if "t \<noteq> n" for t
    using queues_ok_mem [OF ok, of t ReadyQ] q that by simp
  have nP: "n \<notin> P" and live: "n \<in> live st"
    using inv n by (auto simp: flight_inv_def unlinked_def)
  have wf: "thread_wf (c = Some n) (thr st n)" using inv nP live by (simp add: flight_inv_def)
  then have u: "unlinked ((thr st n)\<lparr>entries := None, in_ready_queue := False\<rparr>)"
    and st: "th_state (thr st n) = THREAD_READY" "c \<noteq> Some n"
    using n by (auto simp: thread_wf_def unlinked_def split: tstate.splits)
  have "queues_ok ?st"
    using m n ok queues_ok_distinct [OF ok, of ReadyQ] q by (auto simp: queues_ok_def)
  moreover have "prio_ok ?st"
    using inv q by (intro flight_prioI [OF inv]) (auto simp: flight_inv_def prio_ok_def)
  ultimately have "flight_inv (insert n P) c ?st"
    using inv live u by (auto simp: flight_inv_def)
  with pick_next_eq [OF ok q] nP st show ?thesis by simp
qed

lemma flight_enqueue:
  assumes inv: "flight_inv P c st" and t: "t \<in> P" "c \<noteq> Some t" "th_state (thr st t) = THREAD_READY"
  shows "\<exists>st'. thread_scheduler_enqueue t st = Some st' \<and>
     flight_inv (P - {t}) c st' \<and> queues st' = (queues st)(ReadyQ := ready_insert st t) \<and>
     live st' = live st \<and> current_thread st' = current_thread st \<and>
     thr st' = (thr st)(t := (thr st t)\<lparr>in_ready_queue := True, entries := Some ReadyQ\<rparr>)"
proof -
  let ?st = "st\<lparr>thr := (thr st)(t := (thr st t)\<lparr>in_ready_queue := True, entries := Some ReadyQ\<rparr>),
    queues := (queues st)(ReadyQ := ready_insert st t), unmasked := unmasked st \<or> preemptible st\<rparr>"
  have ok: "queues_ok st" and u: "unlinked (thr st t)" and live: "t \<in> live st"
    using inv t by (auto simp: flight_inv_def)
  then have eq: "thread_scheduler_enqueue t st = Some ?st"
    by (intro enqueue_eq) (auto simp: unlinked_def)
  have nin: "t \<notin> set (ready_queue st)" using ok u by (simp add: queues_ok_mem unlinked_def)
  have "distinct (ready_insert st t)"
    using nin queues_ok_distinct [OF ok] by (simp add: ready_insert_def split: policy.splits)
  then have "queues_ok ?st" using ok u by (auto simp: queues_ok_def unlinked_def)
  moreover have "prio_ok ?st"
    using inv nin
    by (intro flight_prioI [OF inv]) (auto simp: flight_inv_def prio_ok_def ready_insert_def desc_sorted_insert)
  moreover have "thread_wf (c = Some t) ((thr st t)\<lparr>in_ready_queue := True, entries := Some ReadyQ\<rparr>)"
    using u t by (auto simp: thread_wf_def unlinked_def)
  ultimately have "flight_inv (P - {t}) c ?st"
    using inv live by (auto simp: flight_inv_def)
  with eq show ?thesis by simp
qed

lemma flight_set_state:
  assumes "flight_inv P c st" "t \<in> P" shows "flight_inv P c (set_state t s st)"
proof -
  have "prio_ok (set_state t s st)"
    using assms by (intro flight_prioI [OF assms(1)]) (auto simp: upd_thread_def flight_inv_def prio_ok_def)
  with assms show ?thesis
    by (auto simp: flight_inv_def upd_thread_def queues_ok_def unlinked_def)
qed

text \<open>The queues a blocked thread can hang in.\<close>

definition wait_queue :: "qid \<Rightarrow> bool" where
  "wait_queue q \<longleftrightarrow> q \<noteq> ReadyQ \<and> q \<noteq> ZombieQ"

lemma flight_park:
  assumes inv: "flight_inv P c st" and t: "t \<in> P" "c \<noteq> Some t" "th_state (thr st t) = THREAD_BLOCKED"
    and q: "wait_queue q"
  shows "\<exists>st'. tailq_insert_tail q t st = Some st' \<and>
     flight_inv (P - {t}) c st' \<and> queues st' = (queues st)(q := queues st q @ [t]) \<and>
     live st' = live st \<and> current_thread st' = current_thread st \<and>
     thr st' = (thr st)(t := (thr st t)\<lparr>entries := Some q\<rparr>)"
proof -
  have ok: "queues_ok st" and u: "unlinked (thr st t)" and live: "t \<in> live st"
    using inv t by (auto simp: flight_inv_def)
  then obtain st' where st': "tailq_insert_tail q t st = Some st'"
    by (auto simp: tailq_insert_tail_def tailq_link_Some unlinked_def)
  then have eq: "st' = st\<lparr>thr := (thr st)(t := (thr st t)\<lparr>entries := Some q\<rparr>),
      queues := (queues st)(q := queues st q @ [t]), unmasked := unmasked st \<or> preemptible st\<rparr>"
    by (simp add: tailq_insert_tail_def tailq_link_Some)
  have "queues_ok st'" using queues_ok_insert_tail [OF ok st'] .
  moreover have "prio_ok st'"
    using inv q by (intro flight_prioI [OF inv]) (auto simp: eq flight_inv_def prio_ok_def wait_queue_def)
  moreover have "thread_wf (c = Some t) ((thr st t)\<lparr>entries := Some q\<rparr>)"
    using u t q by (auto simp: thread_wf_def unlinked_def wait_queue_def)
  ultimately have "flight_inv (P - {t}) c st'"
    using inv live by (auto simp: flight_inv_def eq)
  with st' eq show ?thesis by simp
qed

lemma flight_unpark:
  assumes inv: "flight_inv P c st" and t: "t \<in> set (queues st q)" and q: "wait_queue q"
  shows "\<exists>st'. tailq_remove q t st = Some st' \<and> flight_inv (insert t P) c st' \<and> t \<notin> P \<and>
     c \<noteq> Some t \<and> t \<in> live st \<and> th_state (thr st t) = THREAD_BLOCKED \<and>
     queues st' = (queues st)(q := remove1 t (queues st q)) \<and>
     live st' = live st \<and> current_thread st' = current_thread st \<and>
     thr st' = (thr st)(t := (thr st t)\<lparr>entries := None\<rparr>)"
proof -
  have ok: "queues_ok st" using inv by (simp add: flight_inv_def)
  then have e: "entries (thr st t) = Some q" using t by (simp add: queues_ok_mem)
  then have tP: "t \<notin> P" and live: "t \<in> live st" using inv by (auto simp: flight_inv_def unlinked_def)
  have wf: "thread_wf (c = Some t) (thr st t)" using inv tP live by (simp add: flight_inv_def)
  obtain st' where st': "tailq_remove q t st = Some st'" using e by (simp add: tailq_remove_def)
  then have eq: "st' = st\<lparr>thr := (thr st)(t := (thr st t)\<lparr>entries := None\<rparr>),
      queues := (queues st)(q := remove1 t (queues st q)), unmasked := unmasked st \<or> preemptible st\<rparr>"
    by (simp add: tailq_remove_Some)
  have "queues_ok st'" using queues_ok_remove [OF ok st'] .
  moreover have "prio_ok st'"
    using inv q by (intro flight_prioI [OF inv]) (auto simp: eq flight_inv_def prio_ok_def wait_queue_def)
  moreover have "unlinked ((thr st t)\<lparr>entries := None\<rparr>)" "th_state (thr st t) = THREAD_BLOCKED" "c \<noteq> Some t"
    using wf e q by (auto simp: thread_wf_def unlinked_def wait_queue_def split: tstate.splits)
  ultimately show ?thesis
    using inv live tP st' by (auto simp: flight_inv_def eq)
qed

lemma flight_run:
  assumes "flight_inv P None st" "t \<in> P"
  shows "flight_inv (P - {t}) (Some t) (swap_thread prev t ks st)"
proof -
  let ?st = "set_state t THREAD_RUNNING st"
  have "flight_inv P None ?st" using assms by (rule flight_set_state)
  moreover have "th_state (thr ?st t) = THREAD_RUNNING" by (simp add: upd_thread_def)
  ultimately have "flight_inv (P - {t}) (Some t) ?st"
    using assms(2) by (auto simp: flight_inv_def thread_wf_def unlinked_def)
  then show ?thesis
    by (rule flight_cong [THEN iffD2, rotated 4]) (auto simp: state_eqs sched_part_def)
qed

lemma swap_thread_sel [simp]:
  "current_thread (swap_thread prev t ks st) = t" "queues (swap_thread prev t ks st) = queues st"
  "live (swap_thread prev t ks st) = live st" "m_locked (swap_thread prev t ks st) = m_locked st"
  "s_count (swap_thread prev t ks st) = s_count st" "unmasked (swap_thread prev t ks st) = unmasked st"
  by (simp_all add: state_eqs)

lemma flight_retire:
  assumes inv: "flight_inv P (Some p) st" and p: "p \<in> live st" "p \<notin> P"
  shows "flight_inv (insert p P) None st"
proof -
  have "thread_wf True (thr st p)" using flight_wf [OF inv p] by simp
  then have "entries (thr st p) = None" by (auto simp: thread_wf_def split: tstate.splits)
  with inv p have "flight_inv (insert p P) (Some p) st" by (intro flight_detach)
  then show ?thesis by (rule flight_stop) simp
qed

section \<open>The interface of the dispatcher\<close>

text \<open>
  \<open>inv P c s\<close>: in state \<open>s\<close> the threads \<open>P\<close> are in flight and \<open>c\<close> runs.  \<open>wq\<close> are the waiting
  queues.
\<close>

locale dispatcher =
  fixes inv :: "'t set \<Rightarrow> 't option \<Rightarrow> 's \<Rightarrow> bool" and alive :: "'s \<Rightarrow> 't set"
    and ready :: "'s \<Rightarrow> 't list" and waiting :: "'s \<Rightarrow> 'q \<Rightarrow> 't list" and wq :: "'q \<Rightarrow> bool"
    and pick :: "'s \<Rightarrow> ('t option \<times> 's) option" and make_ready :: "'t \<Rightarrow> 's \<Rightarrow> 's option"
    and park :: "'q \<Rightarrow> 't \<Rightarrow> 's \<Rightarrow> 's option" and unpark :: "'q \<Rightarrow> 't \<Rightarrow> 's \<Rightarrow> 's option"
    and switch :: "'t \<Rightarrow> 't \<Rightarrow> 'k \<Rightarrow> 's \<Rightarrow> 's"
  assumes retire: "inv P (Some p) s \<Longrightarrow> p \<in> alive s \<Longrightarrow> p \<notin> P \<Longrightarrow> inv (insert p P) None s"
    and pick_some: "inv P c s \<Longrightarrow> ready s = n # ns \<Longrightarrow>
      \<exists>s'. pick s = Some (Some n, s') \<and> inv (insert n P) c s' \<and> n \<notin> P \<and> c \<noteq> Some n \<and> alive s' = alive s \<and>
        ready s' = ns \<and> (\<forall>q. wq q \<longrightarrow> waiting s' q = waiting s q)"
    and pick_none: "ready s = [] \<Longrightarrow> pick s = Some (None, s)"
    and make_ready_ok: "inv P c s \<Longrightarrow> t \<in> P \<Longrightarrow> c \<noteq> Some t \<Longrightarrow>
      \<exists>s'. make_ready t s = Some s' \<and> inv (P - {t}) c s' \<and> alive s' = alive s \<and>
        set (ready s') = insert t (set (ready s)) \<and> (\<forall>q. wq q \<longrightarrow> waiting s' q = waiting s q)"
    and park_ok: "inv P c s \<Longrightarrow> t \<in> P \<Longrightarrow> c \<noteq> Some t \<Longrightarrow> wq q \<Longrightarrow>
      \<exists>s'. park q t s = Some s' \<and> inv (P - {t}) c s' \<and> alive s' = alive s \<and> ready s' = ready s \<and>
        waiting s' q = waiting s q @ [t] \<and> (\<forall>q'. wq q' \<longrightarrow> q' \<noteq> q \<longrightarrow> waiting s' q' = waiting s q')"
    and unpark_ok: "inv P c s \<Longrightarrow> waiting s q = t # ts \<Longrightarrow> wq q \<Longrightarrow>
      \<exists>s'. unpark q t s = Some s' \<and> inv (insert t P) c s' \<and> t \<notin> P \<and> c \<noteq> Some t \<and> alive s' = alive s \<and>
        ready s' = ready s \<and> waiting s' q = ts \<and>
        (\<forall>q'. wq q' \<longrightarrow> q' \<noteq> q \<longrightarrow> waiting s' q' = waiting s q')"
    and switch_ok: "inv P None s \<Longrightarrow> n \<in> P \<Longrightarrow> inv (P - {n}) (Some n) (switch p n k s)"
begin

text \<open>Waking the first waiter of a queue.\<close>

lemma wake:
  assumes "inv P c s" "waiting s q = t # ts" "wq q"
  shows "\<exists>s1 s2. unpark q t s = Some s1 \<and> make_ready t s1 = Some s2 \<and> inv P c s2 \<and> alive s2 = alive s \<and>
    set (ready s2) = insert t (set (ready s)) \<and> waiting s2 q = ts \<and>
    (\<forall>q'. wq q' \<longrightarrow> q' \<noteq> q \<longrightarrow> waiting s2 q' = waiting s q')"
proof -
  from unpark_ok [OF assms] obtain s1 where s1: "unpark q t s = Some s1" "inv (insert t P) c s1"
    "t \<notin> P" "c \<noteq> Some t" "alive s1 = alive s" "ready s1 = ready s" "waiting s1 q = ts"
    "\<forall>q'. wq q' \<longrightarrow> q' \<noteq> q \<longrightarrow> waiting s1 q' = waiting s q'" by blast
  from make_ready_ok [OF s1(2), of t] s1(3,4) obtain s2 where
    "make_ready t s1 = Some s2" "inv (insert t P - {t}) c s2" "alive s2 = alive s1"
    "set (ready s2) = insert t (set (ready s1))" "\<forall>q. wq q \<longrightarrow> waiting s2 q = waiting s1 q" by blast
  with s1 assms(3) show ?thesis by auto
qed

text \<open>The running thread parks on a queue and the next thread runs.\<close>

lemma park_switch:
  assumes "inv P (Some p) s" "p \<in> alive s" "p \<notin> P" "n \<in> P" "wq q"
  shows "\<exists>s1. park q p s = Some s1 \<and> inv (P - {n}) (Some n) (switch p n k s1) \<and>
    ready s1 = ready s \<and> waiting s1 q = waiting s q @ [p] \<and>
    (\<forall>q'. wq q' \<longrightarrow> q' \<noteq> q \<longrightarrow> waiting s1 q' = waiting s q')"
proof -
  have "inv (insert p P) None s" using assms(1-3) by (rule retire)
  from park_ok [OF this, of p q] assms(5) obtain s1 where s1: "park q p s = Some s1"
    "inv (insert p P - {p}) None s1" "ready s1 = ready s" "waiting s1 q = waiting s q @ [p]"
    "\<forall>q'. wq q' \<longrightarrow> q' \<noteq> q \<longrightarrow> waiting s1 q' = waiting s q'" by auto
  have "insert p P - {p} = P" using assms(3) by auto
  with s1(2) switch_ok [of P s1 n p k] assms(4) have "inv (P - {n}) (Some n) (switch p n k s1)" by simp
  with s1 show ?thesis by blast
qed

lemma block_on:
  assumes "inv {} (Some p) s" "p \<in> alive s" "ready s = n # ns" "wq q"
  shows "\<exists>s1 s2. pick s = Some (Some n, s1) \<and> park q p s1 = Some s2 \<and>
    inv {} (Some n) (switch p n k s2) \<and> ready s2 = ns \<and> waiting s2 q = waiting s q @ [p] \<and>
    (\<forall>q'. wq q' \<longrightarrow> q' \<noteq> q \<longrightarrow> waiting s2 q' = waiting s q')"
proof -
  from pick_some [OF assms(1,3)] obtain s1 where s1: "pick s = Some (Some n, s1)" "inv {n} (Some p) s1"
    "Some p \<noteq> Some n" "alive s1 = alive s" "ready s1 = ns" "\<forall>q. wq q \<longrightarrow> waiting s1 q = waiting s q"
    by blast
  from park_switch [OF s1(2), of n q k] s1 assms(2,4) show ?thesis by auto
qed

end

definition make_ready :: "tid \<Rightarrow> sys \<Rightarrow> sys option" where
  "make_ready t st = thread_scheduler_enqueue t (set_state t THREAD_READY st)"

definition park :: "qid \<Rightarrow> tid \<Rightarrow> sys \<Rightarrow> sys option" where
  "park q t st = tailq_insert_tail q t (set_state t THREAD_BLOCKED st)"

text \<open>The wake-up that \<open>thread_mutex_unlock\<close>, \<open>thread_sem_post\<close> and the condition variables
  share: unlink the first waiter, mark it ready, enqueue it.\<close>

definition revive :: "qid \<Rightarrow> sys \<Rightarrow> sys option" where
  "revive q st =
     (case tailq_first q st of
        None \<Rightarrow> Some st
      | Some revived \<Rightarrow> do {
          st \<leftarrow> tailq_remove q revived st;
          thread_scheduler_enqueue revived (set_state revived THREAD_READY st)
        })"

interpretation dp: dispatcher flight_inv live "\<lambda>st. ready_queue st" "\<lambda>st. queues st" wait_queue
    thread_scheduler_pick_next make_ready park tailq_remove swap_thread
proof
  fix P p st assume "flight_inv P (Some p) st" "p \<in> live st" "p \<notin> P"
  then show "flight_inv (insert p P) None st" by (rule flight_retire)
next
  fix P c st n ns assume inv: "flight_inv P c st" and q: "ready_queue st = n # ns"
  from flight_pick [OF this]
  show "\<exists>s'. thread_scheduler_pick_next st = Some (Some n, s') \<and> flight_inv (insert n P) c s' \<and> n \<notin> P \<and>
      c \<noteq> Some n \<and> live s' = live st \<and> ready_queue s' = ns \<and> (\<forall>q. wait_queue q \<longrightarrow> queues s' q = queues st q)"
    by (auto simp: wait_queue_def)
next
  fix P c st t assume a: "flight_inv P c st" "t \<in> P" "c \<noteq> Some t"
  have "flight_inv P c (set_state t THREAD_READY st)" using a by (intro flight_set_state)
  from flight_enqueue [OF this a(2,3)]
  show "\<exists>s'. make_ready t st = Some s' \<and> flight_inv (P - {t}) c s' \<and> live s' = live st \<and>
      set (ready_queue s') = insert t (set (ready_queue st)) \<and> (\<forall>q. wait_queue q \<longrightarrow> queues s' q = queues st q)"
    by (auto simp: make_ready_def wait_queue_def upd_thread_def)
next
  fix P c st t q assume a: "flight_inv P c st" "t \<in> P" "c \<noteq> Some t" "wait_queue q"
  have "flight_inv P c (set_state t THREAD_BLOCKED st)" using a by (intro flight_set_state)
  from flight_park [OF this a(2,3) _ a(4)] a(4)
  show "\<exists>s'. park q t st = Some s' \<and> flight_inv (P - {t}) c s' \<and> live s' = live st \<and>
      ready_queue s' = ready_queue st \<and> queues s' q = queues st q @ [t] \<and>
      (\<forall>q'. wait_queue q' \<longrightarrow> q' \<noteq> q \<longrightarrow> queues s' q' = queues st q')"
    by (auto simp: park_def wait_queue_def upd_thread_def)
next
  fix P c st q t ts assume a: "flight_inv P c st" "queues st q = t # ts" "wait_queue q"
  from flight_unpark [OF a(1), of t q] a(2,3)
  show "\<exists>s'. tailq_remove q t st = Some s' \<and> flight_inv (insert t P) c s' \<and> t \<notin> P \<and> c \<noteq> Some t \<and>
      live s' = live st \<and> ready_queue s' = ready_queue st \<and> queues s' q = ts \<and>
      (\<forall>q'. wait_queue q' \<longrightarrow> q' \<noteq> q \<longrightarrow> queues s' q' = queues st q')"
    by (auto simp: wait_queue_def)
next
  show "flight_inv P None s \<Longrightarrow> n \<in> P \<Longrightarrow> flight_inv (P - {n}) (Some n) (swap_thread p n k s)"
    for P s n p k by (rule flight_run)
qed (rule pick_next_empty)

lemma sched_inv_block [simp]: "sched_inv (block st) = sched_inv st" "sched_inv (unblock st) = sched_inv st"
  unfolding sched_inv_def
  by (auto simp: state_eqs intro!: flight_cong [THEN iffD2] elim!: flight_cong [THEN iffD1, rotated 4])

lemma flight_inv_update [simp]:
  "flight_inv P c (st\<lparr>m_locked := l\<rparr>) = flight_inv P c st"
  "flight_inv P c (st\<lparr>s_count := n\<rparr>) = flight_inv P c st"
  "flight_inv P c (st\<lparr>errno := e\<rparr>) = flight_inv P c st"
  "flight_inv P c (st\<lparr>initialised := Q\<rparr>) = flight_inv P c st"
  "flight_inv P c (st\<lparr>bare_inits := Q\<rparr>) = flight_inv P c st"
  "flight_inv P c (block st) = flight_inv P c st"
  "flight_inv P c (unblock st) = flight_inv P c st"
  by (rule flight_cong; simp)+

lemma sched_inv_update [simp]:
  "sched_inv (st\<lparr>m_locked := l\<rparr>) = sched_inv st"
  "sched_inv (st\<lparr>s_count := n\<rparr>) = sched_inv st"
  "sched_inv (st\<lparr>errno := e\<rparr>) = sched_inv st"
  "sched_inv (st\<lparr>initialised := Q\<rparr>) = sched_inv st"
  "sched_inv (st\<lparr>bare_inits := Q\<rparr>) = sched_inv st"
  by (simp_all add: sched_inv_def)

lemma block_update [simp]:
  "block (st\<lparr>m_locked := l\<rparr>) = (block st)\<lparr>m_locked := l\<rparr>"
  "unblock (st\<lparr>m_locked := l\<rparr>) = (unblock st)\<lparr>m_locked := l\<rparr>"
  by (simp_all add: state_eqs)

section \<open>What a wake-up leaves alone\<close>

lemma enqueue_frame:
  assumes "thread_scheduler_enqueue t st = Some st'"
  shows "current_thread st' = current_thread st" "live st' = live st" "m_locked st' = m_locked st"
    "s_count st' = s_count st" "errno st' = errno st" "sched_policy st' = sched_policy st"
    "sigmask st' = sigmask st" "enable_preemption st' = enable_preemption st"
    "sigvtalrm_mask st' = sigvtalrm_mask st" "timer_us st' = timer_us st"
    "q \<noteq> ReadyQ \<Longrightarrow> queues st' q = queues st q"
    "unmasked st' = (unmasked st \<or> \<not> in_ready_queue (thr st t) \<and> preemptible st)"
    "initialised st' = initialised st" "bare_inits st' = bare_inits st"
  using assms
  by (auto simp: thread_scheduler_enqueue_def tailq_insert_tail_def tailq_insert_before_def tailq_link_Some
      upd_thread_def preemptible_def split: if_splits policy.splits option.splits)

lemma pick_frame:
  assumes "thread_scheduler_pick_next st = Some (n, st')"
  shows "current_thread st' = current_thread st" "live st' = live st" "m_locked st' = m_locked st"
    "s_count st' = s_count st" "errno st' = errno st" "sched_policy st' = sched_policy st"
    "sigmask st' = sigmask st" "enable_preemption st' = enable_preemption st"
    "sigvtalrm_mask st' = sigvtalrm_mask st" "timer_us st' = timer_us st"
    "q \<noteq> ReadyQ \<Longrightarrow> queues st' q = queues st q"
    "unmasked st' = (unmasked st \<or> n \<noteq> None \<and> preemptible st)"
    "initialised st' = initialised st" "bare_inits st' = bare_inits st"
  using assms
  by (auto simp: thread_scheduler_pick_next_def tailq_remove_Some tailq_first_def upd_thread_def
      split: list.splits)

lemma revive_empty: "queues st q = [] \<Longrightarrow> revive q st = Some st"
  by (simp add: revive_def tailq_first_def)

lemma revive_wake:
  assumes "flight_inv P c st" "queues st q = t # ts" "wait_queue q"
  shows "\<exists>st'. revive q st = Some st' \<and> flight_inv P c st' \<and> live st' = live st \<and>
    queues st' q = ts \<and> set (ready_queue st') = insert t (set (ready_queue st)) \<and>
    (\<forall>q'. wait_queue q' \<longrightarrow> q' \<noteq> q \<longrightarrow> queues st' q' = queues st q') \<and>
    current_thread st' = current_thread st \<and> m_locked st' = m_locked st \<and> s_count st' = s_count st"
proof -
  from dp.wake [OF assms] obtain s1 s2 where s: "tailq_remove q t st = Some s1" "make_ready t s1 = Some s2"
    "flight_inv P c s2" "live s2 = live st" "set (ready_queue s2) = insert t (set (ready_queue st))"
    "queues s2 q = ts" "\<forall>q'. wait_queue q' \<longrightarrow> q' \<noteq> q \<longrightarrow> queues s2 q' = queues st q'" by blast
  have "revive q st = Some s2" using assms(2) s(1,2) by (simp add: revive_def tailq_first_def make_ready_def)
  moreover have "current_thread s2 = current_thread st" "m_locked s2 = m_locked st" "s_count s2 = s_count st"
    using s(1) enqueue_frame [OF s(2) [unfolded make_ready_def]]
    by (auto simp: tailq_remove_Some upd_thread_def)
  ultimately show ?thesis using s by blast
qed

text \<open>The running thread parks and the thread that was picked runs.\<close>

lemma park_and_switch:
  assumes inv: "flight_inv {n} (Some p) st" and p: "p \<in> live st" "p \<noteq> n" and q: "wait_queue q"
  shows "\<exists>st'. tailq_insert_tail q p (set_state p THREAD_BLOCKED st) = Some st' \<and>
    sched_inv (swap_thread p n ks st') \<and> queues st' = (queues st)(q := queues st q @ [p]) \<and>
    live st' = live st \<and> m_locked st' = m_locked st \<and> s_count st' = s_count st"
proof -
  from dp.park_switch [where n = n and k = ks, OF inv p(1) _ _ q] p(2) obtain s1 where s1: "park q p st = Some s1"
    "flight_inv {} (Some n) (swap_thread p n ks s1)" by auto
  have "n \<in> live st" using inv by (simp add: flight_inv_def)
  moreover have "live s1 = live st" "queues s1 = (queues st)(q := queues st q @ [p])"
    "m_locked s1 = m_locked st" "s_count s1 = s_count st"
    using s1(1) by (auto simp: park_def tailq_insert_tail_def tailq_link_Some upd_thread_def)
  ultimately show ?thesis using s1 by (auto simp: park_def sched_inv_def)
qed

section \<open>Blocking without a queue\<close>

text \<open>\<open>thread_join\<close> and \<open>thread_sigwait\<close> block the caller without linking it anywhere.\<close>

lemma flight_settle:
  assumes "flight_inv P c st" "t \<in> P" "c \<noteq> Some t"
    and "th_state (thr st t) = THREAD_BLOCKED \<or> th_state (thr st t) = THREAD_TERMINATED"
  shows "flight_inv (P - {t}) c st"
proof -
  have "thread_wf (c = Some t) (thr st t)"
    using assms by (auto simp: flight_inv_def unlinked_def thread_wf_def)
  with assms(1) show ?thesis by (auto simp: flight_inv_def)
qed

lemma flight_restart:
  assumes inv: "flight_inv P None st" and t: "t \<in> P" "th_state (thr st t) = THREAD_RUNNING"
  shows "flight_inv (P - {t}) (Some t) st"
proof -
  have "thread_wf True (thr st t)"
    using assms by (auto simp: flight_inv_def unlinked_def thread_wf_def)
  moreover have "thread_wf False (thr st u)" if "u \<in> live st - P" for u
    using inv that by (auto simp: flight_inv_def)
  ultimately have "\<forall>u \<in> live st - (P - {t}). thread_wf (Some t = Some u) (thr st u)"
    using t(1) by (metis Diff_iff option.inject singleton_iff)
  with inv show ?thesis by (simp add: flight_inv_def)
qed

text \<open>Private fields of a thread in flight may change freely.\<close>

lemma flight_upd_thread:
  assumes "flight_inv P c st" "t \<in> P"
    and "\<And>x. entries (f x) = entries x" "\<And>x. in_ready_queue (f x) = in_ready_queue x"
    "\<And>x. in_zombie_queue (f x) = in_zombie_queue x" "\<And>x. priority (f x) = priority x"
  shows "flight_inv P c (upd_thread t f st)"
proof -
  have "prio_ok (upd_thread t f st)"
    using assms by (intro flight_prioI [OF assms(1)]) (auto simp: upd_thread_def flight_inv_def prio_ok_def)
  with assms show ?thesis
    by (auto simp: flight_inv_def upd_thread_def queues_ok_def unlinked_def)
qed

lemma flight_upd_private:
  assumes "\<And>x. sched_part (f x) = sched_part x"
  shows "flight_inv P c (upd_thread t f st) = flight_inv P c st"
  by (rule flight_cong) (simp_all add: upd_thread_def assms)

lemma block_unlinked:
  assumes inv: "sched_inv st" and q: "ready_queue st = n # ns"
    and f: "\<And>x. entries (f x) = entries x" "\<And>x. in_ready_queue (f x) = in_ready_queue x"
    "\<And>x. in_zombie_queue (f x) = in_zombie_queue x" "\<And>x. priority (f x) = priority x"
    "\<And>x. th_state (f x) = THREAD_BLOCKED"
  shows "\<exists>st'. thread_scheduler_pick_next (upd_thread (current_thread st) f st) = Some (Some n, st') \<and>
    sched_inv (swap_thread (current_thread st) n ks st') \<and> n \<noteq> current_thread st \<and>
    queues st' = (queues st)(ReadyQ := ns) \<and> live st' = live st \<and>
    thr st' = (thr st)(current_thread st := f (thr st (current_thread st)),
      n := (thr st n)\<lparr>entries := None, in_ready_queue := False\<rparr>) \<and>
    m_locked st' = m_locked st \<and> s_count st' = s_count st \<and> head_cells st' = head_cells st"
proof -
  let ?p = "current_thread st" and ?u = "upd_thread (current_thread st) f st"
  have fl: "flight_inv {} (Some ?p) st" and pl: "?p \<in> live st" using inv by (simp_all add: sched_inv_def)
  have u: "flight_inv {?p} None ?u"
    using flight_retire [OF fl pl] f by (intro flight_upd_thread) auto
  have "ready_queue ?u = n # ns" using q by (simp add: upd_thread_def)
  from flight_pick [OF u this] obtain s1 where s1: "thread_scheduler_pick_next ?u = Some (Some n, s1)"
    "flight_inv {n, ?p} None s1" "n \<noteq> ?p" "queues s1 = (queues st)(ReadyQ := ns)" "live s1 = live st"
    "thr s1 = (thr ?u)(n := (thr ?u n)\<lparr>entries := None, in_ready_queue := False\<rparr>)" "n \<in> live st"
    by (auto simp: upd_thread_def flight_inv_def)
  have b: "th_state (thr s1 ?p) = THREAD_BLOCKED" using s1(3,6) f(5) by (simp add: upd_thread_def)
  have "flight_inv ({n, ?p} - {?p}) None s1" using s1(2) b by (intro flight_settle) auto
  then have "flight_inv {n} None s1" using s1(3) by (simp add: insert_Diff_if)
  then have "flight_inv {} (Some n) (swap_thread ?p n ks s1)" using flight_run [of "{n}" s1 n] by simp
  moreover have "m_locked s1 = m_locked st" "s_count s1 = s_count st" "head_cells s1 = head_cells st"
    using s1(1) by (auto simp: thread_scheduler_pick_next_def tailq_remove_Some tailq_first_def upd_thread_def
      split: list.splits)
  ultimately show ?thesis
    using s1 by (auto simp: sched_inv_def upd_thread_def)
qed

end
