(* ===== verification/Yielding.thy ===== *)
theory Yielding
  imports Dispatch
begin

text \<open>
  Correctness of \<open>thread_yield\<close>, \<open>thread_yield_to\<close> and \<open>thread_set_priority\<close>: from a
  well-formed state they are defined, keep the state well-formed, and choose the thread the
  policy prescribes.
\<close>

section \<open>Aging\<close>

definition bumped :: "int \<Rightarrow> int" where "bumped p = min (p + 1) 100"
definition lowered :: "int \<Rightarrow> int" where "lowered p = max (p - 2) 0"

lemma age_fold:
  "distinct ts \<Longrightarrow>
   fold (\<lambda>t. upd_thread t (\<lambda>x. let p = priority x + THREAD_WAIT
        in x\<lparr>priority := (if p > THREAD_MAX_PRIORITY then THREAD_MAX_PRIORITY else p)\<rparr>)) ts st =
   st\<lparr>thr := (\<lambda>t. if t \<in> set ts then (thr st t)\<lparr>priority := bumped (priority (thr st t))\<rparr> else thr st t)\<rparr>"
proof (induction ts arbitrary: st)
  case (Cons t ts)
  have "bumped p = (if p + THREAD_WAIT > THREAD_MAX_PRIORITY then THREAD_MAX_PRIORITY else p + THREAD_WAIT)"
    for p by (simp add: bumped_def THREAD_MAX_PRIORITY_def THREAD_WAIT_def)
  with Cons show ?case by (auto simp: upd_thread_def Let_def fun_eq_iff)
qed simp

lemma age_waiting_eq:
  "queues_ok st \<Longrightarrow> age_waiting st =
   st\<lparr>thr := (\<lambda>t. if t \<in> set (ready_queue st) then (thr st t)\<lparr>priority := bumped (prio st t)\<rparr> else thr st t)\<rparr>"
  unfolding age_waiting_def by (rule age_fold) (rule queues_ok_distinct)

lemma age_running_eq:
  "age_running t st = (if th_state (thr st t) = THREAD_RUNNING
     then st\<lparr>thr := (thr st)(t := (thr st t)\<lparr>priority := lowered (prio st t)\<rparr>)\<rparr> else st)"
  by (auto simp: age_running_def upd_thread_def Let_def lowered_def THREAD_MIN_PRIORITY_def THREAD_AGING_def
      max_def)

lemma sched_inv_prio_range:
  "sched_inv st \<Longrightarrow> t \<in> live st \<Longrightarrow> THREAD_MIN_PRIORITY \<le> prio st t \<and> prio st t \<le> THREAD_MAX_PRIORITY"
  by (auto simp: sched_inv_def flight_inv_def thread_wf_def)

lemma sched_inv_ready_live: "sched_inv st \<Longrightarrow> t \<in> set (ready_queue st) \<Longrightarrow> t \<in> live st"
  by (auto simp: sched_inv_def flight_inv_def queues_ok_mem)

lemma sched_inv_wf:
  "sched_inv st \<Longrightarrow> t \<in> live st \<Longrightarrow> thread_wf (t = current_thread st) (thr st t)"
  unfolding sched_inv_def using flight_wf [of "{}" "Some (current_thread st)" st t] by (simp add: eq_commute)

lemma sched_inv_queues_ok: "sched_inv st \<Longrightarrow> queues_ok st"
  by (simp add: sched_inv_def flight_inv_def)

lemma sched_inv_current:
  assumes "sched_inv st"
  shows "th_state (thr st (current_thread st)) = THREAD_RUNNING"
    and "entries (thr st (current_thread st)) = None"
    and "current_thread st \<notin> set (queues st q)"
proof -
  have "thread_wf True (thr st (current_thread st))"
    using sched_inv_wf [OF assms, of "current_thread st"] assms by (simp add: sched_inv_def)
  then show run: "th_state (thr st (current_thread st)) = THREAD_RUNNING"
    and e: "entries (thr st (current_thread st)) = None"
    by (auto simp: thread_wf_def)
  show "current_thread st \<notin> set (queues st q)"
    using e sched_inv_queues_ok [OF assms] by (simp add: queues_ok_mem)
qed

definition aged :: "sys \<Rightarrow> sys" where
  "aged st = (if sched_policy st = THREAD_SCHED_PRIO
     then age_running (current_thread st) (age_waiting st) else st)"

lemma sched_inv_set_prio:
  assumes inv: "sched_inv st" and t: "t \<in> live st" "t \<notin> set (ready_queue st)"
    and p: "THREAD_MIN_PRIORITY \<le> p" "p \<le> THREAD_MAX_PRIORITY"
  shows "sched_inv (upd_thread t (\<lambda>x. x\<lparr>priority := p\<rparr>) st)"
proof -
  let ?st = "upd_thread t (\<lambda>x. x\<lparr>priority := p\<rparr>) st"
  have "thread_wf b (x\<lparr>priority := p\<rparr>)" if "thread_wf b x" for b x
    using that p by (cases "th_state x") (auto simp: thread_wf_def)
  moreover have "desc_sorted (prio ?st) (ready_queue st) = desc_sorted (prio st) (ready_queue st)"
    using t(2) by (intro desc_sorted_cong) (auto simp: upd_thread_def)
  then have "prio_ok ?st" using inv
    by (simp add: prio_ok_def sched_inv_def flight_inv_def upd_thread_def)
  moreover have "queues_ok ?st = queues_ok st" by (rule queues_ok_cong) (simp_all add: upd_thread_def)
  ultimately show ?thesis using inv by (auto simp: sched_inv_def flight_inv_def upd_thread_def)
qed

lemma sched_inv_age_waiting:
  assumes inv: "sched_inv st" shows "sched_inv (age_waiting st)"
proof -
  have ok: "queues_ok st" using inv by (simp add: sched_inv_def flight_inv_def)
  let ?f = "\<lambda>t. if t \<in> set (ready_queue st) then bumped (prio st t) else prio st t"
  have wf: "thread_wf b (x\<lparr>priority := bumped (priority x)\<rparr>)" if "thread_wf b x" for b x
    using that by (cases "th_state x")
      (auto simp: thread_wf_def bumped_def THREAD_MIN_PRIORITY_def THREAD_MAX_PRIORITY_def)
  have "desc_sorted ?f (ready_queue st)" if "sched_policy st = THREAD_SCHED_PRIO"
    using inv that by (intro desc_sorted_mono [of "prio st" "ready_queue st" ?f])
      (auto simp: sched_inv_def flight_inv_def prio_ok_def bumped_def)
  then have "prio_ok (age_waiting st)"
    by (auto simp: prio_ok_def age_waiting_eq [OF ok] if_distrib cong: if_cong)
  moreover have "queues_ok (age_waiting st) = queues_ok st"
    by (rule queues_ok_cong) (simp_all add: age_waiting_eq [OF ok])
  ultimately show ?thesis using inv wf by (auto simp: sched_inv_def flight_inv_def age_waiting_eq [OF ok])
qed

lemma aged_sel:
  assumes "sched_inv st"
  shows "current_thread (aged st) = current_thread st" "queues (aged st) = queues st"
    "live (aged st) = live st" "sched_policy (aged st) = sched_policy st"
    "sigmask (aged st) = sigmask st" "unmasked (aged st) = unmasked st"
    "\<And>t. th_state (thr (aged st) t) = th_state (thr st t)"
proof -
  have "queues_ok st" using assms by (simp add: sched_inv_def flight_inv_def)
  then show "current_thread (aged st) = current_thread st" "queues (aged st) = queues st"
    "live (aged st) = live st" "sched_policy (aged st) = sched_policy st"
    "sigmask (aged st) = sigmask st" "unmasked (aged st) = unmasked st"
    "\<And>t. th_state (thr (aged st) t) = th_state (thr st t)"
    by (auto simp: aged_def age_waiting_eq age_running_eq)
qed

lemma sched_inv_aged:
  assumes inv: "sched_inv st" shows "sched_inv (aged st)"
proof (cases "sched_policy st = THREAD_SCHED_PRIO")
  case True
  let ?w = "age_waiting st" and ?c = "current_thread st"
  have ok: "queues_ok st" using inv by (simp add: sched_inv_def flight_inv_def)
  have w: "sched_inv ?w" using inv by (rule sched_inv_age_waiting)
  have c: "current_thread ?w = ?c" by (simp add: age_waiting_eq [OF ok])
  have cur: "?c \<in> live ?w" "?c \<notin> set (ready_queue ?w)"
    using w sched_inv_current(3) [OF w] by (auto simp: sched_inv_def c)
  have "age_running ?c ?w = upd_thread ?c (\<lambda>x. x\<lparr>priority := lowered (prio ?w ?c)\<rparr>) ?w"
    using sched_inv_current(1) [OF w] by (simp add: age_running_eq upd_thread_def c)
  moreover have "THREAD_MIN_PRIORITY \<le> lowered (prio ?w ?c)" "lowered (prio ?w ?c) \<le> THREAD_MAX_PRIORITY"
    using sched_inv_prio_range [OF w cur(1)]
    by (auto simp: lowered_def THREAD_MIN_PRIORITY_def THREAD_MAX_PRIORITY_def)
  ultimately show ?thesis
    using True sched_inv_set_prio [OF w cur] by (simp add: aged_def)
qed (simp add: aged_def inv)

section \<open>Yielding\<close>

lemma yield_aged:
  "thread_yield ks st =
     (let prev = current_thread st; st = aged (block st)
      in do {
        (nxt, st) \<leftarrow> thread_scheduler_pick_next st;
        (case nxt of
           None \<Rightarrow> Some (unblock st, Ret 0 No_out)
         | Some nxt \<Rightarrow>
             if nxt = prev then Some (unblock st, Ret 0 No_out)
             else if sched_policy st = THREAD_SCHED_PRIO \<and> prio st nxt \<le> prio st prev then do {
               st \<leftarrow> thread_scheduler_enqueue nxt (unblock st);
               Some (st, Ret 0 No_out)
             }
             else do {
               st \<leftarrow> (if th_state (thr st prev) = THREAD_RUNNING
                      then thread_scheduler_enqueue prev (set_state prev THREAD_READY st)
                      else Some st);
               Some (swap_thread prev nxt (F_yield # ks) st, Switched)
             })
      })"
  unfolding thread_yield_def aged_def Let_def block_sel by (rule refl)

lemma yield_empty:
  assumes inv: "sched_inv st" and q: "ready_queue st = []"
  shows "thread_yield ks st = Some (unblock (aged (block st)), Ret 0 No_out)"
proof -
  have "sched_inv (block st)" using inv by simp
  note sel = aged_sel [OF this]
  have "ready_queue (aged (block st)) = []" using q by (simp add: sel)
  then show ?thesis by (simp add: yield_aged Let_def pick_next_empty)
qed

text \<open>A yield that does not switch puts the head of the queue back behind its equals.\<close>

lemma yield_stay:
  assumes inv: "sched_inv st" and q: "ready_queue st = n # ns"
    and p: "sched_policy st = THREAD_SCHED_PRIO"
      "prio (aged (block st)) n \<le> prio (aged (block st)) (current_thread st)"
  shows "\<exists>st'. thread_yield ks st = Some (st', Ret 0 No_out) \<and> sched_inv st' \<and>
    current_thread st' = current_thread st \<and> live st' = live st \<and>
    ready_queue st' = desc_insert (prio (aged (block st))) n ns \<and>
    prio st' = prio (aged (block st)) \<and> sched_policy st' = sched_policy st"
proof -
  let ?a = "aged (block st)"
  have b: "sched_inv (block st)" using inv by simp
  note sel = aged_sel [OF b]
  have a: "flight_inv {} (Some (current_thread ?a)) ?a" using sched_inv_aged [OF b] by (simp add: sched_inv_def)
  have qa: "ready_queue ?a = n # ns" using q by (simp add: sel)
  from flight_pick [OF a qa] obtain s1 where s1: "thread_scheduler_pick_next ?a = Some (Some n, s1)"
    "flight_inv {n} (Some (current_thread ?a)) s1" "Some (current_thread ?a) \<noteq> Some n"
    "queues s1 = (queues ?a)(ReadyQ := ns)" "live s1 = live ?a" "th_state (thr ?a n) = THREAD_READY"
    "thr s1 = (thr ?a)(n := (thr ?a n)\<lparr>entries := None, in_ready_queue := False\<rparr>)"
    "current_thread s1 = current_thread ?a" by auto
  have pol: "sched_policy s1 = THREAD_SCHED_PRIO"
    using p s1(1) by (auto simp: sel pick_next_eq [OF sched_inv_queues_ok [OF sched_inv_aged [OF b]] qa])
  have cur: "current_thread ?a = current_thread st" by (simp add: sel)
  have live: "live ?a = live st" by (simp add: sel)
  have u: "flight_inv {n} (Some (current_thread ?a)) (unblock s1)"
    using s1(2) by (rule flight_cong [THEN iffD2, rotated 4]) (simp_all add: state_eqs)
  have "th_state (thr (unblock s1) n) = THREAD_READY" using s1(6,7) by (simp add: state_eqs)
  from flight_enqueue [OF u _ s1(3) this] obtain s2 where s2:
    "thread_scheduler_enqueue n (unblock s1) = Some s2" "flight_inv {} (Some (current_thread ?a)) s2"
    "queues s2 = (queues (unblock s1))(ReadyQ := ready_insert (unblock s1) n)"
    "live s2 = live (unblock s1)" "current_thread s2 = current_thread (unblock s1)"
    "thr s2 = (thr s1)(n := (thr s1 n)\<lparr>in_ready_queue := True, entries := Some ReadyQ\<rparr>)" by auto
  have p1: "prio s1 = prio ?a" using s1(7) by auto
  moreover have "prio s2 = prio s1" using s2(6) by auto
  moreover have "sched_policy s2 = sched_policy st" using s2(1) pol p(1) enqueue_frame(6) [OF s2(1)] by simp
  ultimately have pr: "prio s2 = prio ?a" "sched_policy s2 = sched_policy st" by simp_all
  from p1 have "ready_queue s2 = desc_insert (prio ?a) n ns"
    using s2(3) s1(4) pol by (simp add: ready_insert_def state_eqs)
  moreover have "thread_yield ks st = Some (s2, Ret 0 No_out)"
    using s1 s2(1) p(2) pol by (simp add: yield_aged Let_def cur)
  moreover have "sched_inv s2"
    using s2 s1(5,8) inv cur live by (simp add: sched_inv_def state_eqs)
  moreover have "current_thread s2 = current_thread st" "live s2 = live st"
    using s2 s1(5,8) cur live by (simp_all add: state_eqs)
  ultimately show ?thesis using pr by blast
qed

text \<open>Aging in numbers.\<close>

lemma aged_prio:
  assumes inv: "sched_inv st" and p: "sched_policy st = THREAD_SCHED_PRIO"
  shows "t \<in> set (ready_queue st) \<Longrightarrow> prio (aged (block st)) t = bumped (prio st t)"
    and "prio (aged (block st)) (current_thread st) = lowered (prio st (current_thread st))"
    and "t \<notin> set (ready_queue st) \<Longrightarrow> t \<noteq> current_thread st \<Longrightarrow> prio (aged (block st)) t = prio st t"
proof -
  have ok: "queues_ok (block st)" using sched_inv_queues_ok [of "block st"] inv by simp
  have c: "th_state (thr st (current_thread st)) = THREAD_RUNNING" "current_thread st \<notin> set (ready_queue st)"
    using sched_inv_current [OF inv] by auto
  then have "t \<noteq> current_thread st" if "t \<in> set (ready_queue st)" using that by auto
  then show "t \<in> set (ready_queue st) \<Longrightarrow> prio (aged (block st)) t = bumped (prio st t)"
    using p c by (simp add: aged_def age_waiting_eq [OF ok] age_running_eq)
  show "prio (aged (block st)) (current_thread st) = lowered (prio st (current_thread st))"
    "t \<notin> set (ready_queue st) \<Longrightarrow> t \<noteq> current_thread st \<Longrightarrow> prio (aged (block st)) t = prio st t"
    using p c by (simp_all add: aged_def age_waiting_eq [OF ok] age_running_eq)
qed

lemma yield_switch:
  assumes inv: "sched_inv st" and q: "ready_queue st = n # ns"
    and p: "sched_policy st = THREAD_SCHED_FIFO \<or>
      prio (aged (block st)) n > prio (aged (block st)) (current_thread st)"
  shows "\<exists>st'. thread_yield ks st = Some (st', Switched) \<and> sched_inv st' \<and>
    current_thread st' = n \<and> live st' = live st \<and> n \<noteq> current_thread st \<and>
    saved_ctx (thr st' (current_thread st)) = F_yield # ks \<and>
    ready_queue st' = (if sched_policy st = THREAD_SCHED_FIFO then ns @ [current_thread st]
       else desc_insert (prio (aged (block st))) (current_thread st) ns) \<and>
    prio st' = prio (aged (block st))"
proof -
  let ?a = "aged (block st)" and ?p = "current_thread st"
  have b: "sched_inv (block st)" using inv by simp
  note sel = aged_sel [OF b]
  have a: "flight_inv {} (Some (current_thread ?a)) ?a" using sched_inv_aged [OF b] by (simp add: sched_inv_def)
  have qa: "ready_queue ?a = n # ns" using q by (simp add: sel)
  have cur: "current_thread ?a = ?p" and live: "live ?a = live st" and pol: "sched_policy ?a = sched_policy st"
    by (simp_all add: sel)
  from flight_pick [OF a qa] obtain s1 where s1: "thread_scheduler_pick_next ?a = Some (Some n, s1)"
    "flight_inv {n} (Some ?p) s1" "?p \<noteq> n"
    "queues s1 = (queues ?a)(ReadyQ := ns)" "live s1 = live st"
    "thr s1 = (thr ?a)(n := (thr ?a n)\<lparr>entries := None, in_ready_queue := False\<rparr>)"
    "current_thread s1 = ?p" by (auto simp: cur live)
  have pol1: "sched_policy s1 = sched_policy st"
    using pol s1(1) by (auto simp: pick_next_eq [OF sched_inv_queues_ok [OF sched_inv_aged [OF b]] qa])
  have pl: "?p \<in> live s1" using inv s1(5) by (simp add: sched_inv_def)
  have run: "th_state (thr s1 ?p) = THREAD_RUNNING"
    using flight_wf [OF s1(2) pl] s1(3) by (simp add: thread_wf_def)
  have r: "flight_inv {?p, n} None (set_state ?p THREAD_READY s1)"
    using flight_retire [OF s1(2) pl] s1(3) by (intro flight_set_state) auto
  have rs: "th_state (thr (set_state ?p THREAD_READY s1) ?p) = THREAD_READY" by (simp add: upd_thread_def)
  from flight_enqueue [OF r _ _ rs] obtain s2 where s2:
    "thread_scheduler_enqueue ?p (set_state ?p THREAD_READY s1) = Some s2" "flight_inv ({?p, n} - {?p}) None s2"
    "queues s2 = (queues s1)(ReadyQ := ready_insert (set_state ?p THREAD_READY s1) ?p)" "live s2 = live s1"
    "prio s2 = prio (set_state ?p THREAD_READY s1)"
    by (auto simp: upd_thread_def fun_eq_iff)
  have pa: "prio (set_state ?p THREAD_READY s1) = prio ?a" using s1(6) by (auto simp: upd_thread_def)
  then have "ready_queue s2 = (if sched_policy st = THREAD_SCHED_FIFO then ns @ [?p] else desc_insert (prio ?a) ?p ns)"
    using s2(3) s1(4) pol1
    by (cases "sched_policy st") (simp_all add: ready_insert_def, simp_all add: upd_thread_def)
  moreover have "prio (swap_thread ?p n (F_yield # ks) s2) = prio ?a" using s2(5) pa by (auto simp: swap_thread_eq fun_eq_iff)
  moreover have "flight_inv {} (Some n) (swap_thread ?p n (F_yield # ks) s2)"
    using flight_run [of "{n}" s2 n] s2(2) s1(3) by (simp add: insert_Diff_if)
  moreover have "n \<in> live s2" using s2(2) s1(3) by (auto simp: flight_inv_def)
  moreover have "thread_yield ks st = Some (swap_thread ?p n (F_yield # ks) s2, Switched)"
  proof -
    have "\<not> (sched_policy s1 = THREAD_SCHED_PRIO \<and> prio s1 n \<le> prio s1 ?p)"
      using p pol1 s1(3,6) by auto
    then show ?thesis using s1(1,3) s2(1) run by (simp add: yield_aged Let_def)
  qed
  moreover have "saved_ctx (thr (swap_thread ?p n (F_yield # ks) s2) ?p) = F_yield # ks" by (simp add: state_eqs)
  ultimately show ?thesis using s2(4) s1(3,5) by (auto simp: sched_inv_def)
qed

text \<open>A yield is always defined and keeps the state well-formed.\<close>

text \<open>A thread that keeps yielding is switched out after at most \<open>k\<close> more yields when its priority is
  at most \<open>2 k\<close>.\<close>

lemma prio_yield_progress:
  "sched_inv st \<Longrightarrow> sched_policy st = THREAD_SCHED_PRIO \<Longrightarrow> ready_queue st \<noteq> [] \<Longrightarrow>
   prio st (current_thread st) \<le> 2 * int k \<Longrightarrow>
   \<exists>j s st'. j \<le> k \<and> repeat_op j (thread_yield ks) st = Some s \<and> current_thread s = current_thread st \<and>
     thread_yield ks s = Some (st', Switched)"
proof (induction k arbitrary: st)
  case (0 st)
  then obtain n ns where q: "ready_queue st = n # ns" by (cases "ready_queue st") auto
  have "0 \<le> prio st n" using sched_inv_prio_range [OF 0(1) sched_inv_ready_live [OF 0(1)], of n] q
    by (simp add: THREAD_MIN_PRIORITY_def)
  then have "prio (aged (block st)) n > prio (aged (block st)) (current_thread st)"
    using 0(4) q by (simp add: aged_prio [OF 0(1,2)] bumped_def lowered_def)
  with yield_switch [OF 0(1) q, of ks] show ?case by (intro exI [of _ 0]) auto
next
  case (Suc k st)
  then obtain n ns where q: "ready_queue st = n # ns" by (cases "ready_queue st") auto
  show ?case
  proof (cases "prio (aged (block st)) n > prio (aged (block st)) (current_thread st)")
    case True
    with yield_switch [OF Suc(2) q, of ks] show ?thesis by (intro exI [of _ 0]) auto
  next
    case False
    with yield_stay [OF Suc(2) q Suc(3), of ks] obtain s1 where s1: "thread_yield ks st = Some (s1, Ret 0 No_out)"
      "sched_inv s1" "current_thread s1 = current_thread st"
      "ready_queue s1 = desc_insert (prio (aged (block st))) n ns" "prio s1 = prio (aged (block st))"
      "sched_policy s1 = THREAD_SCHED_PRIO" using Suc(3) by auto
    have "set (ready_queue s1) \<noteq> {}" using s1(4) by simp
    then have ne: "ready_queue s1 \<noteq> []" by auto
    have "prio s1 (current_thread s1) \<le> 2 * int k"
      using fun_cong [OF s1(5), of "current_thread st"] s1(3) Suc(5) aged_prio(2) [OF Suc(2,3)] by (simp add: lowered_def)
    from Suc.IH [OF s1(2,6) ne this] obtain j s st' where "j \<le> k" "repeat_op j (thread_yield ks) s1 = Some s"
      "current_thread s = current_thread s1" "thread_yield ks s = Some (st', Switched)" by auto
    then show ?thesis using s1(1,3) by (intro exI [of _ "Suc j"]) auto
  qed
qed

lemma yield_inv:
  assumes inv: "sched_inv st"
  shows "\<exists>st' r. thread_yield ks st = Some (st', r) \<and> sched_inv st' \<and> live st' = live st \<and>
    (r = Switched \<or> r = Ret 0 No_out)"
proof (cases "ready_queue st")
  case Nil
  have "sched_inv (aged (block st))" using inv by (simp add: sched_inv_aged)
  moreover have "live (unblock (aged (block st))) = live st"
    using aged_sel(3) [of "block st"] inv by simp
  ultimately show ?thesis using yield_empty [OF inv Nil] by auto
next
  case (Cons n ns)
  show ?thesis
  proof (cases "sched_policy st = THREAD_SCHED_FIFO \<or>
      prio (aged (block st)) n > prio (aged (block st)) (current_thread st)")
    case True
    from yield_switch [OF inv Cons this, of ks] show ?thesis by auto
  next
    case False
    then have "sched_policy st = THREAD_SCHED_PRIO" by (cases "sched_policy st") auto
    with False yield_stay [OF inv Cons, of ks] show ?thesis by fastforce
  qed
qed

section \<open>Yielding to a chosen thread\<close>

text \<open>Taking an arbitrary thread out of the ready queue.\<close>

lemma flight_unready:
  assumes inv: "flight_inv P c st" and t: "t \<in> set (ready_queue st)"
  shows "\<exists>st'. tailq_remove ReadyQ t st = Some st' \<and>
     flight_inv (insert t P) c (upd_thread t (\<lambda>x. x\<lparr>in_ready_queue := False\<rparr>) st') \<and> t \<notin> P \<and> c \<noteq> Some t \<and>
     t \<in> live st \<and> st' = st\<lparr>thr := (thr st)(t := (thr st t)\<lparr>entries := None\<rparr>),
       queues := (queues st)(ReadyQ := remove1 t (ready_queue st)), unmasked := unmasked st \<or> preemptible st\<rparr>"
proof -
  have ok: "queues_ok st" using inv by (simp add: flight_inv_def)
  then have e: "entries (thr st t) = Some ReadyQ" using t by (simp add: queues_ok_mem)
  then have tP: "t \<notin> P" and live: "t \<in> live st" using inv by (auto simp: flight_inv_def unlinked_def)
  have wf: "thread_wf (c = Some t) (thr st t)" using inv live tP by (rule flight_wf)
  obtain s1 where s1: "tailq_remove ReadyQ t st = Some s1" using e by (simp add: tailq_remove_def)
  then have eq: "s1 = st\<lparr>thr := (thr st)(t := (thr st t)\<lparr>entries := None\<rparr>),
       queues := (queues st)(ReadyQ := remove1 t (ready_queue st)), unmasked := unmasked st \<or> preemptible st\<rparr>"
    by (simp add: tailq_remove_Some)
  let ?s = "upd_thread t (\<lambda>x. x\<lparr>in_ready_queue := False\<rparr>) s1"
  have "queues_ok ?s = queues_ok s1" by (rule queues_ok_cong) (simp_all add: upd_thread_def)
  moreover have "queues_ok s1" using ok s1 by (rule queues_ok_remove)
  moreover have "prio_ok ?s"
    using inv by (intro flight_prioI [OF inv])
      (auto simp: eq upd_thread_def flight_inv_def prio_ok_def desc_sorted_remove1)
  moreover have "unlinked (thr ?s t)" "c \<noteq> Some t"
    using wf e by (auto simp: eq upd_thread_def unlinked_def thread_wf_def split: tstate.splits)
  ultimately have "flight_inv (insert t P) c ?s" "c \<noteq> Some t"
    using inv live by (auto simp: flight_inv_def eq upd_thread_def)
  with s1 eq tP live show ?thesis by simp
qed

lemma yield_to_ready:
  assumes inv: "sched_inv st" and t: "t \<in> set (ready_queue st)"
  shows "\<exists>st'. thread_yield_to ks (Some t) st = Some (st', Switched) \<and> sched_inv st' \<and> live st' = live st \<and>
    current_thread st' = t \<and> saved_ctx (thr st' (current_thread st)) = F_yield_to # ks \<and>
    ready_queue st' = remove1 t (ready_insert st (current_thread st))"
proof -
  let ?p = "current_thread st" and ?b = "block st"
  have b: "flight_inv {} (Some ?p) ?b" and pl: "?p \<in> live ?b"
    using inv sched_inv_block(1) [of st] by (simp_all add: sched_inv_def)
  have tl: "t \<in> live st" and te: "entries (thr st t) = Some ReadyQ"
    using sched_inv_ready_live [OF inv t] t sched_inv_queues_ok [OF inv] by (simp_all add: queues_ok_mem)
  then have tp: "t \<noteq> ?p" using sched_inv_current [OF inv] by auto
  have ts: "th_state (thr st t) = THREAD_READY"
    using sched_inv_wf [OF inv tl] te by (auto simp: thread_wf_def split: tstate.splits)
  have r: "flight_inv {?p} None (set_state ?p THREAD_READY ?b)"
    using flight_retire [OF b pl] by (intro flight_set_state) auto
  have rs: "th_state (thr (set_state ?p THREAD_READY ?b) ?p) = THREAD_READY" by (simp add: upd_thread_def)
  have ri: "ready_insert (set_state ?p THREAD_READY ?b) ?p = ready_insert st ?p"
    by (auto simp: ready_insert_def upd_thread_def fun_eq_iff split: policy.splits
        intro!: arg_cong [where f = "\<lambda>k. desc_insert k ?p (ready_queue st)"])
  from flight_enqueue [OF r _ _ rs] obtain s1 where s1:
    "thread_scheduler_enqueue ?p (set_state ?p THREAD_READY ?b) = Some s1" "flight_inv {} None s1"
    "queues s1 = (queues st)(ReadyQ := ready_insert st ?p)" "live s1 = live st"
    by (auto simp: ri) (simp add: upd_thread_def)
  have "t \<in> set (ready_queue s1)" using t s1(3) by simp
  from flight_unready [OF s1(2) this] obtain s2 where s2: "tailq_remove ReadyQ t s1 = Some s2"
    "flight_inv {t} None (upd_thread t (\<lambda>x. x\<lparr>in_ready_queue := False\<rparr>) s2)"
    "queues s2 = (queues s1)(ReadyQ := remove1 t (ready_queue s1))" "live s2 = live s1" by auto
  let ?s = "swap_thread ?p t (F_yield_to # ks) (upd_thread t (\<lambda>x. x\<lparr>in_ready_queue := False\<rparr>) s2)"
  have "flight_inv {} (Some t) ?s" using flight_run [OF s2(2), of t] by simp
  moreover have "thread_yield_to ks (Some t) st = Some (?s, Switched)"
    using ts s1(1) s2(1) by (simp add: thread_yield_to_def Let_def)
  ultimately show ?thesis
    using s1(3,4) s2(3,4) tl tp by (auto simp: sched_inv_def upd_thread_def) (auto simp: state_eqs)
qed

lemma yield_to_inv:
  assumes inv: "sched_inv st" and t: "\<And>x. t = Some x \<Longrightarrow> x \<in> live st"
  shows "\<exists>st' r. thread_yield_to ks t st = Some (st', r) \<and> sched_inv st' \<and> live st' = live st"
proof (cases t)
  case None
  have "sched_inv (set_errno e st) = sched_inv st" for e
    unfolding sched_inv_def by (simp add: flight_cong [of "set_errno e st" st])
  with None inv show ?thesis by (simp add: thread_yield_to_def)
next
  case (Some x)
  show ?thesis
  proof (cases "th_state (thr st x) = THREAD_READY")
    case True
    with sched_inv_wf [OF inv t [OF Some]] have "x \<in> set (ready_queue st)"
      using sched_inv_queues_ok [OF inv] by (simp add: thread_wf_def queues_ok_mem)
    from yield_to_ready [OF inv this, of ks] Some show ?thesis by auto
  next
    case False
    with Some yield_inv [of "unblock (block st)" ks] inv show ?thesis
      by (auto simp: thread_yield_to_def Let_def)
  qed
qed

section \<open>Changing a priority\<close>

lemma clamp_priority_range: "THREAD_MIN_PRIORITY \<le> clamp_priority p \<and> clamp_priority p \<le> THREAD_MAX_PRIORITY"
  by (auto simp: clamp_priority_def Let_def THREAD_MIN_PRIORITY_def THREAD_MAX_PRIORITY_def)

lemma flight_set_prio:
  assumes "flight_inv P c st" "t \<in> P" "THREAD_MIN_PRIORITY \<le> p \<and> p \<le> THREAD_MAX_PRIORITY"
  shows "flight_inv P c (upd_thread t (\<lambda>x. x\<lparr>priority := p\<rparr>) st)"
proof -
  have "t \<notin> set (ready_queue st)" using assms(1,2) by (auto simp: flight_inv_def queues_ok_mem unlinked_def)
  then have "prio_ok (upd_thread t (\<lambda>x. x\<lparr>priority := p\<rparr>) st)"
    using assms(1) by (intro flight_prioI [OF assms(1)]) (auto simp: upd_thread_def flight_inv_def prio_ok_def)
  with assms show ?thesis
    by (auto simp: flight_inv_def upd_thread_def queues_ok_def unlinked_def)
qed

lemma sched_inv_set_prio_fifo:
  assumes inv: "sched_inv st" and pol: "sched_policy st = THREAD_SCHED_FIFO"
    and p: "THREAD_MIN_PRIORITY \<le> p" "p \<le> THREAD_MAX_PRIORITY"
  shows "sched_inv (upd_thread t (\<lambda>x. x\<lparr>priority := p\<rparr>) st)"
proof -
  have "thread_wf b (x\<lparr>priority := p\<rparr>)" if "thread_wf b x" for b x
    using that p by (cases "th_state x") (auto simp: thread_wf_def)
  with inv pol show ?thesis
    by (auto simp: sched_inv_def flight_inv_def upd_thread_def queues_ok_def prio_ok_def)
qed

lemma priority_swap:
  "(x :: thread)\<lparr>priority := p, entries := e\<rparr> = x\<lparr>entries := e, priority := p\<rparr>"
  "(x :: thread)\<lparr>priority := p, in_ready_queue := b\<rparr> = x\<lparr>in_ready_queue := b, priority := p\<rparr>"
  by (cases x; simp)+

text \<open>Under the priority policy a ready thread is moved to its new position.\<close>

lemma set_priority_ready:
  assumes inv: "sched_inv st" and pol: "sched_policy st = THREAD_SCHED_PRIO" and t: "t \<in> set (ready_queue st)"
  shows "\<exists>s1 s2. tailq_remove ReadyQ t (upd_thread t (\<lambda>x. x\<lparr>priority := clamp_priority p\<rparr>) (block st)) = Some s1 \<and>
     thread_scheduler_enqueue t (upd_thread t (\<lambda>x. x\<lparr>in_ready_queue := False\<rparr>) s1) = Some s2 \<and> sched_inv s2 \<and>
     live s2 = live st \<and> current_thread s2 = current_thread st \<and>
     ready_queue s2 = desc_insert ((prio st)(t := clamp_priority p)) t (remove1 t (ready_queue st)) \<and>
     prio s2 = (prio st)(t := clamp_priority p)"
proof -
  let ?b = "block st" and ?u = "upd_thread t (\<lambda>x. x\<lparr>priority := clamp_priority p\<rparr>)"
    and ?f = "upd_thread t (\<lambda>x. x\<lparr>in_ready_queue := False\<rparr>)"
  have b: "flight_inv {} (Some (current_thread st)) ?b"
    using inv sched_inv_block(1) [of st] by (simp add: sched_inv_def)
  from flight_unready [OF b] t obtain s1 where s1: "tailq_remove ReadyQ t ?b = Some s1"
    "flight_inv {t} (Some (current_thread st)) (?f s1)" "Some (current_thread st) \<noteq> Some t" "t \<in> live st"
    "s1 = ?b\<lparr>thr := (thr st)(t := (thr st t)\<lparr>entries := None\<rparr>),
       queues := (queues st)(ReadyQ := remove1 t (ready_queue st)), unmasked := unmasked st \<or> preemptible ?b\<rparr>"
    by auto
  have rem: "tailq_remove ReadyQ t (?u ?b) = Some (?u s1)"
    using s1(1) by (auto simp: tailq_remove_def upd_thread_def touch_queues_eq preemptible_def
        priority_swap split: if_splits)
  have "?u (?f s1) = ?f (?u s1)" by (simp add: upd_thread_def priority_swap)
  then have fl: "flight_inv {t} (Some (current_thread st)) (?f (?u s1))"
    using flight_set_prio [OF s1(2) _ clamp_priority_range, of t p] by simp
  have "th_state (thr st t) = THREAD_READY"
    using sched_inv_wf [OF inv s1(4)] t sched_inv_queues_ok [OF inv] 
    by (auto simp: thread_wf_def queues_ok_mem split: tstate.splits)
  then have "th_state (thr (?f (?u s1)) t) = THREAD_READY" by (simp add: s1(5) upd_thread_def)
  from flight_enqueue [OF fl _ s1(3) this] obtain s2 where s2: "thread_scheduler_enqueue t (?f (?u s1)) = Some s2"
    "flight_inv {} (Some (current_thread st)) s2"
    "queues s2 = (queues s1)(ReadyQ := ready_insert (?f (?u s1)) t)" "live s2 = live st"
    "current_thread s2 = current_thread st"
    "thr s2 = (thr (?f (?u s1)))(t := (thr (?f (?u s1)) t)\<lparr>in_ready_queue := True, entries := Some ReadyQ\<rparr>)"
    by (auto simp: s1(5) upd_thread_def)
  have pr: "prio (?f (?u s1)) = (prio st)(t := clamp_priority p)" by (auto simp: s1(5) upd_thread_def)
  have "prio s2 = prio (?f (?u s1))" using s2(6) by auto
  moreover have "ready_queue s2 = desc_insert ((prio st)(t := clamp_priority p)) t (remove1 t (ready_queue st))"
    using s2(3) pol pr by (simp add: ready_insert_def) (simp add: s1(5) upd_thread_def)
  ultimately show ?thesis
    using rem s2 pr inv by (auto simp: sched_inv_def)
qed

lemma set_priority_inv:
  assumes inv: "sched_inv st" and t: "\<And>x. t = Some x \<Longrightarrow> x \<in> live st"
  shows "\<exists>st' r. thread_set_priority ks t p st = Some (st', r) \<and> sched_inv st' \<and> live st' = live st"
proof (cases t)
  case None
  with inv show ?thesis by (simp add: thread_set_priority_def)
next
  case (Some x)
  let ?u = "upd_thread x (\<lambda>y. y\<lparr>priority := clamp_priority p\<rparr>) (block st)"
  have b: "sched_inv (block st)" using inv by simp
  have xl: "x \<in> live st" using t Some by simp
  show ?thesis
  proof (cases "sched_policy st = THREAD_SCHED_PRIO \<and> th_state (thr st x) = THREAD_READY")
    case True
    then have "x \<in> set (ready_queue st)"
      using sched_inv_wf [OF inv xl] sched_inv_queues_ok [OF inv] by (simp add: thread_wf_def queues_ok_mem)
    from set_priority_ready [OF inv _ this, of p] True obtain s1 s2 where s: "tailq_remove ReadyQ x ?u = Some s1"
      "thread_scheduler_enqueue x (upd_thread x (\<lambda>y. y\<lparr>in_ready_queue := False\<rparr>) s1) = Some s2" "sched_inv s2"
      "live s2 = live st" by blast
    from yield_to_inv [of "unblock s2" "Some x" ks] s(3,4) xl
    have "\<exists>st' r. thread_yield_to ks (Some x) (unblock s2) = Some (st', r) \<and> sched_inv st' \<and> live st' = live st"
      by simp
    with s Some True show ?thesis
      by (cases "x \<noteq> current_thread s2 \<and> prio s2 x > prio s2 (current_thread s2)")
        (auto simp: thread_set_priority_def Let_def upd_thread_def)
  next
    case False
    then have "sched_inv ?u"
    proof (cases "sched_policy st")
      case THREAD_SCHED_FIFO
      then show ?thesis using sched_inv_set_prio_fifo [OF b, of _ x] clamp_priority_range by simp
    next
      case THREAD_SCHED_PRIO
      with False have "x \<notin> set (ready_queue st)"
        using sched_inv_wf [OF inv xl] sched_inv_queues_ok [OF inv]
        by (auto simp: thread_wf_def queues_ok_mem split: tstate.splits)
      then show ?thesis using sched_inv_set_prio [OF b, of x] xl clamp_priority_range by simp
    qed
    with Some False show ?thesis
      by (auto simp: thread_set_priority_def Let_def upd_thread_def)
  qed
qed

end
