(* ===== verification/Thread_Gc.thy ===== *)
theory Thread_Gc
  imports Yielding
begin

text \<open>
  The zombie queue of \<open>src/thread_gc.c\<close>: terminated threads that nobody has joined yet, and the
  final clean-up that frees them.  The process ends in \<open>thread_switch_to_cleanup\<close>, after
  \<open>do_final_cleanup\<close> has run on the clean-up stack.
\<close>

section \<open>Definitions\<close>

definition zombie_init :: "sys \<Rightarrow> sys" where
  "zombie_init st =
     (if \<not> zombie_initialized st then (tailq_init ZombieQ st)\<lparr>zombie_initialized := True\<rparr> else st)"

definition thread_zombie_add :: "tid \<Rightarrow> sys \<Rightarrow> sys option" where
  "thread_zombie_add t st =
     (let st = zombie_init st;
          st = upd_thread t (\<lambda>x. x\<lparr>in_zombie_queue := True\<rparr>) st
      in tailq_insert_tail ZombieQ t st)"

definition thread_zombie_remove :: "tid \<Rightarrow> sys \<Rightarrow> sys option" where
  "thread_zombie_remove t st =
     (if \<not> in_zombie_queue (thr st t) then Some st
      else tailq_remove ZombieQ t (upd_thread t (\<lambda>x. x\<lparr>in_zombie_queue := False\<rparr>) st))"

definition tailq_next :: "qid \<Rightarrow> tid \<Rightarrow> sys \<Rightarrow> tid option" where
  "tailq_next q t st =
     (case dropWhile (\<lambda>u. u \<noteq> t) (queues st q) of _ # n # _ \<Rightarrow> Some n | _ \<Rightarrow> None)"

text \<open>\<open>free\<close> of a thread structure; the structure is no longer live.\<close>

definition free_thread :: "tid \<Rightarrow> sys \<Rightarrow> sys option" where
  "free_thread t st = c_free t (st\<lparr>live := live st - {t}\<rparr>)"

partial_function (option) free_zombies_from :: "tid option \<Rightarrow> sys \<Rightarrow> sys option" where
  "free_zombies_from t st =
     (case t of
        None \<Rightarrow> Some st
      | Some t \<Rightarrow>
          (let nxt = tailq_next ZombieQ t st
           in do {
             st \<leftarrow> tailq_remove ZombieQ t st;
             let st = (case stack_map (thr st t) of None \<Rightarrow> st | Some m \<Rightarrow> sys_munmap m st);
             st \<leftarrow> free_thread t st;
             free_zombies_from nxt st
           }))"

declare free_zombies_from.simps [code]

definition free_zombies :: "sys \<Rightarrow> sys option" where
  "free_zombies st =
     (if \<not> zombie_initialized st then Some st
      else free_zombies_from (tailq_first ZombieQ st) st)"

definition do_final_cleanup :: "sys \<Rightarrow> sys option" where
  "do_final_cleanup st = do {
     st \<leftarrow> free_zombies st;
     Some (stack_pool_free_all st)
   }"

definition thread_cleanup_register :: "sys \<Rightarrow> sys" where
  "thread_cleanup_register st =
     (if \<not> cleanup_registered st
      then st\<lparr>atexit_handlers := H_final_cleanup # atexit_handlers st, cleanup_registered := True\<rparr>
      else st)"

text \<open>\<open>do_final_cleanup\<close> runs on a context without successor (\<open>uc_link\<close> is null): when it returns, the
  process exits, which runs the exit handlers.\<close>

definition thread_switch_to_cleanup :: "sys \<Rightarrow> result" where
  "thread_switch_to_cleanup st = do {
     st \<leftarrow> do_final_cleanup st;
     Some (st, Exited)
   }"

section \<open>The zombie queue and the scheduler invariant\<close>

definition gc_ok :: "sys \<Rightarrow> bool" where
  "gc_ok st \<longleftrightarrow> (\<not> zombie_initialized st \<longrightarrow> zombie_queue st = [])"

lemma zombie_init_sel [simp]:
  "thr (zombie_init st) = thr st" "live (zombie_init st) = live st"
  "current_thread (zombie_init st) = current_thread st" "sched_policy (zombie_init st) = sched_policy st"
  "zombie_initialized (zombie_init st)"
  by (simp_all add: zombie_init_def tailq_init_def)

lemma zombie_init_queues [simp]: "gc_ok st \<Longrightarrow> queues (zombie_init st) = queues st"
  by (auto simp: zombie_init_def tailq_init_def gc_ok_def)

lemma flight_zombie_add:
  assumes inv: "flight_inv P c st" and gc: "gc_ok st"
    and t: "t \<in> P" "c \<noteq> Some t" "th_state (thr st t) = THREAD_TERMINATED"
  shows "\<exists>st'. thread_zombie_add t st = Some st' \<and> flight_inv (P - {t}) c st' \<and> gc_ok st' \<and>
    queues st' = (queues st)(ZombieQ := zombie_queue st @ [t]) \<and> live st' = live st \<and>
    current_thread st' = current_thread st \<and>
    thr st' = (thr st)(t := (thr st t)\<lparr>entries := Some ZombieQ, in_zombie_queue := True\<rparr>)"
proof -
  let ?u = "upd_thread t (\<lambda>x. x\<lparr>in_zombie_queue := True\<rparr>) (zombie_init st)"
  have u: "unlinked (thr st t)" "t \<in> live st" and ok: "queues_ok st" using inv t by (auto simp: flight_inv_def)
  then have "entries (thr ?u t) = None" by (simp add: upd_thread_def unlinked_def)
  then obtain st' where st': "thread_zombie_add t st = Some st'"
    by (auto simp: thread_zombie_add_def Let_def tailq_insert_tail_def tailq_link_def)
  then have eq: "queues st' = (queues st)(ZombieQ := zombie_queue st @ [t])" "live st' = live st"
    "current_thread st' = current_thread st" "sched_policy st' = sched_policy st" "zombie_initialized st'"
    "thr st' = (thr st)(t := (thr st t)\<lparr>entries := Some ZombieQ, in_zombie_queue := True\<rparr>)"
    using gc by (auto simp: thread_zombie_add_def Let_def tailq_insert_tail_def tailq_link_Some upd_thread_def)
  have "thread_wf (c = Some t) (thr st' t)"
    using u t by (simp add: eq thread_wf_def unlinked_def)
  moreover have "prio_ok st'"
    by (rule flight_prioI [OF inv]) (use inv in \<open>auto simp: eq flight_inv_def prio_ok_def\<close>)
  moreover have "queues_ok st'" using ok u by (auto simp: queues_ok_def eq unlinked_def)
  ultimately have "flight_inv (P - {t}) c st'"
    using inv u by (auto simp: flight_inv_def eq)
  with st' eq show ?thesis by (simp add: gc_ok_def)
qed

lemma zombie_remove_eq:
  "in_zombie_queue (thr st t) \<Longrightarrow> entries (thr st t) = Some ZombieQ \<Longrightarrow>
   thread_zombie_remove t st = Some (st\<lparr>
     thr := (thr st)(t := (thr st t)\<lparr>in_zombie_queue := False, entries := None\<rparr>),
     queues := (queues st)(ZombieQ := remove1 t (zombie_queue st)), unmasked := unmasked st \<or> preemptible st\<rparr>)"
  by (simp add: thread_zombie_remove_def tailq_remove_def state_eqs preemptible_def)

text \<open>A terminated thread leaves the zombie queue if it was there, and is then in flight.\<close>

lemma flight_zombie_remove:
  assumes inv: "flight_inv P c st" and t: "t \<in> live st" "t \<notin> P" "th_state (thr st t) = THREAD_TERMINATED"
  shows "\<exists>st'. thread_zombie_remove t st = Some st' \<and> flight_inv (insert t P) c st' \<and> live st' = live st \<and>
    queues st' = (queues st)(ZombieQ := remove1 t (zombie_queue st)) \<and>
    current_thread st' = current_thread st \<and>
    thr st' = (thr st)(t := (thr st t)\<lparr>in_zombie_queue := False, entries := None\<rparr>)"
proof -
  have wf: "thread_wf (c = Some t) (thr st t)" using flight_wf [OF inv t(1,2)] .
  have ok: "queues_ok st" using inv by (simp add: flight_inv_def)
  show ?thesis
  proof (cases "in_zombie_queue (thr st t)")
    case False
    with wf t(3) have n: "entries (thr st t) = None" by (auto simp: thread_wf_def)
    then have "t \<notin> set (zombie_queue st)" using ok by (simp add: queues_ok_mem)
    moreover have "(thr st t)\<lparr>in_zombie_queue := False, entries := None\<rparr> = thr st t" using n False by simp
    ultimately show ?thesis
      using False flight_detach [OF inv t(1) n] by (auto simp: thread_zombie_remove_def remove1_idem)
  next
    case True
    with wf have z: "entries (thr st t) = Some ZombieQ" by (simp add: thread_wf_def)
    let ?s = "st\<lparr>thr := (thr st)(t := (thr st t)\<lparr>in_zombie_queue := False, entries := None\<rparr>),
     queues := (queues st)(ZombieQ := remove1 t (zombie_queue st)), unmasked := unmasked st \<or> preemptible st\<rparr>"
    have "unlinked (thr ?s t)" using wf z t(3) by (simp add: thread_wf_def unlinked_def)
    moreover have "queues_ok ?s" using ok z by (auto simp: queues_ok_def set_remove1_eq)
    moreover have "prio_ok ?s" by (rule flight_prioI [OF inv]) (use inv in \<open>auto simp: flight_inv_def prio_ok_def\<close>)
    ultimately have "flight_inv (insert t P) c ?s" using inv t by (auto simp: flight_inv_def)
    then show ?thesis using zombie_remove_eq [OF True z] by simp
  qed
qed

text \<open>Threads enter and leave the set of live structures while they are in flight.\<close>

lemma flight_release:
  assumes "flight_inv P c st" "t \<in> P" "t \<noteq> main_thread"
  shows "flight_inv (P - {t}) c (st\<lparr>live := live st - {t}\<rparr>)"
  using assms by (auto simp: flight_inv_def queues_ok_def prio_ok_def unlinked_def)

lemma flight_adopt:
  assumes "flight_inv P c st" "unlinked (thr st t)"
  shows "flight_inv (insert t P) c (st\<lparr>live := insert t (live st)\<rparr>)"
  using assms by (auto simp: flight_inv_def queues_ok_def prio_ok_def)

section \<open>The final clean-up\<close>

definition stacks_of :: "tid set \<Rightarrow> sys \<Rightarrow> nat set" where
  "stacks_of T st = {m. \<exists>t \<in> T. stack_map (thr st t) = Some m}"

lemma stacks_of_empty [simp]: "stacks_of {} st = {}"
  by (simp add: stacks_of_def)

lemma stacks_of_insert:
  "stacks_of (insert t T) st = set_option (stack_map (thr st t)) \<union> stacks_of T st"
  by (auto simp: stacks_of_def)

lemma tailq_next_second:
  "queues st q = t # ts \<Longrightarrow> tailq_next q t st = (case ts of [] \<Rightarrow> None | u # _ \<Rightarrow> Some u)"
  by (simp add: tailq_next_def split: list.splits)

text \<open>The structures that the clean-up does not free.\<close>

definition block_part :: "sys \<Rightarrow> tid list \<times> nat list \<times> nat option" where
  "block_part st = (thread_pool st, head_ref_chunks st, head_ref_chunks_ptr st)"

text \<open>One iteration on the first zombie.\<close>

lemma free_zombies_step:
  assumes ok: "queues_ok st" and q: "zombie_queue st = t # ts" and al: "t \<in> allocated st"
  shows "\<exists>st'. free_zombies_from (Some t) st = free_zombies_from (tailq_first ZombieQ st') st' \<and>
    queues_ok st' \<and> queues st' = (queues st)(ZombieQ := ts) \<and> allocated st' = allocated st - {t} \<and>
    live st' = live st - {t} \<and> mapped st' = mapped st - set_option (stack_map (thr st t)) \<and>
    stack_pool st' = stack_pool st \<and> deferred_stacks st' = deferred_stacks st \<and>
    os_mmap st' = os_mmap st \<and> os_malloc st' = os_malloc st \<and> block_part st' = block_part st \<and>
    (\<forall>u. stack_map (thr st' u) = stack_map (thr st u))"
proof -
  have z: "entries (thr st t) = Some ZombieQ" using ok q queues_ok_mem [of st t ZombieQ] by simp
  let ?s1 = "st\<lparr>thr := (thr st)(t := (thr st t)\<lparr>entries := None\<rparr>), queues := (queues st)(ZombieQ := ts),
    unmasked := unmasked st \<or> preemptible st\<rparr>"
  have rm: "tailq_remove ZombieQ t st = Some ?s1" using z q by (simp add: tailq_remove_Some)
  have ok1: "queues_ok ?s1" using queues_ok_remove [OF ok rm] .
  let ?s2 = "case stack_map (thr st t) of None \<Rightarrow> ?s1 | Some m \<Rightarrow> sys_munmap m ?s1"
  let ?s3 = "?s2\<lparr>live := live st - {t}, allocated := allocated st - {t}\<rparr>"
  have f: "free_thread t ?s2 = Some ?s3"
    using al by (auto simp: free_thread_def c_free_def sys_munmap_def split: option.splits)
  have nx: "tailq_next ZombieQ t st = tailq_first ZombieQ ?s3"
    using tailq_next_second [OF q] by (auto simp: tailq_first_def sys_munmap_def split: option.splits list.splits)
  have sel: "thr ?s3 = thr ?s1" "queues ?s3 = queues ?s1" by (auto simp: sys_munmap_def split: option.splits)
  have "free_zombies_from (Some t) st = free_zombies_from (tailq_first ZombieQ ?s3) ?s3"
    using rm f by (subst free_zombies_from.simps) (simp add: nx)
  moreover have "queues_ok ?s3" using ok1 queues_ok_cong [of ?s3 ?s1] by (simp only: sel)
  ultimately show ?thesis
    by (intro exI [of _ ?s3]) (auto simp: sys_munmap_def block_part_def split: option.splits)
qed

lemma free_zombies_from_ok:
  assumes "queues_ok st" "set (zombie_queue st) \<subseteq> allocated st"
  shows "\<exists>st'. free_zombies_from (tailq_first ZombieQ st) st = Some st' \<and>
    queues st' = (queues st)(ZombieQ := []) \<and> allocated st' = allocated st - set (zombie_queue st) \<and>
    live st' = live st - set (zombie_queue st) \<and> mapped st' = mapped st - stacks_of (set (zombie_queue st)) st \<and>
    stack_pool st' = stack_pool st \<and> deferred_stacks st' = deferred_stacks st \<and> queues_ok st' \<and>
    os_mmap st' = os_mmap st \<and> os_malloc st' = os_malloc st \<and> block_part st' = block_part st"
  using assms
proof (induction "zombie_queue st" arbitrary: st)
  case Nil
  then show ?case by (subst free_zombies_from.simps) (auto simp: tailq_first_def fun_upd_idem split: list.splits)
next
  case (Cons t ts)
  have q: "zombie_queue st = t # ts" using Cons by simp
  have "t \<in> allocated st" using Cons.prems(2) q by auto
  from free_zombies_step [OF Cons.prems(1) q this] obtain s1 where s1:
    "free_zombies_from (Some t) st = free_zombies_from (tailq_first ZombieQ s1) s1"
    "queues_ok s1" "queues s1 = (queues st)(ZombieQ := ts)" "allocated s1 = allocated st - {t}"
    "live s1 = live st - {t}" "mapped s1 = mapped st - set_option (stack_map (thr st t))"
    "stack_pool s1 = stack_pool st" "deferred_stacks s1 = deferred_stacks st"
    "os_mmap s1 = os_mmap st" "os_malloc s1 = os_malloc st" "block_part s1 = block_part st"
    "\<forall>u. stack_map (thr s1 u) = stack_map (thr st u)" by blast
  have d: "t \<notin> set ts" using queues_ok_distinct [OF Cons.prems(1), of ZombieQ] q by simp
  have so: "stacks_of T s1 = stacks_of T st" for T by (simp add: stacks_of_def s1(12))
  have "set (zombie_queue s1) \<subseteq> allocated s1" using s1(3,4) Cons.prems(2) q d by auto
  from Cons.hyps(1) [of s1, OF _ s1(2) this] s1(3) obtain s2 where s2:
    "free_zombies_from (tailq_first ZombieQ s1) s1 = Some s2" "queues s2 = (queues st)(ZombieQ := [])"
    "allocated s2 = allocated s1 - set ts" "live s2 = live s1 - set ts" "mapped s2 = mapped s1 - stacks_of (set ts) s1"
    "stack_pool s2 = stack_pool s1" "deferred_stacks s2 = deferred_stacks s1" "queues_ok s2"
    "os_mmap s2 = os_mmap s1" "os_malloc s2 = os_malloc s1" "block_part s2 = block_part s1" by auto
  have "tailq_first ZombieQ st = Some t" using q by (simp add: tailq_first_def)
  then show ?case using s1 s2 q so by (auto simp: stacks_of_insert)
qed

lemma free_zombies_ok:
  assumes "queues_ok st" "gc_ok st" "set (zombie_queue st) \<subseteq> allocated st"
  shows "\<exists>st'. free_zombies st = Some st' \<and>
    queues st' = (queues st)(ZombieQ := []) \<and> allocated st' = allocated st - set (zombie_queue st) \<and>
    live st' = live st - set (zombie_queue st) \<and> mapped st' = mapped st - stacks_of (set (zombie_queue st)) st \<and>
    stack_pool st' = stack_pool st \<and> deferred_stacks st' = deferred_stacks st \<and> queues_ok st' \<and>
    os_mmap st' = os_mmap st \<and> os_malloc st' = os_malloc st \<and> block_part st' = block_part st"
proof (cases "zombie_initialized st")
  case True
  then show ?thesis using free_zombies_from_ok [OF assms(1,3)] by (simp add: free_zombies_def)
next
  case False
  then have "zombie_queue st = []" using assms(2) by (simp add: gc_ok_def)
  moreover from this have "(queues st)(ZombieQ := []) = queues st" by (simp add: fun_upd_idem)
  ultimately show ?thesis using False assms(1) by (simp add: free_zombies_def)
qed

end
