(* ===== verification/Preemption.thy ===== *)
theory Preemption
  imports Thread_State
begin

text \<open>
  Timer preemption and the set-up of stack overflow detection (\<open>src/preemption.c\<close>).  The mask
  operations themselves are in \<open>Thread_State\<close>; the two signal handlers run thread operations
  and are in \<open>Signal_Handlers\<close>.
\<close>

definition init_prem :: "int \<Rightarrow> sys \<Rightarrow> sys \<times> int" where
  "init_prem us st =
     (let st = st\<lparr>handler_vtalrm := True\<rparr>;
          st = preem_mask_init st;
          st = st\<lparr>timer_us := Some us\<rparr>
      in (st, 0))"

definition init_stack_overflow_detection :: "sys \<Rightarrow> sys" where
  "init_stack_overflow_detection st =
     (if overflow_detection_initialized st then st
      else if \<not> os_sigaltstack st then st
      else st\<lparr>handler_segv := True, overflow_detection_initialized := True\<rparr>)"

text \<open>After \<open>init_prem\<close> the mask operations block and unblock exactly the timer signal; before it,
  with the static mask still empty, they do nothing.  They do not nest: one unblock undoes any
  number of blocks.\<close>

lemma preem_block_blocks: "SIGVTALRM \<in> sigmask (preem_block (fst (init_prem us st)))"
  by (simp add: init_prem_def preem_block_def preem_mask_init_def)

lemma preem_unblock_unblocks: "SIGVTALRM \<notin> sigmask (preem_unblock (fst (init_prem us st)))"
  by (simp add: init_prem_def preem_unblock_def preem_mask_init_def)

lemma preem_segv: "SIGSEGV \<notin> sigvtalrm_mask st \<Longrightarrow>
    SIGSEGV \<in> sigmask (preem_block st) \<longleftrightarrow> SIGSEGV \<in> sigmask st"
  "SIGSEGV \<notin> sigvtalrm_mask st \<Longrightarrow>
    SIGSEGV \<in> sigmask (preem_unblock st) \<longleftrightarrow> SIGSEGV \<in> sigmask st"
  by (auto simp: preem_block_def preem_unblock_def)

lemma preem_before_init:
  "sigvtalrm_mask st = {} \<Longrightarrow> preem_block st = st" "sigvtalrm_mask st = {} \<Longrightarrow> preem_unblock st = st"
  by (simp_all add: preem_block_def preem_unblock_def)

lemma preem_not_nested:
  "preem_unblock (preem_block (preem_block st)) = preem_unblock st"
  by (simp add: preem_block_def preem_unblock_def Un_Diff)

lemma init_overflow_idem:
  "init_stack_overflow_detection (init_stack_overflow_detection st) = init_stack_overflow_detection st"
  by (simp add: init_stack_overflow_detection_def)

end
