(* ===== verification/Thread_Core.thy ===== *)
theory Thread_Core
  imports Thread_Gc Preemption
begin

text \<open>
  Thread creation, termination and joining (\<open>src/thread.c\<close>).
\<close>

section \<open>Deferred stacks\<close>

definition MAX_POOLED_THREADS :: nat where "MAX_POOLED_THREADS = 50000"
definition HEAD_REF_CHUNK_SIZE :: nat where "HEAD_REF_CHUNK_SIZE = 1024"
definition MAX_DEFERRED_STACKS :: nat where "MAX_DEFERRED_STACKS = 16384"

fun reclaim_deferred_stacks_batch :: "nat \<Rightarrow> sys \<Rightarrow> sys" where
  "reclaim_deferred_stacks_batch budget st =
     (if deferred_stacks st \<noteq> [] \<and> budget > 0 then
        (let e = last (deferred_stacks st);
             st = st\<lparr>deferred_stacks := butlast (deferred_stacks st)\<rparr>
         in reclaim_deferred_stacks_batch (budget - 1) (stack_pool_push e st))
      else st)"

declare reclaim_deferred_stacks_batch.simps [simp del]

definition reclaim_deferred_stacks_all :: "sys \<Rightarrow> sys" where
  "reclaim_deferred_stacks_all st = reclaim_deferred_stacks_batch MAX_DEFERRED_STACKS st"

text \<open>The stack entry that the code builds from the fields of a thread whose \<open>stack_map\<close> is set.\<close>

definition entry_of :: "nat \<Rightarrow> thread \<Rightarrow> stack_entry" where
  "entry_of m x = \<lparr>se_map = m, se_stack = (case stack_base x of None \<Rightarrow> 0 | Some b \<Rightarrow> b),
                   se_valgrind_id = valgrind_stack_id x\<rparr>"

definition defer_stack_reclaim :: "tid \<Rightarrow> sys \<Rightarrow> sys" where
  "defer_stack_reclaim t st =
     (case stack_map (thr st t) of
        None \<Rightarrow> st
      | Some m \<Rightarrow>
          if length (deferred_stacks st) < MAX_DEFERRED_STACKS then
            upd_thread t (\<lambda>x. x\<lparr>stack_map := None, stack_base := None\<rparr>)
              (st\<lparr>deferred_stacks := deferred_stacks st @ [entry_of m (thr st t)]\<rparr>)
          else st)"

section \<open>Thread structures and join-chain slots\<close>

fun free_blocks :: "nat list \<Rightarrow> sys \<Rightarrow> sys option" where
  "free_blocks [] st = Some st"
| "free_blocks (a # as) st = do { st \<leftarrow> c_free a st; free_blocks as st }"

definition thread_pool_free_all :: "sys \<Rightarrow> sys option" where
  "thread_pool_free_all st = do {
     let st = reclaim_deferred_stacks_all st;
     st \<leftarrow> free_blocks (thread_pool st) st;
     let st = st\<lparr>thread_pool := []\<rparr>;
     st \<leftarrow> free_blocks (head_ref_chunks st) st;
     st \<leftarrow> (case head_ref_chunks_ptr st of None \<Rightarrow> Some st | Some p \<Rightarrow> c_free p st);
     Some (st\<lparr>head_ref_chunks_ptr := None, head_ref_chunks := [], head_ref_chunks_cap := 0,
              head_ref_active_chunk := None, head_ref_active_index := 0\<rparr>)
   }"

definition thread_alloc :: "sys \<Rightarrow> tid option \<times> sys" where
  "thread_alloc st =
     (if thread_pool st \<noteq> [] then
        (Some (last (thread_pool st)), st\<lparr>thread_pool := butlast (thread_pool st)\<rparr>)
      else c_malloc st)"

definition thread_free :: "tid \<Rightarrow> sys \<Rightarrow> sys option" where
  "thread_free t st =
     (if length (thread_pool st) < MAX_POOLED_THREADS
      then Some (st\<lparr>thread_pool := thread_pool st @ [t], live := live st - {t}\<rparr>)
      else free_thread t st)"

text \<open>The chunk allocation of \<open>thread_head_ref_alloc\<close>: \<open>None\<close> in the pair when memory runs out.\<close>

definition head_ref_grow :: "sys \<Rightarrow> (nat option \<times> sys) option" where
  "head_ref_grow st =
     (case c_malloc st of
        (None, st) \<Rightarrow> Some (None, st)
      | (Some new_chunk, st) \<Rightarrow> do {
          (ok, st) \<leftarrow>
            (if length (head_ref_chunks st) \<ge> head_ref_chunks_cap st then
               (let new_cap = (if head_ref_chunks_cap st = 0 then 64 else head_ref_chunks_cap st * 2)
                in do {
                  (new_chunks, st) \<leftarrow> c_realloc (head_ref_chunks_ptr st) st;
                  (case new_chunks of
                     None \<Rightarrow> do { st \<leftarrow> c_free new_chunk st; Some (False, st) }
                   | Some p \<Rightarrow> Some (True, st\<lparr>head_ref_chunks_ptr := Some p, head_ref_chunks_cap := new_cap\<rparr>))
                })
             else Some (True, st));
          if ok then
            Some (Some new_chunk, st\<lparr>head_ref_chunks := head_ref_chunks st @ [new_chunk],
                                     head_ref_active_chunk := Some new_chunk, head_ref_active_index := 0\<rparr>)
          else Some (None, st)
        })"

text \<open>Taking the next slot of the active chunk.\<close>

definition take_slot :: "tid \<Rightarrow> nat \<Rightarrow> sys \<Rightarrow> cell option \<times> sys" where
  "take_slot owner c st =
     (let ref = (c, head_ref_active_index st)
      in (Some ref, st\<lparr>head_ref_active_index := head_ref_active_index st + 1,
                       head_cells := (head_cells st)(ref := owner)\<rparr>))"

definition thread_head_ref_alloc :: "tid \<Rightarrow> sys \<Rightarrow> (cell option \<times> sys) option" where
  "thread_head_ref_alloc owner st = do {
     (chunk, st) \<leftarrow>
       (case head_ref_active_chunk st of
          None \<Rightarrow> head_ref_grow st
        | Some c \<Rightarrow> if head_ref_active_index st \<ge> HEAD_REF_CHUNK_SIZE then head_ref_grow st
                   else Some (Some c, st));
     (case chunk of
        None \<Rightarrow> Some (None, st)
      | Some c \<Rightarrow> Some (take_slot owner c st))
   }"

definition thread_obj_release :: "tid \<Rightarrow> sys \<Rightarrow> sys option" where
  "thread_obj_release t st =
     (if t = main_thread then Some st
      else thread_free t (upd_thread t (\<lambda>x. x\<lparr>head_joiner := None\<rparr>) st))"

section \<open>Creation\<close>

definition thread_self :: "sys \<Rightarrow> tid" where
  "thread_self st = current_thread st"

text \<open>The first call initialises the library; \<open>False\<close> when that fails.\<close>

definition first_create :: "sys \<Rightarrow> (bool \<times> sys) option" where
  "first_create st =
     (if scheduler_initialized st then Some (True, st)
      else do {
        let st = thread_cleanup_register st;
        let st = st\<lparr>atexit_handlers := H_pool_free_all # atexit_handlers st\<rparr>;
        (ref, st) \<leftarrow> thread_head_ref_alloc main_thread st;
        let st = upd_thread main_thread (\<lambda>x. x\<lparr>head_joiner := ref\<rparr>) st;
        if ref = None then Some (False, set_errno ENOMEM st)
        else do {
          let st = (if enable_preemption st then fst (init_prem 100 st) else st);
          let st = (if enable_overflow_detection st then init_stack_overflow_detection st else st);
          Some (True, st\<lparr>scheduler_initialized := True\<rparr>)
        }
      })"

text \<open>The fields of a new thread, before its join-chain slot is allocated.\<close>

definition init_thread :: "nat \<Rightarrow> val \<Rightarrow> stack_entry \<Rightarrow> thread \<Rightarrow> thread" where
  "init_thread func funcarg e x =
     x\<lparr>start_fun := func, arg := funcarg, th_state := THREAD_READY, retval := 0,
       stack_map := Some (se_map e), stack_base := Some (se_stack e), valgrind_stack_id := se_valgrind_id e,
       priority := THREAD_DEFAULT_PRIORITY, in_ready_queue := False, in_zombie_queue := False,
       joined_by := None, waiting_for := None, stack_overflow := False,
       pending_signals := 0, blocked_signals := 0, waited_signals := 0, waiting_for_signal := False\<rparr>"

text \<open>The rest of \<open>thread_create\<close> once a stack has been found.  Incrementing \<open>next_thread_id\<close> beyond
  \<open>INT_MAX\<close> is undefined.\<close>

definition create_with_stack :: "tid \<Rightarrow> nat \<Rightarrow> val \<Rightarrow> stack_entry \<Rightarrow> sys \<Rightarrow> result" where
  "create_with_stack newth func funcarg e st = do {
     let st = upd_thread newth (init_thread func funcarg e) st;
     (ref, st) \<leftarrow> thread_head_ref_alloc newth st;
     let st = upd_thread newth (\<lambda>x. x\<lparr>head_joiner := ref\<rparr>) st;
     if ref = None then do {
       st \<leftarrow> thread_obj_release newth st;
       let st = stack_pool_push e st;
       Some (set_errno ENOMEM st, Ret (-1) No_out)
     }
     else if next_thread_id st \<ge> INT_MAX then None
     else do {
       let st = upd_thread newth (\<lambda>x. x\<lparr>saved_ctx := [F_entry]\<rparr>) (st\<lparr>live := insert newth (live st)\<rparr>);
       let st = block st;
       let st = upd_thread newth (\<lambda>x. x\<lparr>th_id := next_thread_id st\<rparr>) st;
       let st = st\<lparr>next_thread_id := next_thread_id st + 1\<rparr>;
       st \<leftarrow> thread_scheduler_enqueue newth st;
       Some (unblock st, Ret 0 (Out_thread newth))
     }
   }"

text \<open>The loop that waits for a stack; \<open>alloc_retries\<close> counts the yields.\<close>

function create_loop :: "frame list \<Rightarrow> tid \<Rightarrow> nat \<Rightarrow> val \<Rightarrow> nat \<Rightarrow> sys \<Rightarrow> result" where
  "create_loop ks newth func funcarg alloc_retries st =
     (case stack_pool_alloc st of
        (Some e, st) \<Rightarrow> create_with_stack newth func funcarg e st
      | (None, st) \<Rightarrow>
          (let st = reclaim_deferred_stacks_all st
           in if thread_ready_queue_empty st \<or> alloc_retries \<ge> 4096 then do {
                st \<leftarrow> thread_obj_release newth st;
                Some (set_errno ENOMEM st, Ret (-1) No_out)
              }
              else do {
                (st, r) \<leftarrow> thread_yield (F_create newth func funcarg (alloc_retries + 1) # ks) st;
                (case r of
                   Ret _ _ \<Rightarrow> create_loop ks newth func funcarg (alloc_retries + 1) st
                 | _ \<Rightarrow> Some (st, r))
              }))"
  by pat_completeness auto
termination
  by (relation "measure (\<lambda>(_, _, _, _, n, _). 4097 - n)") auto

declare create_loop.simps [simp del]

definition thread_create :: "frame list \<Rightarrow> bool \<Rightarrow> nat option \<Rightarrow> val \<Rightarrow> sys \<Rightarrow> result" where
  "thread_create ks newthread func funcarg st =
     (case func of
        None \<Rightarrow> Some (set_errno EINVAL st, Ret (-1) No_out)
      | Some func \<Rightarrow>
          if \<not> newthread then Some (set_errno EINVAL st, Ret (-1) No_out)
          else do {
            (ok, st) \<leftarrow> first_create st;
            if \<not> ok then Some (st, Ret (-1) No_out)
            else (case thread_alloc st of
                    (None, st) \<Rightarrow> Some (set_errno ENOMEM st, Ret (-1) No_out)
                  | (Some newth, st) \<Rightarrow>
                      (let st = (if stack_pool_empty st \<and> deferred_stacks st \<noteq> []
                                 then reclaim_deferred_stacks_all st else st)
                       in create_loop ks newth func funcarg 0 st))
          })"

section \<open>Termination of a thread\<close>

text \<open>The dying thread defers its stack and becomes a zombie unless a joiner is waiting.\<close>

definition exit_bury :: "tid \<Rightarrow> sys \<Rightarrow> sys option" where
  "exit_bury dying st =
     (if dying \<noteq> main_thread then
        (let st = defer_stack_reclaim dying st
         in case joined_by (thr st dying) of
              None \<Rightarrow> thread_zombie_add dying st
            | Some j \<Rightarrow> if th_state (thr st j) \<noteq> THREAD_BLOCKED
                       then thread_zombie_add dying st else Some st)
      else Some st)"

definition exit_wake :: "tid \<Rightarrow> sys \<Rightarrow> sys option" where
  "exit_wake dying st =
     (case joined_by (thr st dying) of
        None \<Rightarrow> Some st
      | Some joiner \<Rightarrow> thread_scheduler_enqueue joiner (set_state joiner THREAD_READY st))"

definition exit_switch :: "sys \<Rightarrow> result" where
  "exit_switch st = do {
     (nxt, st) \<leftarrow> thread_scheduler_pick_next st;
     (case nxt of
        None \<Rightarrow> thread_switch_to_cleanup st
      | Some nxt \<Rightarrow> Some (set_state nxt THREAD_RUNNING (st\<lparr>current_thread := nxt\<rparr>), Switched))
   }"

definition thread_exit :: "val \<Rightarrow> sys \<Rightarrow> result" where
  "thread_exit rv st =
     (let st = block st;
          dying = current_thread st;
          st = upd_thread dying (\<lambda>x. x\<lparr>retval := rv, th_state := THREAD_TERMINATED\<rparr>) st
      in do {
        st \<leftarrow> exit_bury dying st;
        st \<leftarrow> exit_wake dying st;
        exit_switch st
      })"

definition thread_entry :: "sys \<Rightarrow> sys" where
  "thread_entry st = unblock st"

section \<open>Joining\<close>

text \<open>The joiner takes over the structure and the stack of the terminated thread.\<close>

definition reap :: "tid \<Rightarrow> sys \<Rightarrow> sys option" where
  "reap target st =
     (if target \<noteq> main_thread then do {
        st \<leftarrow> thread_zombie_remove target st;
        let st = (case stack_map (thr st target) of
                    None \<Rightarrow> st | Some m \<Rightarrow> stack_pool_push (entry_of m (thr st target)) st);
        thread_obj_release target st
      }
      else Some st)"

definition out_retval :: "bool \<Rightarrow> tid \<Rightarrow> sys \<Rightarrow> out" where
  "out_retval want target st = (if want then Out_val (retval (thr st target)) else No_out)"

text \<open>The end of \<open>thread_join\<close>, reached when the target has terminated.\<close>

definition join_finish :: "tid \<Rightarrow> bool \<Rightarrow> sys \<Rightarrow> result" where
  "join_finish target want st =
     (let st = unblock st;
          res = out_retval want target st;
          overflowed = stack_overflow (thr st target);
          st = block st
      in do {
        st \<leftarrow> reap target st;
        let st = unblock st;
        if overflowed then Some (set_errno EFAULT st, Ret (-1) res) else Some (st, Ret 0 res)
      })"

text \<open>The statements after \<open>swap_thread\<close>.\<close>

definition join_resume :: "tid \<Rightarrow> bool \<Rightarrow> sys \<Rightarrow> result" where
  "join_resume target want st =
     join_finish target want
       (upd_thread (current_thread st) (\<lambda>x. x\<lparr>waiting_for := None, th_state := THREAD_RUNNING\<rparr>) st)"

text \<open>The caller becomes the joiner of the target and the new head of its join chain.\<close>

definition join_register :: "tid \<Rightarrow> tid \<Rightarrow> cell \<Rightarrow> bool \<Rightarrow> sys \<Rightarrow> sys" where
  "join_register cur target tref external_head st =
     (let st = upd_thread target (\<lambda>x. x\<lparr>joined_by := Some cur\<rparr>) st
      in if external_head
         then (upd_thread cur (\<lambda>x. x\<lparr>head_joiner := Some tref\<rparr>) st)
                \<lparr>head_cells := (head_cells st)(tref := cur)\<rparr>
         else upd_thread cur (\<lambda>x. x\<lparr>head_joiner := Some tref\<rparr>) st)"

text \<open>The caller blocks; with an empty ready queue it gives up.\<close>

definition join_block :: "frame list \<Rightarrow> tid \<Rightarrow> bool \<Rightarrow> sys \<Rightarrow> result" where
  "join_block ks target want st =
     (let cur = current_thread st;
          st = upd_thread cur (\<lambda>x. x\<lparr>th_state := THREAD_BLOCKED, waiting_for := Some target\<rparr>) st
      in do {
        (nxt, st) \<leftarrow> thread_scheduler_pick_next st;
        (case nxt of
           None \<Rightarrow>
             (let st = upd_thread cur (\<lambda>x. x\<lparr>th_state := THREAD_RUNNING, waiting_for := None\<rparr>) st
              in Some (set_errno EDEADLK (unblock st), Ret EDEADLK No_out))
         | Some nxt \<Rightarrow> Some (swap_thread cur nxt (F_join target want # ks) st, Switched))
      })"

definition thread_join :: "frame list \<Rightarrow> tid option \<Rightarrow> bool \<Rightarrow> sys \<Rightarrow> result" where
  "thread_join ks thread_handle want st =
     (case thread_handle of
        None \<Rightarrow> Some (set_errno EINVAL st, Ret (-1) No_out)
      | Some target \<Rightarrow>
          if joined_by (thr st target) \<noteq> None then Some (set_errno EINVAL st, Ret (-1) No_out)
          else if target = current_thread st then Some (set_errno EDEADLK st, Ret EDEADLK No_out)
          else
            (let st = block st; cur = current_thread st
             in if th_state (thr st target) = THREAD_TERMINATED then do {
                  let res = out_retval want target st;
                  st \<leftarrow> reap target st;
                  Some (unblock st, Ret 0 res)
                }
                else
                  (case (head_joiner (thr st target), head_joiner (thr st cur)) of
                     (Some tref, Some cref) \<Rightarrow>
                       (let target_is_head = (head_cells st tref = target);
                            same_chain = (cref = tref)
                        in if target_is_head \<and> same_chain
                           then Some (set_errno EDEADLK (unblock st), Ret EDEADLK No_out)
                           else
                             (let st = join_register cur target tref (target_is_head \<and> \<not> same_chain) st
                              in if th_state (thr st target) \<noteq> THREAD_TERMINATED
                                 then join_block ks target want st
                                 else join_finish target want st))
                   | _ \<Rightarrow> Some (set_errno EINVAL (unblock st), Ret (-1) No_out))))"

section \<open>Process exit\<close>

text \<open>The handlers that \<open>exit\<close> runs, the one registered last first.\<close>

fun run_exit_handlers :: "exit_handler list \<Rightarrow> sys \<Rightarrow> sys option" where
  "run_exit_handlers [] st = Some st"
| "run_exit_handlers (h # hs) st = do {
     st \<leftarrow> (case h of H_final_cleanup \<Rightarrow> do_final_cleanup st | H_pool_free_all \<Rightarrow> thread_pool_free_all st);
     run_exit_handlers hs st
   }"

end
