(* ===== verification/Thread_Memory.thy ===== *)
theory Thread_Memory
  imports Thread_Core
begin

text \<open>
  Ownership of memory in \<open>src/thread.c\<close>: every mapped stack is in the pool, deferred, or owned by
  exactly one live thread; every thread structure is live, pooled, or held by a suspended
  \<open>thread_create\<close>; every join-chain slot is handed out once.
\<close>

section \<open>Frame lemmas\<close>

lemma push_sel [simp]:
  "thr (stack_pool_push e st) = thr st" "live (stack_pool_push e st) = live st"
  "queues (stack_pool_push e st) = queues st" "current_thread (stack_pool_push e st) = current_thread st"
  "sched_policy (stack_pool_push e st) = sched_policy st"
  "deferred_stacks (stack_pool_push e st) = deferred_stacks st"
  "thread_pool (stack_pool_push e st) = thread_pool st" "allocated (stack_pool_push e st) = allocated st"
  "head_cells (stack_pool_push e st) = head_cells st" "head_ref_chunks (stack_pool_push e st) = head_ref_chunks st"
  "head_ref_chunks_ptr (stack_pool_push e st) = head_ref_chunks_ptr st"
  "head_ref_active_chunk (stack_pool_push e st) = head_ref_active_chunk st"
  "head_ref_active_index (stack_pool_push e st) = head_ref_active_index st"
  "zombie_initialized (stack_pool_push e st) = zombie_initialized st"
  "next_thread_id (stack_pool_push e st) = next_thread_id st"
  "os_malloc (stack_pool_push e st) = os_malloc st"
  "sigmask (stack_pool_push e st) = sigmask st" "unmasked (stack_pool_push e st) = unmasked st"
  "m_locked (stack_pool_push e st) = m_locked st" "s_count (stack_pool_push e st) = s_count st"
  by (simp_all add: stack_pool_push_def sys_munmap_def valgrind_deregister_def)

lemma push_deferred:
  "stack_pool_push e (st\<lparr>deferred_stacks := d\<rparr>) = (stack_pool_push e st)\<lparr>deferred_stacks := d\<rparr>"
  by (simp add: stack_pool_push_def sys_munmap_def valgrind_deregister_def)

lemma fold_push_sel [simp]:
  "thr (fold stack_pool_push es st) = thr st" "live (fold stack_pool_push es st) = live st"
  "queues (fold stack_pool_push es st) = queues st"
  "current_thread (fold stack_pool_push es st) = current_thread st"
  "sched_policy (fold stack_pool_push es st) = sched_policy st"
  "deferred_stacks (fold stack_pool_push es st) = deferred_stacks st"
  "thread_pool (fold stack_pool_push es st) = thread_pool st"
  "allocated (fold stack_pool_push es st) = allocated st"
  "head_cells (fold stack_pool_push es st) = head_cells st"
  "head_ref_chunks (fold stack_pool_push es st) = head_ref_chunks st"
  "head_ref_chunks_ptr (fold stack_pool_push es st) = head_ref_chunks_ptr st"
  "head_ref_active_chunk (fold stack_pool_push es st) = head_ref_active_chunk st"
  "head_ref_active_index (fold stack_pool_push es st) = head_ref_active_index st"
  "zombie_initialized (fold stack_pool_push es st) = zombie_initialized st"
  "next_thread_id (fold stack_pool_push es st) = next_thread_id st"
  "os_malloc (fold stack_pool_push es st) = os_malloc st"
  "sigmask (fold stack_pool_push es st) = sigmask st" "unmasked (fold stack_pool_push es st) = unmasked st"
  "m_locked (fold stack_pool_push es st) = m_locked st" "s_count (fold stack_pool_push es st) = s_count st"
  by (induction es arbitrary: st) simp_all

text \<open>A batch that is large enough empties the array, latest entry first.\<close>

lemma reclaim_batch_eq:
  "length (deferred_stacks st) \<le> n \<Longrightarrow>
   reclaim_deferred_stacks_batch n st = fold stack_pool_push (rev (deferred_stacks st)) (st\<lparr>deferred_stacks := []\<rparr>)"
proof (induction n arbitrary: st)
  case 0
  then show ?case by (subst reclaim_deferred_stacks_batch.simps) simp
next
  case (Suc n)
  show ?case
  proof (cases "deferred_stacks st" rule: rev_cases)
    case Nil
    then show ?thesis by (subst reclaim_deferred_stacks_batch.simps) simp
  next
    case (snoc es e)
    then have "reclaim_deferred_stacks_batch (Suc n) st =
        reclaim_deferred_stacks_batch n (stack_pool_push e (st\<lparr>deferred_stacks := es\<rparr>))"
      by (subst reclaim_deferred_stacks_batch.simps) simp
    also have "\<dots> = fold stack_pool_push (rev es) (stack_pool_push e (st\<lparr>deferred_stacks := []\<rparr>))"
      using Suc snoc by (simp add: push_deferred)
    finally show ?thesis using snoc by simp
  qed
qed

section \<open>Stacks\<close>

definition deferred_maps :: "sys \<Rightarrow> nat set" where
  "deferred_maps st = se_map ` set (deferred_stacks st)"

definition stack_owned :: "sys \<Rightarrow> tid \<Rightarrow> nat \<Rightarrow> bool" where
  "stack_owned st t m \<longleftrightarrow> entry_ok (entry_of m (thr st t)) \<and> m \<notin> deferred_maps st \<and>
     (\<forall>u \<in> live st. u \<noteq> t \<longrightarrow> stack_map (thr st u) \<noteq> Some m)"

definition stacks_ok :: "sys \<Rightarrow> bool" where
  "stacks_ok st \<longleftrightarrow>
     pool_ok st \<and> length (deferred_stacks st) \<le> MAX_DEFERRED_STACKS \<and>
     distinct (map se_map (deferred_stacks st)) \<and> (\<forall>e \<in> set (deferred_stacks st). entry_ok e) \<and>
     (\<forall>t \<in> live st. \<forall>m. stack_map (thr st t) = Some m \<longrightarrow> stack_owned st t m) \<and>
     in_use st = deferred_maps st \<union> stacks_of (live st) st \<and>
     main_thread \<in> live st \<and> stack_map (thr st main_thread) = None"

lemma stacks_ok_owned: "stacks_ok st \<Longrightarrow> t \<in> live st \<Longrightarrow> stack_map (thr st t) = Some m \<Longrightarrow> stack_owned st t m"
  by (simp add: stacks_ok_def)

text \<open>The part of the state that \<open>stacks_ok\<close> reads.\<close>

definition stack_part :: "thread \<Rightarrow> nat option \<times> nat option \<times> nat" where
  "stack_part x = (stack_map x, stack_base x, valgrind_stack_id x)"

lemma pool_ok_cong:
  assumes "os_mmap st' = os_mmap st" "os_malloc st' = os_malloc st" "stack_pool st' = stack_pool st"
    "mapped st' = mapped st"
  shows "pool_ok st' = pool_ok st" "in_use st' = in_use st"
  using assms by (simp_all add: pool_ok_def os_sane_def in_use_def pool_maps_def)

lemma stacks_ok_cong:
  assumes "os_mmap st' = os_mmap st" "os_malloc st' = os_malloc st" "stack_pool st' = stack_pool st"
    "mapped st' = mapped st" "deferred_stacks st' = deferred_stacks st" "live st' = live st"
    and "\<And>t. stack_part (thr st' t) = stack_part (thr st t)"
  shows "stacks_ok st' = stacks_ok st"
proof -
  have e: "stack_map (thr st' t) = stack_map (thr st t)" "entry_of m (thr st' t) = entry_of m (thr st t)" for t m
    using assms(7) [of t] by (auto simp: stack_part_def entry_of_def)
  have "deferred_maps st' = deferred_maps st" "stacks_of (live st') st' = stacks_of (live st) st"
    using assms(5,6) by (simp_all add: deferred_maps_def stacks_of_def e)
  with assms(5,6) show ?thesis
    unfolding stacks_ok_def stack_owned_def pool_ok_cong [OF assms(1-4)] by (simp add: e)
qed

lemma reclaim_all_ok:
  assumes "stacks_ok st"
  defines "st' \<equiv> reclaim_deferred_stacks_all st"
  shows "stacks_ok st' \<and> deferred_stacks st' = [] \<and> in_use st' = stacks_of (live st) st"
proof -
  let ?d = "deferred_stacks st" and ?s0 = "st\<lparr>deferred_stacks := []\<rparr>"
  have eq: "st' = fold stack_pool_push (rev ?d) ?s0"
    using assms by (simp add: st'_def reclaim_deferred_stacks_all_def reclaim_batch_eq stacks_ok_def)
  have p0: "pool_ok ?s0" "in_use ?s0 = in_use st"
    using assms(1) pool_ok_cong [of ?s0 st] by (simp_all add: stacks_ok_def)
  have iu: "in_use st = deferred_maps st \<union> stacks_of (live st) st" using assms(1) by (simp add: stacks_ok_def)
  have "pool_ok st' \<and> in_use st' = in_use st - se_map ` set ?d"
    using sp.push_list [of ?s0 "rev ?d"] assms(1) p0 iu unfolding eq
    by (simp add: stacks_ok_def deferred_maps_def rev_map [symmetric])
  moreover have "deferred_maps st \<inter> stacks_of (live st) st = {}"
    using stacks_ok_owned [OF assms(1)] by (auto simp: stack_owned_def stacks_of_def)
  ultimately have "pool_ok st'" "in_use st' = stacks_of (live st) st"
    using iu by (auto simp: deferred_maps_def)
  moreover have "stacks_of (live st) st' = stacks_of (live st) st" by (simp add: stacks_of_def eq)
  moreover have "stack_owned st' t m" if "t \<in> live st" "stack_map (thr st t) = Some m" for t m
    using stacks_ok_owned [OF assms(1) that] by (simp add: stack_owned_def eq deferred_maps_def)
  ultimately show ?thesis using assms(1) by (simp add: stacks_ok_def eq deferred_maps_def)
qed

lemma defer_ok:
  assumes ok: "stacks_ok st" and t: "t \<in> live st"
  shows "stacks_ok (defer_stack_reclaim t st)"
proof (cases "stack_map (thr st t)")
  case None
  then show ?thesis using ok by (simp add: defer_stack_reclaim_def)
next
  case (Some m)
  show ?thesis
  proof (cases "length (deferred_stacks st) < MAX_DEFERRED_STACKS")
    case False
    with Some ok show ?thesis by (simp add: defer_stack_reclaim_def)
  next
    case True
    let ?s = "defer_stack_reclaim t st"
    have eq: "?s = upd_thread t (\<lambda>x. x\<lparr>stack_map := None, stack_base := None\<rparr>)
        (st\<lparr>deferred_stacks := deferred_stacks st @ [entry_of m (thr st t)]\<rparr>)"
      using True Some by (simp add: defer_stack_reclaim_def)
    have [simp]: "se_map (entry_of m x) = m" for x by (simp add: entry_of_def)
    have m: "entry_ok (entry_of m (thr st t))" "m \<notin> deferred_maps st"
      "\<forall>u \<in> live st. u \<noteq> t \<longrightarrow> stack_map (thr st u) \<noteq> Some m"
      using stacks_ok_owned [OF ok t Some] by (auto simp: stack_owned_def)
    have dm: "deferred_maps ?s = insert m (deferred_maps st)" by (simp add: eq upd_thread_def deferred_maps_def)
    have lv: "live ?s = live st" by (simp add: eq upd_thread_def)
    have so: "stacks_of (live st) ?s = stacks_of (live st) st - {m}"
      using m(3) Some by (auto simp: eq upd_thread_def stacks_of_def)
    have iu: "in_use ?s = in_use st" and po: "pool_ok ?s = pool_ok st"
      using pool_ok_cong [of ?s st] by (simp_all add: eq upd_thread_def)
    have "in_use st = deferred_maps st \<union> stacks_of (live st) st" "m \<in> stacks_of (live st) st"
      using ok t Some by (auto simp: stacks_ok_def stacks_of_def)
    then have own: "in_use ?s = deferred_maps ?s \<union> stacks_of (live ?s) ?s"
      unfolding iu dm lv so by blast
    have thr: "stack_map (thr ?s u) = (if u = t then None else stack_map (thr st u))"
      "u \<noteq> t \<Longrightarrow> entry_of n (thr ?s u) = entry_of n (thr st u)" for u n
      by (simp_all add: eq upd_thread_def)
    have "stack_owned ?s u n" if "u \<in> live st" "stack_map (thr ?s u) = Some n" for u n
    proof -
      have u: "u \<noteq> t" "stack_map (thr st u) = Some n" using that(2) by (auto simp: thr split: if_splits)
      then have "stack_owned st u n" "n \<noteq> m" using stacks_ok_owned [OF ok that(1)] m(3) that(1) by auto
      then show ?thesis using u unfolding stack_owned_def lv dm by (simp add: thr)
    qed
    moreover have "deferred_stacks ?s = deferred_stacks st @ [entry_of m (thr st t)]"
      by (simp add: eq upd_thread_def)
    ultimately show ?thesis
      using own ok m(1,2) True po thr(1) [of main_thread] unfolding stacks_ok_def lv by (auto simp: deferred_maps_def)
  qed
qed

text \<open>A new thread takes a stack; a reaped one gives it back.\<close>

lemma alloc_sel:
  assumes "stack_pool_alloc st = (r, st')"
  shows "thr st' = thr st" "live st' = live st" "queues st' = queues st"
    "current_thread st' = current_thread st" "sched_policy st' = sched_policy st"
    "deferred_stacks st' = deferred_stacks st" "thread_pool st' = thread_pool st"
    "allocated st' = allocated st" "head_cells st' = head_cells st" "head_ref_chunks st' = head_ref_chunks st"
    "head_ref_chunks_ptr st' = head_ref_chunks_ptr st" "head_ref_active_chunk st' = head_ref_active_chunk st"
    "head_ref_active_index st' = head_ref_active_index st" "zombie_initialized st' = zombie_initialized st"
    "next_thread_id st' = next_thread_id st" "os_malloc st' = os_malloc st" "os_mmap st' = os_mmap st"
    "m_locked st' = m_locked st" "s_count st' = s_count st" "initialised st' = initialised st"
  using assms
  by (auto simp: stack_pool_alloc_def sys_mmap_def sys_mprotect_none_def sys_munmap_def Let_def
      split: if_splits option.splits prod.splits)

lemma stacks_of_cong:
  "(\<And>t. t \<in> T \<Longrightarrow> stack_map (thr st' t) = stack_map (thr st t)) \<Longrightarrow> stacks_of T st' = stacks_of T st"
  by (auto simp: stacks_of_def)

lemma stacks_adopt:
  assumes ok: "stacks_ok st" and al: "stack_pool_alloc st = (Some e, s1)" and t: "t \<notin> live st"
    and env: "os_mmap s2 = os_mmap s1" "os_malloc s2 = os_malloc s1" "stack_pool s2 = stack_pool s1"
      "mapped s2 = mapped s1" "deferred_stacks s2 = deferred_stacks st" "live s2 = insert t (live st)"
    and new: "stack_map (thr s2 t) = Some (se_map e)" "entry_of (se_map e) (thr s2 t) = e"
    and old: "\<And>u. u \<in> live st \<Longrightarrow> stack_part (thr s2 u) = stack_part (thr st u)"
  shows "stacks_ok s2"
proof -
  have p: "pool_ok s1" "entry_ok e" "se_map e \<notin> in_use st" "in_use s1 = insert (se_map e) (in_use st)"
    using pool_ok_alloc [OF _ al] ok by (auto simp: stacks_ok_def)
  have iu: "in_use st = deferred_maps st \<union> stacks_of (live st) st" using ok by (simp add: stacks_ok_def)
  have o: "stack_map (thr s2 u) = stack_map (thr st u)" "entry_of m (thr s2 u) = entry_of m (thr st u)"
    if "u \<in> live st" for u m using old [OF that] by (auto simp: stack_part_def entry_of_def)
  have dm: "deferred_maps s2 = deferred_maps st" by (simp add: deferred_maps_def env)
  have so: "stacks_of (live s2) s2 = insert (se_map e) (stacks_of (live st) st)"
    using stacks_of_cong [of "live st" s2 st, OF o(1)] by (simp add: env stacks_of_insert new)
  have fresh: "stack_map (thr st u) \<noteq> Some (se_map e)" if "u \<in> live st" for u
    using that p(3) iu by (auto simp: stacks_of_def)
  have "stack_owned s2 u m" if "u \<in> live s2" "stack_map (thr s2 u) = Some m" for u m
  proof (cases "u = t")
    case True
    then show ?thesis using that(2) new p(2,3) iu fresh o(1) unfolding stack_owned_def env dm by auto
  next
    case False
    then have u: "u \<in> live st" "stack_map (thr st u) = Some m" using that o(1) [of u] env by auto
    with stacks_ok_owned [OF ok u] new fresh t show ?thesis
      unfolding stack_owned_def env dm by (auto simp: o)
  qed
  moreover have "pool_ok s2" "in_use s2 = in_use s1" using pool_ok_cong [of s2 s1] env p(1) by simp_all
  moreover have "stack_map (thr s2 main_thread) = None" using ok o(1) [of main_thread] by (simp add: stacks_ok_def)
  ultimately show ?thesis using ok p(4) iu so dm unfolding stacks_ok_def env by auto
qed

definition give_back_stack :: "tid \<Rightarrow> sys \<Rightarrow> sys" where
  "give_back_stack t st = (case stack_map (thr st t) of
     None \<Rightarrow> st | Some m \<Rightarrow> stack_pool_push (entry_of m (thr st t)) st)"

lemma stacks_release:
  assumes ok: "stacks_ok st" and t: "t \<in> live st" "t \<noteq> main_thread"
    and env: "os_mmap s2 = os_mmap s1" "os_malloc s2 = os_malloc s1" "stack_pool s2 = stack_pool s1"
      "mapped s2 = mapped s1" "deferred_stacks s2 = deferred_stacks st" "live s2 = live st - {t}"
    and s1: "s1 = give_back_stack t st"
    and old: "\<And>u. u \<in> live st \<Longrightarrow> u \<noteq> t \<Longrightarrow> stack_part (thr s2 u) = stack_part (thr st u)"
  shows "stacks_ok s2"
proof -
  have iu: "in_use st = deferred_maps st \<union> stacks_of (live st) st" using ok by (simp add: stacks_ok_def)
  have o: "stack_map (thr s2 u) = stack_map (thr st u)" "entry_of m (thr s2 u) = entry_of m (thr st u)"
    if "u \<in> live s2" for u m using that old [of u] env by (auto simp: stack_part_def entry_of_def)
  have dm: "deferred_maps s2 = deferred_maps st" by (simp add: deferred_maps_def env)
  have so: "stacks_of (live s2) s2 = stacks_of (live st - {t}) st"
    using stacks_of_cong [of "live s2" s2 st, OF o(1)] by (simp add: env)
  have "pool_ok s1 \<and> in_use s1 = in_use st - set_option (stack_map (thr st t))"
  proof (cases "stack_map (thr st t)")
    case None
    then show ?thesis using ok by (simp add: s1 give_back_stack_def stacks_ok_def)
  next
    case (Some m)
    have "se_map (entry_of m (thr st t)) = m" by (simp add: entry_of_def)
    moreover have "m \<in> in_use st" using iu Some t by (auto simp: stacks_of_def)
    ultimately show ?thesis
      using pool_ok_push [of st "entry_of m (thr st t)"] stacks_ok_owned [OF ok t(1) Some] ok Some
      by (simp add: s1 give_back_stack_def stack_owned_def stacks_ok_def)
  qed
  moreover have "stacks_of (live st - {t}) st = stacks_of (live st) st - set_option (stack_map (thr st t))"
    "deferred_maps st \<inter> set_option (stack_map (thr st t)) = {}"
    using stacks_ok_owned [OF ok t(1)] by (auto simp: stacks_of_def stack_owned_def)
  ultimately have "pool_ok s1" "in_use s1 = deferred_maps st \<union> stacks_of (live st - {t}) st"
    using iu by blast+
  moreover have "pool_ok s2 = pool_ok s1" "in_use s2 = in_use s1" using pool_ok_cong [of s2 s1] env by simp_all
  moreover have "stack_owned s2 u m" if "u \<in> live s2" "stack_map (thr s2 u) = Some m" for u m
    using that stacks_ok_owned [OF ok, of u m] o env(6) unfolding stack_owned_def dm by auto
  moreover have "main_thread \<in> live s2" "stack_map (thr s2 main_thread) = None"
    using ok t(2) o(1) [of main_thread] by (auto simp: stacks_ok_def env)
  ultimately show ?thesis using ok so dm unfolding stacks_ok_def by (simp add: env(5))
qed

section \<open>Thread structures and slots\<close>

definition blocks :: "sys \<Rightarrow> nat list" where
  "blocks st = thread_pool st @ head_ref_chunks st @ (case head_ref_chunks_ptr st of None \<Rightarrow> [] | Some p \<Rightarrow> [p])"

text \<open>\<open>R\<close> are the structures held by calls of \<open>thread_create\<close> that have not finished.\<close>

definition structs_ok :: "tid set \<Rightarrow> sys \<Rightarrow> bool" where
  "structs_ok R st \<longleftrightarrow>
     os_sane st \<and> distinct (blocks st) \<and> set (blocks st) \<subseteq> allocated st \<and>
     main_thread \<notin> allocated st \<and> live st \<subseteq> insert main_thread (allocated st) \<and> R \<subseteq> allocated st \<and>
     live st \<inter> set (blocks st) = {} \<and> R \<inter> set (blocks st) = {} \<and> live st \<inter> R = {} \<and>
     allocated st \<subseteq> set (blocks st) \<union> live st \<union> R \<and>
     length (thread_pool st) \<le> MAX_POOLED_THREADS"

text \<open>A slot that has been handed out lies in a chunk, below the free part of the active one.\<close>

definition slot_used :: "sys \<Rightarrow> cell \<Rightarrow> bool" where
  "slot_used st r \<longleftrightarrow> fst r \<in> set (head_ref_chunks st) \<and>
     (head_ref_active_chunk st = Some (fst r) \<longrightarrow> snd r < head_ref_active_index st)"

definition slots_ok :: "sys \<Rightarrow> bool" where
  "slots_ok st \<longleftrightarrow> (\<forall>c. head_ref_active_chunk st = Some c \<longrightarrow> c \<in> set (head_ref_chunks st)) \<and>
     (\<forall>t \<in> live st. \<forall>r. head_joiner (thr st t) = Some r \<longrightarrow> slot_used st r)"

lemma main_not_blocks: "structs_ok R st \<Longrightarrow> main_thread \<notin> set (blocks st)"
  by (auto simp: structs_ok_def)

lemma c_malloc_fresh:
  assumes "os_sane st" "c_malloc st = (Some a, st')"
  shows "a \<notin> allocated st" "a \<noteq> 0" "st' = st\<lparr>malloc_calls := Suc (malloc_calls st), allocated := insert a (allocated st)\<rparr>"
  using assms by (auto simp: c_malloc_def Let_def os_sane_def split: option.splits)

lemma c_malloc_none:
  "c_malloc st = (None, st') \<Longrightarrow> st' = st\<lparr>malloc_calls := Suc (malloc_calls st)\<rparr>"
  by (auto simp: c_malloc_def Let_def split: option.splits)

lemma thread_alloc_ok:
  assumes ok: "structs_ok R st" and al: "thread_alloc st = (Some t, st')"
  shows "structs_ok (insert t R) st'" "t \<notin> live st" "t \<notin> R" "t \<noteq> main_thread"
proof -
  have "structs_ok (insert t R) st' \<and> t \<notin> live st \<and> t \<notin> R \<and> t \<noteq> main_thread"
  proof (cases "thread_pool st" rule: rev_cases)
    case Nil
    then have m: "c_malloc st = (Some t, st')" using al by (simp add: thread_alloc_def)
    have "os_sane st" using ok by (simp add: structs_ok_def)
    from c_malloc_fresh [OF this m] ok show ?thesis
      by (auto simp: structs_ok_def blocks_def main_thread_def os_sane_def)
  next
    case (snoc ts u)
    then have [simp]: "u = t" and st': "st' = st\<lparr>thread_pool := ts\<rparr>" using al by (auto simp: thread_alloc_def)
    have "os_sane st' = os_sane st" by (simp add: st' os_sane_def)
    moreover have "set (blocks st) = insert t (set (blocks st'))" "t \<notin> set (blocks st')" "distinct (blocks st')"
      using ok snoc by (auto simp: blocks_def st' structs_ok_def)
    ultimately show ?thesis using ok snoc by (auto simp: structs_ok_def st')
  qed
  then show "structs_ok (insert t R) st'" "t \<notin> live st" "t \<notin> R" "t \<noteq> main_thread" by auto
qed

lemma thread_alloc_none: "thread_alloc st = (None, st') \<Longrightarrow> st' = st\<lparr>malloc_calls := Suc (malloc_calls st)\<rparr>"
  by (auto simp: thread_alloc_def c_malloc_none split: if_splits)

lemma thread_alloc_sel:
  assumes "thread_alloc st = (r, st')"
  shows "thr st' = thr st" "live st' = live st" "queues st' = queues st" "sched_policy st' = sched_policy st"
    "current_thread st' = current_thread st" "deferred_stacks st' = deferred_stacks st"
    "stack_pool st' = stack_pool st" "mapped st' = mapped st" "os_mmap st' = os_mmap st"
    "os_malloc st' = os_malloc st" "head_ref_chunks st' = head_ref_chunks st"
    "head_ref_active_chunk st' = head_ref_active_chunk st" "head_cells st' = head_cells st"
    "head_ref_active_index st' = head_ref_active_index st" "next_thread_id st' = next_thread_id st"
    "zombie_initialized st' = zombie_initialized st" "m_locked st' = m_locked st" "s_count st' = s_count st"
  using assms by (auto simp: thread_alloc_def c_malloc_def Let_def split: if_splits option.splits)

lemma thread_free_ok:
  assumes ok: "structs_ok R st" and t: "t \<in> live st \<union> R" "t \<noteq> main_thread"
  shows "\<exists>st'. thread_free t st = Some st' \<and> structs_ok (R - {t}) st' \<and> live st' = live st - {t} \<and>
    (st' = st\<lparr>thread_pool := thread_pool st @ [t], live := live st - {t}\<rparr> \<or>
     st' = st\<lparr>allocated := allocated st - {t}, live := live st - {t}\<rparr>)"
proof -
  have a: "t \<in> allocated st" "t \<notin> set (blocks st)" using ok t by (auto simp: structs_ok_def)
  show ?thesis
  proof (cases "length (thread_pool st) < MAX_POOLED_THREADS")
    case True
    let ?s = "st\<lparr>thread_pool := thread_pool st @ [t], live := live st - {t}\<rparr>"
    have "set (blocks ?s) = insert t (set (blocks st))" "distinct (blocks ?s)"
      using ok a by (auto simp: blocks_def structs_ok_def)
    then have "structs_ok (R - {t}) ?s" using ok a True by (auto simp: structs_ok_def os_sane_def)
    then show ?thesis using True by (auto simp: thread_free_def)
  next
    case False
    let ?s = "st\<lparr>allocated := allocated st - {t}, live := live st - {t}\<rparr>"
    have "blocks ?s = blocks st" by (simp add: blocks_def)
    then have "structs_ok (R - {t}) ?s" using ok a by (auto simp: structs_ok_def os_sane_def)
    moreover have "thread_free t st = Some ?s" using False a by (simp add: thread_free_def free_thread_def c_free_def)
    ultimately show ?thesis by auto
  qed
qed

text \<open>The slot allocator.\<close>

definition same_but_slots :: "sys \<Rightarrow> sys \<Rightarrow> bool" where
  "same_but_slots st st' \<longleftrightarrow>
     thr st' = thr st \<and> live st' = live st \<and> queues st' = queues st \<and> current_thread st' = current_thread st \<and>
     sched_policy st' = sched_policy st \<and> deferred_stacks st' = deferred_stacks st \<and>
     stack_pool st' = stack_pool st \<and> mapped st' = mapped st \<and> os_mmap st' = os_mmap st \<and>
     os_malloc st' = os_malloc st \<and> thread_pool st' = thread_pool st \<and> next_thread_id st' = next_thread_id st \<and>
     zombie_initialized st' = zombie_initialized st \<and> m_locked st' = m_locked st \<and> s_count st' = s_count st"

lemma head_ref_grow_ok:
  assumes ok: "structs_ok R st"
  shows "\<exists>c st'. head_ref_grow st = Some (c, st') \<and> structs_ok R st' \<and> same_but_slots st st' \<and>
    head_cells st' = head_cells st \<and>
    (case c of
       None \<Rightarrow> head_ref_chunks st' = head_ref_chunks st \<and> head_ref_active_chunk st' = head_ref_active_chunk st \<and>
         head_ref_active_index st' = head_ref_active_index st
     | Some c \<Rightarrow> c \<notin> set (head_ref_chunks st) \<and> head_ref_chunks st' = head_ref_chunks st @ [c] \<and>
         head_ref_active_chunk st' = Some c \<and> head_ref_active_index st' = 0)"
proof (cases "c_malloc st")
  case (Pair r s1)
  have sane: "os_sane st" using ok by (simp add: structs_ok_def)
  show ?thesis
  proof (cases r)
    case None
    with Pair c_malloc_none [of st s1] ok show ?thesis
      by (auto simp: head_ref_grow_def same_but_slots_def structs_ok_def blocks_def os_sane_def)
  next
    case (Some c)
    with Pair have m: "c_malloc st = (Some c, s1)" by simp
    note f = c_malloc_fresh [OF sane m]
    have c: "c \<notin> set (blocks st)" "c \<notin> live st" "c \<notin> R" "c \<noteq> main_thread"
      using ok f(1,2) by (auto simp: structs_ok_def main_thread_def)
    show ?thesis
    proof (cases "length (head_ref_chunks st) \<ge> head_ref_chunks_cap st")
      case False
      with m f(3) c ok show ?thesis
        by (auto simp: head_ref_grow_def same_but_slots_def structs_ok_def blocks_def os_sane_def)
    next
      case True
      let ?rest = "allocated s1 - set_option (head_ref_chunks_ptr st)"
      have sub: "set_option (head_ref_chunks_ptr st) \<subseteq> allocated s1"
        using ok f(3) by (auto simp: structs_ok_def blocks_def)
      show ?thesis
      proof (cases "os_malloc st (Suc (malloc_calls st)) ?rest")
        case None
        with m f(3) sub True ok f(1) show ?thesis
          by (auto simp: head_ref_grow_def c_realloc_def c_free_def Let_def same_but_slots_def structs_ok_def
              blocks_def os_sane_def)
      next
        case (Some p)
        then have p: "p \<noteq> 0" "p \<notin> ?rest" using sane unfolding os_sane_def by blast+
        have "p \<notin> set (thread_pool st @ head_ref_chunks st)" "p \<noteq> c" "p \<notin> live st" "p \<notin> R"
          using ok p f c by (auto simp: structs_ok_def blocks_def main_thread_def split: option.splits)
        with m f(3) sub True ok Some c p show ?thesis
          by (auto simp: head_ref_grow_def c_realloc_def Let_def same_but_slots_def structs_ok_def
              blocks_def os_sane_def main_thread_def split: option.splits)
      qed
    qed
  qed
qed

lemma head_ref_alloc_cases:
  "thread_head_ref_alloc owner st =
     (if head_ref_active_chunk st = None \<or> head_ref_active_index st \<ge> HEAD_REF_CHUNK_SIZE
      then do { (c, st) \<leftarrow> head_ref_grow st;
                (case c of None \<Rightarrow> Some (None, st) | Some c \<Rightarrow> Some (take_slot owner c st)) }
      else Some (take_slot owner (the (head_ref_active_chunk st)) st))"
  by (cases "head_ref_active_chunk st") (auto simp: thread_head_ref_alloc_def)

lemma take_slot_ok:
  assumes ok: "structs_ok R st" and c: "head_ref_active_chunk st = Some c" "c \<in> set (head_ref_chunks st)"
    and sl: "\<And>t r. t \<in> live st \<Longrightarrow> head_joiner (thr st t) = Some r \<Longrightarrow> slot_used st r"
    and r: "take_slot owner c st = (Some ref, st')"
  shows "structs_ok R st' \<and> slots_ok st' \<and> same_but_slots st st' \<and> head_cells st' = (head_cells st)(ref := owner) \<and>
    slot_used st' ref \<and> (\<forall>t \<in> live st. head_joiner (thr st t) \<noteq> Some ref)"
proof -
  have st': "st' = st\<lparr>head_ref_active_index := head_ref_active_index st + 1, head_cells := (head_cells st)(ref := owner)\<rparr>"
    and ref: "ref = (c, head_ref_active_index st)" using r by (auto simp: take_slot_def Let_def)
  have "structs_ok R st'" using ok by (simp add: st' structs_ok_def blocks_def os_sane_def)
  moreover have "slot_used st' r" if "slot_used st r" for r
    using that by (auto simp: slot_used_def st')
  then have "slots_ok st'" using sl c by (auto simp: slots_ok_def st')
  moreover have "head_joiner (thr st t) \<noteq> Some ref" if "t \<in> live st" for t
    using sl [OF that] c(1) by (fastforce simp: slot_used_def ref)
  ultimately show ?thesis using c by (auto simp: same_but_slots_def slot_used_def st' ref)
qed

lemma same_but_slots_trans: "same_but_slots a b \<Longrightarrow> same_but_slots b c \<Longrightarrow> same_but_slots a c"
  by (simp add: same_but_slots_def)

lemma head_ref_alloc_ok:
  assumes ok: "structs_ok R st" and sl: "slots_ok st"
  shows "\<exists>r st'. thread_head_ref_alloc owner st = Some (r, st') \<and> structs_ok R st' \<and> slots_ok st' \<and>
    same_but_slots st st' \<and>
    (case r of None \<Rightarrow> head_cells st' = head_cells st
     | Some ref \<Rightarrow> head_cells st' = (head_cells st)(ref := owner) \<and> slot_used st' ref \<and>
         (\<forall>t \<in> live st. head_joiner (thr st t) \<noteq> Some ref))"
proof -
  consider (grow) "head_ref_active_chunk st = None \<or> head_ref_active_index st \<ge> HEAD_REF_CHUNK_SIZE"
    | (take) c where "head_ref_active_chunk st = Some c" "\<not> head_ref_active_index st \<ge> HEAD_REF_CHUNK_SIZE"
    by fastforce
  then show ?thesis
  proof cases
    case (take c)
    obtain ref s1 where s1: "take_slot owner c st = (Some ref, s1)" by (simp add: take_slot_def Let_def)
    have "thread_head_ref_alloc owner st = Some (Some ref, s1)"
      using take s1 by (simp add: head_ref_alloc_cases)
    with take_slot_ok [OF ok take(1) _ _ s1] sl take(1) show ?thesis by (auto simp: slots_ok_def)
  next
    case grow
    from head_ref_grow_ok [OF ok] obtain c s1 where g: "head_ref_grow st = Some (c, s1)" "structs_ok R s1"
      "same_but_slots st s1" "head_cells s1 = head_cells st"
      "case c of
         None \<Rightarrow> head_ref_chunks s1 = head_ref_chunks st \<and> head_ref_active_chunk s1 = head_ref_active_chunk st \<and>
           head_ref_active_index s1 = head_ref_active_index st
       | Some c \<Rightarrow> c \<notin> set (head_ref_chunks st) \<and> head_ref_chunks s1 = head_ref_chunks st @ [c] \<and>
           head_ref_active_chunk s1 = Some c \<and> head_ref_active_index s1 = 0" by blast
    show ?thesis
    proof (cases c)
      case None
      then have "thread_head_ref_alloc owner st = Some (None, s1)" using grow g(1) by (simp add: head_ref_alloc_cases)
      moreover have "slots_ok s1" using sl g(3,5) None by (simp add: slots_ok_def slot_used_def same_but_slots_def)
      ultimately show ?thesis using g by auto
    next
      case (Some k)
      obtain ref s2 where s2: "take_slot owner k s1 = (Some ref, s2)" by (simp add: take_slot_def Let_def)
      have "thread_head_ref_alloc owner st = Some (Some ref, s2)"
        using grow g(1) Some s2 by (simp add: head_ref_alloc_cases)
      moreover have same: "thr s1 = thr st" "live s1 = live st" using g(3) by (simp_all add: same_but_slots_def)
      moreover have "slot_used s1 r" if "t \<in> live s1" "head_joiner (thr s1 t) = Some r" for t r
        using sl g(5) Some that by (cases r) (auto simp: same slots_ok_def slot_used_def)
      ultimately show ?thesis
        using take_slot_ok [OF g(2) _ _ _ s2] g(3,4,5) Some same_but_slots_trans [OF g(3)] by auto
    qed
  qed
qed

end
