(* ===== verification/Thread_Signal.thy ===== *)
theory Thread_Signal
  imports Yielding
begin

text \<open>
  The inter-thread signals of \<open>src/thread_sig.c\<close>.  The masks are 32-bit words: signal \<open>n\<close> is bit
  \<open>n - 1\<close>.  \<open>sigwait_step\<close> is one iteration of the loop of \<open>thread_sigwait\<close>, which runs again when
  the thread resumes.
\<close>

unbundle bit_operations_syntax

section \<open>Definitions\<close>

definition THREAD_SIGNAL_MIN :: int where "THREAD_SIGNAL_MIN = 1"
definition THREAD_SIGNAL_MAX :: int where "THREAD_SIGNAL_MAX = 32"

definition thread_signal_bit :: "int \<Rightarrow> 32 word" where
  "thread_signal_bit sig = push_bit (nat (sig - 1)) 1"

function pick_from :: "int \<Rightarrow> 32 word \<Rightarrow> int" where
  "pick_from sig sigset =
     (if sig \<le> THREAD_SIGNAL_MAX then
        (if sigset AND thread_signal_bit sig \<noteq> 0 then sig else pick_from (sig + 1) sigset)
      else -1)"
  by pat_completeness auto
termination
  by (relation "measure (\<lambda>(sig, _). nat (33 - sig))") (auto simp: THREAD_SIGNAL_MAX_def)

declare pick_from.simps [simp del]

definition thread_signal_pick_one :: "32 word \<Rightarrow> int" where
  "thread_signal_pick_one sigset = pick_from THREAD_SIGNAL_MIN sigset"

definition thread_signal_send :: "tid option \<Rightarrow> int \<Rightarrow> sys \<Rightarrow> result" where
  "thread_signal_send target_handle sig st =
     (case target_handle of
        None \<Rightarrow> Some (set_errno EINVAL st, Ret (-1) No_out)
      | Some target \<Rightarrow>
          if sig < THREAD_SIGNAL_MIN \<or> sig > THREAD_SIGNAL_MAX then
            Some (set_errno EINVAL st, Ret (-1) No_out)
          else
            (let b = thread_signal_bit sig;
                 st = block st;
                 st = upd_thread target (\<lambda>x. x\<lparr>pending_signals := pending_signals x OR b\<rparr>) st;
                 x = thr st target
             in do {
               st \<leftarrow> (if th_state x = THREAD_BLOCKED \<and> waiting_for_signal x \<and> waited_signals x AND b \<noteq> 0
                      then thread_scheduler_enqueue target
                             (upd_thread target (\<lambda>x. x\<lparr>waiting_for_signal := False, waited_signals := 0,
                                                      th_state := THREAD_READY\<rparr>) st)
                      else Some st);
               Some (unblock st, Ret 0 No_out)
             }))"

definition sigwait_step :: "frame list \<Rightarrow> 32 word \<Rightarrow> sys \<Rightarrow> result" where
  "sigwait_step ks sigs st =
     (let cur = current_thread st;
          available = pending_signals (thr st cur) AND sigs;
          available = available AND NOT (blocked_signals (thr st cur))
      in if available \<noteq> 0 then
           (let chosen = thread_signal_pick_one available
            in if chosen < 0 then Some (set_errno EINVAL (unblock st), Ret (-1) No_out)
               else
                 (let st = upd_thread cur
                        (\<lambda>x. x\<lparr>pending_signals := pending_signals x AND NOT (thread_signal_bit chosen)\<rparr>) st
                  in Some (unblock st, Ret 0 (Out_sig chosen))))
         else
           (let st = upd_thread cur (\<lambda>x. x\<lparr>waiting_for_signal := True, waited_signals := sigs,
                                          th_state := THREAD_BLOCKED\<rparr>) st
            in do {
              (nxt, st) \<leftarrow> thread_scheduler_pick_next st;
              (case nxt of
                 None \<Rightarrow>
                   (let st = upd_thread cur (\<lambda>x. x\<lparr>waiting_for_signal := False, waited_signals := 0,
                                                  th_state := THREAD_RUNNING\<rparr>) st
                    in Some (set_errno EDEADLK (unblock st), Ret (-1) No_out))
               | Some nxt \<Rightarrow> Some (swap_thread cur nxt (F_sigwait sigs # ks) st, Switched))
            }))"

definition thread_sigwait :: "frame list \<Rightarrow> 32 word \<Rightarrow> bool \<Rightarrow> sys \<Rightarrow> result" where
  "thread_sigwait ks sigs sig_ptr st =
     (if sigs = 0 \<or> \<not> sig_ptr then Some (set_errno EINVAL st, Ret (-1) No_out)
      else sigwait_step ks sigs (block st))"

section \<open>Signal masks\<close>

lemma bit_thread_signal_bit:
  "1 \<le> sig \<Longrightarrow> sig \<le> 32 \<Longrightarrow> bit (thread_signal_bit sig) n \<longleftrightarrow> int n = sig - 1"
  by (auto simp: thread_signal_bit_def bit_push_bit_iff bit_1_iff bit_exp_iff)

lemma and_signal_bit:
  assumes "1 \<le> sig" "sig \<le> 32"
  shows "w AND thread_signal_bit sig \<noteq> 0 \<longleftrightarrow> bit w (nat (sig - 1))"
proof -
  have "bit (w AND thread_signal_bit sig) n \<longleftrightarrow> bit w n \<and> n = nat (sig - 1)" for n
    using assms bit_thread_signal_bit [OF assms, of n] by (auto simp: bit_and_iff)
  then show ?thesis
    by (metis bit_0_eq bot_apply bot_bool_def bit_eq_iff)
qed

lemma pick_from_spec:
  assumes "1 \<le> sig"
  shows "(\<forall>n. int n \<ge> sig - 1 \<longrightarrow> n < 32 \<longrightarrow> \<not> bit w n) \<and> pick_from sig w = -1 \<or>
    sig \<le> pick_from sig w \<and> pick_from sig w \<le> 32 \<and> bit w (nat (pick_from sig w - 1)) \<and>
    (\<forall>n. sig - 1 \<le> int n \<longrightarrow> int n < pick_from sig w - 1 \<longrightarrow> \<not> bit w n)"
  using assms
proof (induction sig w rule: pick_from.induct)
  case (1 sig w)
  show ?case
  proof (cases "sig \<le> 32")
    case False
    then show ?thesis by (simp add: pick_from.simps [of sig] THREAD_SIGNAL_MAX_def)
  next
    case True
    show ?thesis
    proof (cases "bit w (nat (sig - 1))")
      case b: True
      with True 1(2) show ?thesis
        by (simp add: pick_from.simps [of sig] THREAD_SIGNAL_MAX_def and_signal_bit)
    next
      case b: False
      have eq: "pick_from sig w = pick_from (sig + 1) w"
        using True b 1(2) by (simp add: pick_from.simps [of sig] THREAD_SIGNAL_MAX_def and_signal_bit)
      have IH: "(\<forall>n. int n \<ge> sig \<longrightarrow> n < 32 \<longrightarrow> \<not> bit w n) \<and> pick_from (sig + 1) w = -1 \<or>
        sig + 1 \<le> pick_from (sig + 1) w \<and> pick_from (sig + 1) w \<le> 32 \<and> bit w (nat (pick_from (sig + 1) w - 1)) \<and>
        (\<forall>n. sig \<le> int n \<longrightarrow> int n < pick_from (sig + 1) w - 1 \<longrightarrow> \<not> bit w n)"
        using 1 True b by (simp add: THREAD_SIGNAL_MAX_def and_signal_bit)
      have low: "\<not> bit w n" if "sig - 1 \<le> int n" "\<not> sig \<le> int n" for n
      proof -
        from that have "n = nat (sig - 1)" by simp
        with b show ?thesis by simp
      qed
      from IH show ?thesis
      proof
        assume "(\<forall>n. int n \<ge> sig \<longrightarrow> n < 32 \<longrightarrow> \<not> bit w n) \<and> pick_from (sig + 1) w = -1"
        then show ?thesis unfolding eq using low by blast
      next
        assume a: "sig + 1 \<le> pick_from (sig + 1) w \<and> pick_from (sig + 1) w \<le> 32 \<and> bit w (nat (pick_from (sig + 1) w - 1)) \<and>
          (\<forall>n. sig \<le> int n \<longrightarrow> int n < pick_from (sig + 1) w - 1 \<longrightarrow> \<not> bit w n)"
        then have "sig \<le> pick_from (sig + 1) w" by simp
        with a show ?thesis unfolding eq using low by blast
      qed
    qed
  qed
qed

lemma pick_one_lowest:
  assumes "w \<noteq> 0"
  shows "1 \<le> thread_signal_pick_one w" "thread_signal_pick_one w \<le> 32"
    "bit w (nat (thread_signal_pick_one w - 1))"
    "int n < thread_signal_pick_one w - 1 \<Longrightarrow> \<not> bit w n"
proof -
  let ?s = "thread_signal_pick_one w"
  obtain m where "bit w m" using assms bit_eq_iff [of w 0] by auto
  moreover from this have "m < 32" using bit_imp_le_length by fastforce
  ultimately have "\<exists>n < 32. bit w n" by blast
  with pick_from_spec [of 1 w]
  have "1 \<le> ?s \<and> ?s \<le> 32 \<and> bit w (nat (?s - 1)) \<and>
    (\<forall>n. 0 \<le> int n \<longrightarrow> int n < ?s - 1 \<longrightarrow> \<not> bit w n)"
    by (auto simp: thread_signal_pick_one_def THREAD_SIGNAL_MIN_def)
  then show "1 \<le> ?s" "?s \<le> 32" "bit w (nat (?s - 1))" "int n < ?s - 1 \<Longrightarrow> \<not> bit w n" by auto
qed

lemma pick_one_empty: "thread_signal_pick_one 0 = -1"
  using pick_from_spec [of 1 0] by (simp add: thread_signal_pick_one_def THREAD_SIGNAL_MIN_def)

lemma bit_clear_signal:
  "1 \<le> sig \<Longrightarrow> sig \<le> 32 \<Longrightarrow> n < 32 \<Longrightarrow>
   bit (w AND NOT (thread_signal_bit sig)) n \<longleftrightarrow> bit w n \<and> int n \<noteq> sig - 1"
  by (simp add: bit_and_iff bit_not_iff bit_thread_signal_bit)

section \<open>Waiting threads\<close>

text \<open>A thread that waits for signals is blocked outside every queue and none of the signals it
  waits for is pending: no wake-up is lost.\<close>

definition sig_ok :: "thread \<Rightarrow> bool" where
  "sig_ok x \<longleftrightarrow> blocked_signals x = 0 \<and>
     (waiting_for_signal x \<longrightarrow> th_state x = THREAD_BLOCKED \<and> entries x = None \<and>
        pending_signals x AND waited_signals x = 0)"

definition sig_inv :: "sys \<Rightarrow> bool" where
  "sig_inv st \<longleftrightarrow> (\<forall>t \<in> live st. sig_ok (thr st t))"

lemma sigwait_takes:
  assumes "(pending_signals (thr st (current_thread st)) AND sigs) AND
    NOT (blocked_signals (thr st (current_thread st))) \<noteq> 0" (is "?a \<noteq> 0")
  shows "sigwait_step ks sigs st = Some
    (unblock (upd_thread (current_thread st)
       (\<lambda>x. x\<lparr>pending_signals := pending_signals x AND NOT (thread_signal_bit (thread_signal_pick_one ?a))\<rparr>) st),
     Ret 0 (Out_sig (thread_signal_pick_one ?a)))"
  using pick_one_lowest(1) [OF assms] assms by (simp add: sigwait_step_def Let_def)

lemma upd_thread_twice: "upd_thread t f (upd_thread t g st) = upd_thread t (f \<circ> g) st"
  by (simp add: upd_thread_def)

lemma sigwait_deadlock:
  assumes "(pending_signals (thr st (current_thread st)) AND sigs) AND
      NOT (blocked_signals (thr st (current_thread st))) = 0"
    and "ready_queue st = []"
  shows "sigwait_step ks sigs st = Some (set_errno EDEADLK (unblock (upd_thread (current_thread st)
    (\<lambda>x. x\<lparr>waiting_for_signal := False, waited_signals := 0, th_state := THREAD_RUNNING\<rparr>) st)), Ret (-1) No_out)"
proof -
  have "thread_scheduler_pick_next (upd_thread t f st) = Some (None, upd_thread t f st)" for t f
    using assms(2) by (intro pick_next_empty) (simp add: upd_thread_def)
  with assms(1) show ?thesis by (simp add: sigwait_step_def Let_def upd_thread_twice comp_def)
qed

lemma sigwait_blocks:
  assumes inv: "sched_inv st" and q: "ready_queue st = n # ns"
    and none: "(pending_signals (thr st (current_thread st)) AND sigs) AND
      NOT (blocked_signals (thr st (current_thread st))) = 0"
  shows "\<exists>st'. sigwait_step ks sigs st = Some (st', Switched) \<and> sched_inv st' \<and> current_thread st' = n \<and>
    live st' = live st \<and> queues st' = (queues st)(ReadyQ := ns) \<and>
    (\<forall>t. t \<noteq> current_thread st \<longrightarrow> t \<noteq> n \<longrightarrow> thr st' t = thr st t) \<and>
    thr st' (current_thread st) = (thr st (current_thread st))\<lparr>saved_ctx := F_sigwait sigs # ks,
      th_state := THREAD_BLOCKED, waited_signals := sigs, waiting_for_signal := True\<rparr> \<and>
    thr st' n = (thr st n)\<lparr>entries := None, th_state := THREAD_RUNNING, in_ready_queue := False\<rparr>"
proof -
  let ?f = "\<lambda>x. x\<lparr>waiting_for_signal := True, waited_signals := sigs, th_state := THREAD_BLOCKED\<rparr>"
  from block_unlinked [OF inv q, of ?f "F_sigwait sigs # ks"] obtain s where s:
    "thread_scheduler_pick_next (upd_thread (current_thread st) ?f st) = Some (Some n, s)"
    "sched_inv (swap_thread (current_thread st) n (F_sigwait sigs # ks) s)" "n \<noteq> current_thread st"
    "queues s = (queues st)(ReadyQ := ns)" "live s = live st"
    "thr s = (thr st)(current_thread st := ?f (thr st (current_thread st)),
      n := (thr st n)\<lparr>entries := None, in_ready_queue := False\<rparr>)" by auto
  then show ?thesis using none
    by (auto simp: sigwait_step_def Let_def swap_thread_eq)
qed

text \<open>The loop keeps the scheduler invariant in every case.\<close>

lemma sched_inv_upd_private:
  "(\<And>x. sched_part (f x) = sched_part x) \<Longrightarrow> sched_inv (upd_thread t f st) = sched_inv st"
  by (simp add: sched_inv_def flight_upd_private) (simp add: upd_thread_def)

lemma sched_inv_running:
  "sched_inv st \<Longrightarrow> th_state (thr st (current_thread st)) = THREAD_RUNNING \<and>
     entries (thr st (current_thread st)) = None"
  using sched_inv_wf [of st "current_thread st"] sched_inv_current [of st] by (auto simp: thread_wf_def)

lemma sched_inv_state_noop:
  assumes "sched_inv st" "\<And>x. sched_part (f x) = sched_part (x\<lparr>th_state := THREAD_RUNNING\<rparr>)"
  shows "sched_inv (upd_thread (current_thread st) f st)"
proof -
  have "sched_part (f (thr st (current_thread st))) = sched_part (thr st (current_thread st))"
    using sched_inv_running [OF assms(1)] assms(2) by (simp add: sched_part_def)
  then have "flight_inv {} (Some (current_thread st)) (upd_thread (current_thread st) f st)"
    using assms(1) by (subst flight_cong [of _ st]) (auto simp: upd_thread_def sched_inv_def)
  with assms(1) show ?thesis by (simp add: sched_inv_def upd_thread_def)
qed

lemma sigwait_step_inv:
  assumes "sched_inv st"
  shows "\<exists>st' r. sigwait_step ks sigs st = Some (st', r) \<and> sched_inv st' \<and> live st' = live st"
proof (cases "(pending_signals (thr st (current_thread st)) AND sigs) AND
    NOT (blocked_signals (thr st (current_thread st))) = 0")
  case False
  then show ?thesis using assms
    by (simp add: sigwait_takes sched_inv_upd_private sched_part_def) (simp add: upd_thread_def)
next
  case True
  show ?thesis
  proof (cases "ready_queue st")
    case Nil
    with True show ?thesis using sched_inv_state_noop [OF assms]
      by (simp add: sigwait_deadlock sched_part_def) (simp add: upd_thread_def)
  next
    case (Cons n ns)
    from sigwait_blocks [OF assms this True] show ?thesis by blast
  qed
qed

lemma thread_sigwait_inv:
  "sched_inv st \<Longrightarrow> \<exists>st' r. thread_sigwait ks sigs p st = Some (st', r) \<and> sched_inv st' \<and> live st' = live st"
  using sigwait_step_inv [of "block st" ks sigs] by (auto simp: thread_sigwait_def)

section \<open>Sending\<close>

abbreviation add_pending :: "int \<Rightarrow> tid \<Rightarrow> sys \<Rightarrow> sys" where
  "add_pending sig t \<equiv> upd_thread t (\<lambda>x. x\<lparr>pending_signals := pending_signals x OR thread_signal_bit sig\<rparr>)"

lemma send_invalid:
  "sig < 1 \<or> 32 < sig \<Longrightarrow> thread_signal_send t sig st = Some (set_errno EINVAL st, Ret (-1) No_out)"
  by (cases t) (auto simp: thread_signal_send_def THREAD_SIGNAL_MIN_def THREAD_SIGNAL_MAX_def)

lemma send_pending_only:
  assumes "1 \<le> sig" "sig \<le> 32"
    and "\<not> (th_state (thr st t) = THREAD_BLOCKED \<and> waiting_for_signal (thr st t) \<and>
      waited_signals (thr st t) AND thread_signal_bit sig \<noteq> 0)"
  shows "thread_signal_send (Some t) sig st = Some (unblock (add_pending sig t (block st)), Ret 0 No_out)"
  using assms by (auto simp: thread_signal_send_def Let_def upd_thread_def THREAD_SIGNAL_MIN_def
      THREAD_SIGNAL_MAX_def)

lemma send_wakes:
  assumes inv: "sched_inv st" and t: "t \<in> live st" "entries (thr st t) = None"
    and s: "1 \<le> sig" "sig \<le> 32"
    and w: "th_state (thr st t) = THREAD_BLOCKED" "waiting_for_signal (thr st t)"
      "waited_signals (thr st t) AND thread_signal_bit sig \<noteq> 0"
  shows "\<exists>st'. thread_signal_send (Some t) sig st = Some (st', Ret 0 No_out) \<and> sched_inv st' \<and>
    live st' = live st \<and> current_thread st' = current_thread st \<and>
    queues st' = (queues st)(ReadyQ := ready_insert st t) \<and>
    thr st' = (thr st)(t := (thr st t)\<lparr>entries := Some ReadyQ, th_state := THREAD_READY, in_ready_queue := True,
      pending_signals := pending_signals (thr st t) OR thread_signal_bit sig, waited_signals := 0,
      waiting_for_signal := False\<rparr>)"
proof -
  let ?f = "\<lambda>x. x\<lparr>waiting_for_signal := False, waited_signals := 0, th_state := THREAD_READY\<rparr>"
  let ?u = "upd_thread t ?f (add_pending sig t (block st))"
  have ne: "Some (current_thread st) \<noteq> Some t" using w(1) sched_inv_current(1) [OF inv] by auto
  have "flight_inv {} (Some (current_thread st)) (block st)" using inv by (simp add: sched_inv_def)
  then have "flight_inv {t} (Some (current_thread st)) (block st)" by (rule flight_detach) (simp_all add: t)
  then have fl: "flight_inv {t} (Some (current_thread st)) ?u" by (intro flight_upd_thread) auto
  from flight_enqueue [OF fl _ ne] obtain s1 where s1: "thread_scheduler_enqueue t ?u = Some s1"
    "flight_inv {} (Some (current_thread st)) s1" "queues s1 = (queues st)(ReadyQ := ready_insert ?u t)"
    "live s1 = live st" "current_thread s1 = current_thread st"
    "thr s1 = (thr ?u)(t := (thr ?u t)\<lparr>in_ready_queue := True, entries := Some ReadyQ\<rparr>)"
    by (auto simp: upd_thread_def)
  have "ready_insert ?u t = ready_insert st t"
    by (rule ready_insert_cong) (auto simp: upd_thread_def)
  with s1 s w inv show ?thesis
    by (auto simp: thread_signal_send_def Let_def upd_thread_def THREAD_SIGNAL_MIN_def
      THREAD_SIGNAL_MAX_def sched_inv_def)
qed

lemma send_inv:
  assumes inv: "sched_inv st" "sig_inv st" and t: "\<And>x. t = Some x \<Longrightarrow> x \<in> live st"
  shows "\<exists>st' r. thread_signal_send t sig st = Some (st', Ret r No_out) \<and> sched_inv st' \<and> sig_inv st' \<and>
    live st' = live st"
proof (cases "t = None \<or> sig < 1 \<or> 32 < sig")
  case True
  then show ?thesis using inv send_invalid [of sig t st]
    by (auto simp: thread_signal_send_def sig_inv_def)
next
  case False
  then obtain x where x: "t = Some x" "1 \<le> sig" "sig \<le> 32" by auto
  have xl: "x \<in> live st" using t x by simp
  then have sx: "sig_ok (thr st x)" using inv by (simp add: sig_inv_def)
  show ?thesis
  proof (cases "waiting_for_signal (thr st x) \<and> waited_signals (thr st x) AND thread_signal_bit sig \<noteq> 0")
    case True
    with sx have "th_state (thr st x) = THREAD_BLOCKED" "entries (thr st x) = None" by (auto simp: sig_ok_def)
    from send_wakes [OF inv(1) xl this(2) x(2,3) this(1)] True inv(2) sx show ?thesis
      by (auto simp: x sig_inv_def sig_ok_def)
  next
    case False
    have "sig_ok ((thr st x)\<lparr>pending_signals := pending_signals (thr st x) OR thread_signal_bit sig\<rparr>)"
      using sx False by (auto simp: sig_ok_def bit.conj_disj_distrib and.commute)
    then show ?thesis
      using False inv send_pending_only [OF x(2,3), of st x]
      by (simp add: x sched_inv_upd_private sched_part_def) (auto simp: upd_thread_def sig_inv_def)
  qed
qed

section \<open>No lost wake-up\<close>

lemma sig_inv_block [simp]:
  "sig_inv (block st) = sig_inv st" "sig_inv (unblock st) = sig_inv st" "sig_inv (set_errno e st) = sig_inv st"
  by (simp_all add: sig_inv_def)

lemma sig_inv_upd:
  "sig_inv st \<Longrightarrow> (t \<in> live st \<Longrightarrow> sig_ok (f (thr st t))) \<Longrightarrow> sig_inv (upd_thread t f st)"
  by (simp add: sig_inv_def upd_thread_def)

lemma sigwait_step_sig_inv:
  assumes inv: "sched_inv st" "sig_inv st" and r: "sigwait_step ks sigs st = Some (st', r)"
  shows "sig_inv st'"
proof -
  let ?c = "current_thread st"
  have c: "?c \<in> live st" using inv(1) by (simp add: sched_inv_def)
  then have ok: "sig_ok (thr st ?c)" using inv(2) by (simp add: sig_inv_def)
  then have idle: "\<not> waiting_for_signal (thr st ?c)"
    using sched_inv_current(1) [OF inv(1)] by (auto simp: sig_ok_def)
  show ?thesis
  proof (cases "(pending_signals (thr st ?c) AND sigs) AND NOT (blocked_signals (thr st ?c)) = 0")
    case False
    from r [unfolded sigwait_takes [OF False]] show ?thesis
      using inv(2) ok idle by (auto simp: sig_ok_def intro!: sig_inv_upd)
  next
    case True
    then have none: "pending_signals (thr st ?c) AND sigs = 0" using ok by (simp add: sig_ok_def)
    show ?thesis
    proof (cases "ready_queue st")
      case Nil
      from r [unfolded sigwait_deadlock [OF True Nil]] show ?thesis
        using inv(2) ok by (auto simp: sig_ok_def intro!: sig_inv_upd)
    next
      case (Cons n ns)
      from sigwait_blocks [OF inv(1) Cons True, of ks] r have s: "live st' = live st"
        "\<And>t. t \<noteq> ?c \<Longrightarrow> t \<noteq> n \<Longrightarrow> thr st' t = thr st t"
        "sig_ok (thr st' ?c)" "thr st' n = (thr st n)\<lparr>entries := None, th_state := THREAD_RUNNING, in_ready_queue := False\<rparr>"
        using ok none sched_inv_current(2) [OF inv(1)] by (auto simp: sig_ok_def)
      have "n \<in> live st" "entries (thr st n) = Some ReadyQ"
        using Cons sched_inv_ready_live [OF inv(1), of n] queues_ok_mem [OF sched_inv_queues_ok [OF inv(1)], of n ReadyQ]
        by auto
      then have "sig_ok (thr st' n)" using inv(2) s(4) by (auto simp: sig_inv_def sig_ok_def)
      then show ?thesis using s inv(2) unfolding sig_inv_def by metis
    qed
  qed
qed

end
