(* ===== verification/Mutex.thy ===== *)
theory Mutex
  imports Yielding
begin

text \<open>
  The mutex of \<open>src/thread_mutex.c\<close>: \<open>m_locked\<close> is the field \<open>locked\<close> (0 free, 1 held, -1
  destroyed), \<open>MutexQ m\<close> its waiting queue.  The operations are shown to implement an abstract
  queue lock with an owner and a FIFO list of waiters.
\<close>

section \<open>Definitions\<close>

definition thread_mutex_init :: "oid option \<Rightarrow> sys \<Rightarrow> result" where
  "thread_mutex_init mutex st =
     (case mutex of
        None \<Rightarrow> Some (st, Ret (-1) No_out)
      | Some m \<Rightarrow>
          (let st = st\<lparr>m_locked := (m_locked st)(m := 0)\<rparr>;
               st = tailq_init (MutexQ m) st
           in Some (st, Ret 0 No_out)))"

definition thread_mutex_destroy :: "oid option \<Rightarrow> sys \<Rightarrow> result" where
  "thread_mutex_destroy mutex st =
     (case mutex of
        None \<Rightarrow> Some (st, Ret (-1) No_out)
      | Some m \<Rightarrow>
          if queues st (MutexQ m) \<noteq> [] then Some (st, Ret (-1) No_out)
          else Some (st\<lparr>m_locked := (m_locked st)(m := -1)\<rparr>, Ret 0 No_out))"

definition thread_mutex_lock :: "frame list \<Rightarrow> oid option \<Rightarrow> sys \<Rightarrow> result" where
  "thread_mutex_lock ks mutex st =
     (case mutex of
        None \<Rightarrow> Some (st, Ret (-1) No_out)
      | Some m \<Rightarrow>
          (let st = block st
           in if m_locked st m = -1 then
                Some (unblock (set_errno EINVAL st), Ret (-1) No_out)
              else if m_locked st m = 0 then
                Some (unblock (st\<lparr>m_locked := (m_locked st)(m := 1)\<rparr>), Ret 0 No_out)
              else
                (let prev = current_thread st
                 in do {
                   (nxt, st) \<leftarrow> thread_scheduler_pick_next st;
                   (case nxt of
                      None \<Rightarrow> Some (unblock st, Ret (-1) No_out)
                    | Some nxt \<Rightarrow> do {
                        st \<leftarrow> tailq_insert_tail (MutexQ m) prev (set_state prev THREAD_BLOCKED st);
                        Some (swap_thread prev nxt (F_mutex_lock # ks) st, Switched)
                      })
                 })))"

definition thread_mutex_unlock :: "oid option \<Rightarrow> sys \<Rightarrow> result" where
  "thread_mutex_unlock mutex st =
     (case mutex of
        None \<Rightarrow> Some (st, Ret (-1) No_out)
      | Some m \<Rightarrow>
          (let st = block st
           in if m_locked st m = -1 then
                Some (unblock (set_errno EINVAL st), Ret (-1) No_out)
              else if m_locked st m = 0 then
                Some (unblock st, Ret (-1) No_out)
              else if queues st (MutexQ m) \<noteq> [] then do {
                st \<leftarrow> revive (MutexQ m) st;
                Some (unblock st, Ret 0 No_out)
              }
              else Some (unblock (st\<lparr>m_locked := (m_locked st)(m := 0)\<rparr>), Ret 0 No_out)))"

section \<open>Mutex invariant\<close>

text \<open>Only a held mutex has waiters.\<close>

definition mutex_inv :: "oid \<Rightarrow> sys \<Rightarrow> bool" where
  "mutex_inv m st \<longleftrightarrow> m_locked st m \<in> {-1, 0, 1} \<and> (queues st (MutexQ m) \<noteq> [] \<longrightarrow> m_locked st m = 1)"

lemma wait_queue_simps [simp]:
  "wait_queue (MutexQ m)" "wait_queue (SemQ s)" "wait_queue (CondQ c)"
  by (simp_all add: wait_queue_def)

section \<open>Behaviour of lock\<close>

lemma lock_free:
  "m_locked st m = 0 \<Longrightarrow> thread_mutex_lock ks (Some m) st =
     Some (unblock ((block st)\<lparr>m_locked := (m_locked st)(m := 1)\<rparr>), Ret 0 No_out)"
  by (simp add: thread_mutex_lock_def Let_def)

lemma lock_destroyed:
  "m_locked st m = -1 \<Longrightarrow> thread_mutex_lock ks (Some m) st =
     Some (unblock (set_errno EINVAL (block st)), Ret (-1) No_out)"
  by (simp add: thread_mutex_lock_def Let_def)

lemma lock_alone:
  assumes "m_locked st m \<noteq> -1" "m_locked st m \<noteq> 0" "ready_queue st = []"
  shows "thread_mutex_lock ks (Some m) st = Some (unblock (block st), Ret (-1) No_out)"
  using assms by (simp add: thread_mutex_lock_def Let_def pick_next_empty)

lemma lock_wait:
  assumes inv: "sched_inv st" and m: "m_locked st m \<noteq> -1" "m_locked st m \<noteq> 0" and q: "ready_queue st = n # ns"
  shows "\<exists>st'. thread_mutex_lock ks (Some m) st = Some (st', Switched) \<and> sched_inv st' \<and>
    current_thread st' = n \<and> saved_ctx (thr st' (current_thread st)) = F_mutex_lock # ks \<and>
    queues st' = (queues st)(ReadyQ := ns, MutexQ m := queues st (MutexQ m) @ [current_thread st]) \<and>
    m_locked st' = m_locked st \<and> live st' = live st"
proof -
  let ?p = "current_thread st"
  have fl: "flight_inv {} (Some ?p) (block st)" and pl: "?p \<in> live st" using inv by (simp_all add: sched_inv_def)
  from flight_pick [OF fl] q obtain s1 where s1: "thread_scheduler_pick_next (block st) = Some (Some n, s1)"
    "flight_inv {n} (Some ?p) s1" "?p \<noteq> n" "queues s1 = (queues st)(ReadyQ := ns)" "live s1 = live st" by auto
  note fr = pick_frame [OF s1(1)]
  from park_and_switch [OF s1(2) _ s1(3), of "MutexQ m" "F_mutex_lock # ks"] pl s1(5) obtain s2 where
    s2: "tailq_insert_tail (MutexQ m) ?p (set_state ?p THREAD_BLOCKED s1) = Some s2"
    "sched_inv (swap_thread ?p n (F_mutex_lock # ks) s2)"
    "queues s2 = (queues s1)(MutexQ m := queues s1 (MutexQ m) @ [?p])" "live s2 = live s1" "m_locked s2 = m_locked s1"
    by auto
  have "thread_mutex_lock ks (Some m) st = Some (swap_thread ?p n (F_mutex_lock # ks) s2, Switched)"
    using m s1(1) s2(1) by (simp add: thread_mutex_lock_def Let_def)
  moreover have "saved_ctx (thr (swap_thread ?p n (F_mutex_lock # ks) s2) ?p) = F_mutex_lock # ks"
    by (simp add: state_eqs)
  ultimately show ?thesis using s2 s1(4,5) fr by simp
qed

lemma lock_inv:
  assumes inv: "sched_inv st"
  shows "\<exists>st' r. thread_mutex_lock ks mutex st = Some (st', r) \<and> sched_inv st' \<and> live st' = live st \<and>
    (r = Switched \<or> r = Ret 0 No_out \<or> r = Ret (-1) No_out)"
proof (cases mutex)
  case None
  with inv show ?thesis by (simp add: thread_mutex_lock_def)
next
  case (Some m)
  consider "m_locked st m = 0" | "m_locked st m = -1"
    | "m_locked st m \<noteq> -1" "m_locked st m \<noteq> 0" "ready_queue st = []"
    | n ns where "m_locked st m \<noteq> -1" "m_locked st m \<noteq> 0" "ready_queue st = n # ns"
    by (cases "ready_queue st") auto
  then show ?thesis
  proof cases
    case 4
    from lock_wait [OF inv this, of ks] Some show ?thesis by auto
  qed (use Some inv in \<open>simp_all add: lock_free lock_destroyed lock_alone\<close>)
qed

section \<open>Behaviour of unlock\<close>

lemma unlock_handoff:
  assumes inv: "sched_inv st" and m: "m_locked st m \<noteq> -1" "m_locked st m \<noteq> 0" and q: "queues st (MutexQ m) = w # ws"
  shows "\<exists>st'. thread_mutex_unlock (Some m) st = Some (st', Ret 0 No_out) \<and> sched_inv st' \<and> live st' = live st \<and>
    queues st' (MutexQ m) = ws \<and> m_locked st' = m_locked st \<and> current_thread st' = current_thread st \<and>
    set (ready_queue st') = insert w (set (ready_queue st))"
proof -
  have fl: "flight_inv {} (Some (current_thread st)) (block st)" using inv by (simp add: sched_inv_def)
  from revive_wake [OF fl, of "MutexQ m" w ws] q obtain s1 where s1: "revive (MutexQ m) (block st) = Some s1"
    "flight_inv {} (Some (current_thread st)) s1" "live s1 = live st" "queues s1 (MutexQ m) = ws"
    "set (ready_queue s1) = insert w (set (ready_queue st))" "current_thread s1 = current_thread st"
    "m_locked s1 = m_locked st" by auto
  have "thread_mutex_unlock (Some m) st = Some (unblock s1, Ret 0 No_out)"
    using m q s1(1) by (simp add: thread_mutex_unlock_def Let_def)
  with s1 inv show ?thesis by (simp add: sched_inv_def)
qed

lemma unlock_free:
  "m_locked st m \<noteq> -1 \<Longrightarrow> m_locked st m \<noteq> 0 \<Longrightarrow> queues st (MutexQ m) = [] \<Longrightarrow>
   thread_mutex_unlock (Some m) st =
     Some (unblock ((block st)\<lparr>m_locked := (m_locked st)(m := 0)\<rparr>), Ret 0 No_out)"
  by (simp add: thread_mutex_unlock_def Let_def)

lemma unlock_not_locked:
  "m_locked st m = 0 \<Longrightarrow> thread_mutex_unlock (Some m) st = Some (unblock (block st), Ret (-1) No_out)"
  "m_locked st m = -1 \<Longrightarrow> thread_mutex_unlock (Some m) st =
     Some (unblock (set_errno EINVAL (block st)), Ret (-1) No_out)"
  by (simp_all add: thread_mutex_unlock_def Let_def)

lemma unlock_inv:
  assumes inv: "sched_inv st"
  shows "\<exists>st' r. thread_mutex_unlock mutex st = Some (st', r) \<and> sched_inv st' \<and> live st' = live st \<and>
    current_thread st' = current_thread st \<and> (r = Ret 0 No_out \<or> r = Ret (-1) No_out)"
proof (cases mutex)
  case None
  with inv show ?thesis by (simp add: thread_mutex_unlock_def)
next
  case (Some m)
  consider "m_locked st m = 0" | "m_locked st m = -1"
    | "m_locked st m \<noteq> -1" "m_locked st m \<noteq> 0" "queues st (MutexQ m) = []"
    | w ws where "m_locked st m \<noteq> -1" "m_locked st m \<noteq> 0" "queues st (MutexQ m) = w # ws"
    by (cases "queues st (MutexQ m)") auto
  then show ?thesis
  proof cases
    case 4
    from unlock_handoff [OF inv this] Some show ?thesis by auto
  qed (use Some inv in \<open>simp_all add: unlock_free unlock_not_locked\<close>)
qed

lemma init_inv:
  assumes "sched_inv st" "queues st (MutexQ m) = []"
  shows "\<exists>st'. thread_mutex_init (Some m) st = Some (st', Ret 0 No_out) \<and> sched_inv st' \<and> mutex_inv m st'"
proof -
  have "(queues st)(MutexQ m := []) = queues st" using assms(2) by auto
  with assms show ?thesis by (simp add: thread_mutex_init_def Let_def tailq_init_def mutex_inv_def)
qed

section \<open>Abstract queue lock\<close>

record 't alock =
  owner :: "'t option"
  waiters :: "'t list"

definition alock_lock :: "'t \<Rightarrow> 't alock \<Rightarrow> 't alock" where
  "alock_lock t a = (if owner a = None then a\<lparr>owner := Some t\<rparr> else a\<lparr>waiters := waiters a @ [t]\<rparr>)"

definition alock_unlock :: "'t alock \<Rightarrow> 't alock" where
  "alock_unlock a = (case waiters a of [] \<Rightarrow> a\<lparr>owner := None\<rparr>
     | w # ws \<Rightarrow> \<lparr>owner = Some w, waiters = ws\<rparr>)"

text \<open>
  What a client of a hand-off lock may rely on: a free lock is taken at once; a held one queues the
  caller, which leaves the processor, or refuses when nobody else could run; a release passes the lock
  to the longest waiting thread and makes that thread, and no other, ready to run.
\<close>

locale queue_lock =
  fixes inv :: "'s \<Rightarrow> bool" and cur :: "'s \<Rightarrow> 't" and ready :: "'s \<Rightarrow> 't set" and abs :: "'s \<Rightarrow> 't alock \<Rightarrow> bool"
    and lock :: "'s \<Rightarrow> ('s \<times> outcome) option" and unlock :: "'s \<Rightarrow> ('s \<times> outcome) option"
  assumes waiting: "inv s \<Longrightarrow> abs s a \<Longrightarrow> t \<in> set (waiters a) \<Longrightarrow> t \<noteq> cur s \<and> t \<notin> ready s \<and> owner a \<noteq> Some t"
    and lock_taken: "inv s \<Longrightarrow> abs s a \<Longrightarrow> owner a = None \<Longrightarrow>
      \<exists>s'. lock s = Some (s', Ret 0 No_out) \<and> inv s' \<and> abs s' (alock_lock (cur s) a) \<and> cur s' = cur s \<and> ready s' = ready s"
    and lock_held: "inv s \<Longrightarrow> abs s a \<Longrightarrow> owner a = Some t \<Longrightarrow> t \<noteq> cur s \<Longrightarrow>
      \<exists>s' r. lock s = Some (s', r) \<and> inv s' \<and>
        (r = Switched \<and> abs s' (alock_lock (cur s) a) \<and> cur s' \<in> ready s \<and> ready s' = ready s - {cur s'} \<or>
         r = Ret (-1) No_out \<and> abs s' a \<and> ready s = {})"
    and unlock_held: "inv s \<Longrightarrow> abs s a \<Longrightarrow> owner a = Some t \<Longrightarrow>
      \<exists>s'. unlock s = Some (s', Ret 0 No_out) \<and> inv s' \<and> abs s' (alock_unlock a) \<and> cur s' = cur s \<and>
        ready s' = ready s \<union> set (take 1 (waiters a))"
begin

text \<open>No thread can take the lock between a release and the resumption of the next owner, which is ready.\<close>

lemma no_steal:
  assumes "inv s" "abs s a" "owner a = Some t" "waiters a = w # ws"
  shows "\<exists>s1. unlock s = Some (s1, Ret 0 No_out) \<and> abs s1 \<lparr>owner = Some w, waiters = ws\<rparr> \<and> w \<in> ready s1 \<and>
     (\<forall>s2 r. lock s1 = Some (s2, r) \<longrightarrow> r \<noteq> Ret 0 No_out)"
proof -
  from unlock_held [OF assms(1-3)] obtain s1 where s1: "unlock s = Some (s1, Ret 0 No_out)" "inv s1"
    "abs s1 (alock_unlock a)" "cur s1 = cur s" "ready s1 = ready s \<union> set (take 1 (waiters a))" by blast
  have a: "alock_unlock a = \<lparr>owner = Some w, waiters = ws\<rparr>" using assms(4) by (simp add: alock_unlock_def)
  have "w \<noteq> cur s1" using waiting [OF assms(1,2), of w] assms(4) s1(4) by simp
  from lock_held [OF s1(2,3) _ this] a show ?thesis using s1 assms(4) by auto
qed

text \<open>Successive releases serve the waiters in the order of their arrival.\<close>

lemma fifo:
  "inv s \<Longrightarrow> abs s a \<Longrightarrow> owner a = Some t \<Longrightarrow> k < length (waiters a) \<Longrightarrow>
   \<exists>s'. repeat_op (Suc k) unlock s = Some s' \<and> inv s' \<and> set (take (Suc k) (waiters a)) \<subseteq> ready s' \<and> ready s \<subseteq> ready s' \<and>
     abs s' \<lparr>owner = Some (waiters a ! k), waiters = drop (Suc k) (waiters a)\<rparr>"
proof (induction k arbitrary: s a t)
  case 0
  then obtain w ws where w: "waiters a = w # ws" by (cases "waiters a") auto
  with unlock_held [OF 0(1-3)] show ?case by (auto simp: alock_unlock_def)
next
  case (Suc k)
  then obtain w ws where w: "waiters a = w # ws" by (cases "waiters a") auto
  from unlock_held [OF Suc.prems(1-3)] w obtain s1 where s1: "unlock s = Some (s1, Ret 0 No_out)" "inv s1"
    "abs s1 \<lparr>owner = Some w, waiters = ws\<rparr>" "ready s1 = insert w (ready s)" by (auto simp: alock_unlock_def)
  from Suc.IH [OF s1(2,3)] Suc.prems(4) w s1(1,4) show ?case by auto
qed

end

text \<open>The mutex provides this contract.  The owner is not stored in the C structure: from the state alone
  it is known that it is a live thread outside the waiting queue.  \<open>Mutual_Exclusion\<close> identifies it from
  the history of the calls.\<close>

definition mutex_abs :: "oid \<Rightarrow> sys \<Rightarrow> tid alock \<Rightarrow> bool" where
  "mutex_abs m st a \<longleftrightarrow>
     waiters a = queues st (MutexQ m) \<and> m_locked st m = (if owner a = None then 0 else 1) \<and>
     (waiters a \<noteq> [] \<longrightarrow> owner a \<noteq> None) \<and>
     (\<forall>t \<in> set_option (owner a). t \<in> live st \<and> t \<notin> set (waiters a))"

lemma mutex_abs_mutex_inv: "mutex_abs m st a \<Longrightarrow> mutex_inv m st"
  by (auto simp: mutex_abs_def mutex_inv_def)

lemma mutex_queue_apart:
  assumes inv: "sched_inv st" and t: "t \<in> set (queues st (MutexQ m))"
  shows "t \<noteq> current_thread st" "t \<notin> set (ready_queue st)" "t \<in> live st"
proof -
  note ok = sched_inv_queues_ok [OF inv]
  have e: "entries (thr st t) = Some (MutexQ m)" using t queues_ok_mem [OF ok] by simp
  then show "t \<noteq> current_thread st" using sched_inv_current(2) [OF inv] by auto
  show "t \<notin> set (ready_queue st)" using e queues_ok_mem [OF ok, of t ReadyQ] by simp
  show "t \<in> live st" using inv e by (auto simp: sched_inv_def flight_inv_def)
qed

interpretation ml: queue_lock sched_inv current_thread "\<lambda>st. set (ready_queue st)" "mutex_abs m" "thread_mutex_lock ks (Some m)"
    "thread_mutex_unlock (Some m)" for m ks
proof
  fix st and a :: "tid alock"
  assume inv: "sched_inv st" and abs: "mutex_abs m st a"
  have cl: "current_thread st \<in> live st" using inv by (simp add: sched_inv_def)
  have cq: "current_thread st \<notin> set (queues st (MutexQ m))" using mutex_queue_apart(1) [OF inv] by blast
  show "t \<noteq> current_thread st \<and> t \<notin> set (ready_queue st) \<and> owner a \<noteq> Some t" if "t \<in> set (waiters a)" for t
    using that abs mutex_queue_apart [OF inv, of t m] by (auto simp: mutex_abs_def)
  show "\<exists>s'. thread_mutex_lock ks (Some m) st = Some (s', Ret 0 No_out) \<and> sched_inv s' \<and>
      mutex_abs m s' (alock_lock (current_thread st) a) \<and> current_thread s' = current_thread st \<and>
      set (ready_queue s') = set (ready_queue st)" if "owner a = None"
    using that inv abs cl by (auto simp: mutex_abs_def lock_free alock_lock_def)
  fix t assume o: "owner a = Some t"
  then have l: "m_locked st m = 1" using abs by (simp add: mutex_abs_def)
  show "\<exists>s' r. thread_mutex_lock ks (Some m) st = Some (s', r) \<and> sched_inv s' \<and>
      (r = Switched \<and> mutex_abs m s' (alock_lock (current_thread st) a) \<and> current_thread s' \<in> set (ready_queue st) \<and>
         set (ready_queue s') = set (ready_queue st) - {current_thread s'} \<or>
       r = Ret (-1) No_out \<and> mutex_abs m s' a \<and> set (ready_queue st) = {})" if "t \<noteq> current_thread st"
  proof (cases "ready_queue st")
    case Nil
    with l inv abs show ?thesis by (auto simp: lock_alone mutex_abs_def)
  next
    case (Cons n ns)
    have "n \<notin> set ns" using queues_ok_distinct [OF sched_inv_queues_ok [OF inv], of ReadyQ] Cons by simp
    with lock_wait [OF inv _ _ Cons, of m ks] l abs o that Cons show ?thesis
      by (auto simp: mutex_abs_def alock_lock_def)
  qed
  show "\<exists>s'. thread_mutex_unlock (Some m) st = Some (s', Ret 0 No_out) \<and> sched_inv s' \<and>
      mutex_abs m s' (alock_unlock a) \<and> current_thread s' = current_thread st \<and>
      set (ready_queue s') = set (ready_queue st) \<union> set (take 1 (waiters a))"
  proof (cases "queues st (MutexQ m)")
    case Nil
    with l inv abs show ?thesis by (simp add: unlock_free mutex_abs_def alock_unlock_def)
  next
    case (Cons w ws)
    have "w \<notin> set ws" using queues_ok_distinct [OF sched_inv_queues_ok [OF inv], of "MutexQ m"] Cons by simp
    moreover have "w \<in> live st" using mutex_queue_apart(3) [OF inv, of w m] Cons by simp
    ultimately show ?thesis using unlock_handoff [OF inv _ _ Cons] l abs Cons
      by (auto simp: mutex_abs_def alock_unlock_def)
  qed
qed

end
