(* ===== verification/Cond_Var.thy ===== *)
theory Cond_Var
  imports Mutex
begin

text \<open>
  The condition variables of \<open>src/thread_cond.c\<close>.  \<open>thread_cond_wait\<close> releases the mutex and parks
  the caller in one step; \<open>F_cond_wait\<close> is the point where it resumes and re-acquires the
  mutex.
\<close>

section \<open>Definitions\<close>

definition thread_cond_init :: "oid option \<Rightarrow> sys \<Rightarrow> result" where
  "thread_cond_init cond st =
     (case cond of
        None \<Rightarrow> Some (st, Ret (-1) No_out)
      | Some c \<Rightarrow> Some (tailq_init (CondQ c) st, Ret 0 No_out))"

definition thread_cond_destroy :: "oid option \<Rightarrow> sys \<Rightarrow> result" where
  "thread_cond_destroy cond st =
     (case cond of
        None \<Rightarrow> Some (st, Ret (-1) No_out)
      | Some c \<Rightarrow>
          if queues st (CondQ c) \<noteq> [] then Some (st, Ret (-1) No_out) else Some (st, Ret 0 No_out))"

text \<open>The release of the mutex inside \<open>thread_cond_wait\<close>.\<close>

definition cond_release :: "oid \<Rightarrow> sys \<Rightarrow> sys option" where
  "cond_release m st =
     (if queues st (MutexQ m) \<noteq> [] then revive (MutexQ m) st
      else Some (st\<lparr>m_locked := (m_locked st)(m := 0)\<rparr>))"

text \<open>The final \<open>thread_mutex_lock\<close>, whose result \<open>thread_cond_wait\<close> drops.\<close>

definition cond_relock :: "int \<Rightarrow> frame list \<Rightarrow> oid \<Rightarrow> sys \<Rightarrow> result" where
  "cond_relock ret ks m st = do {
     (st, r) \<leftarrow> thread_mutex_lock (F_cond_relock ret # ks) (Some m) st;
     (case r of Ret _ _ \<Rightarrow> Some (st, Ret ret No_out) | _ \<Rightarrow> Some (st, r))
   }"

definition thread_cond_wait :: "frame list \<Rightarrow> oid option \<Rightarrow> oid option \<Rightarrow> sys \<Rightarrow> result" where
  "thread_cond_wait ks cond mutex st =
     (case (cond, mutex) of
        (Some c, Some m) \<Rightarrow>
          (let st = block st;
               prev = current_thread st
           in do {
             (nxt, st) \<leftarrow> thread_scheduler_pick_next st;
             st \<leftarrow> cond_release m st;
             (case nxt of
                None \<Rightarrow> cond_relock (-1) ks m (unblock st)
              | Some nxt \<Rightarrow> do {
                  st \<leftarrow> tailq_insert_tail (CondQ c) prev (set_state prev THREAD_BLOCKED st);
                  let st = st\<lparr>current_thread := nxt\<rparr>;
                  let st = set_state nxt THREAD_RUNNING st;
                  let st = fast_swap_context prev (F_cond_wait m # ks) st;
                  Some (st, Switched)
                })
           })
      | _ \<Rightarrow> Some (st, Ret (-1) No_out))"

text \<open>The code of \<open>thread_cond_wait\<close> behind its context switch.\<close>

definition cond_wait_resume :: "frame list \<Rightarrow> oid \<Rightarrow> sys \<Rightarrow> result" where
  "cond_wait_resume ks m st = cond_relock 0 ks m (unblock st)"

definition thread_cond_signal :: "oid option \<Rightarrow> sys \<Rightarrow> result" where
  "thread_cond_signal cond st =
     (case cond of
        None \<Rightarrow> Some (st, Ret (-1) No_out)
      | Some c \<Rightarrow>
          (let st = block st
           in do {
             st \<leftarrow> (if queues st (CondQ c) \<noteq> [] then revive (CondQ c) st else Some st);
             Some (unblock st, Ret 0 No_out)
           }))"

partial_function (option) revive_all :: "qid \<Rightarrow> sys \<Rightarrow> sys option" where
  "revive_all q st =
     (if queues st q \<noteq> [] then do { st \<leftarrow> revive q st; revive_all q st } else Some st)"

definition thread_cond_broadcast :: "oid option \<Rightarrow> sys \<Rightarrow> result" where
  "thread_cond_broadcast cond st =
     (case cond of
        None \<Rightarrow> Some (st, Ret (-1) No_out)
      | Some c \<Rightarrow>
          (let st = block st
           in do {
             st \<leftarrow> revive_all (CondQ c) st;
             Some (unblock st, Ret 0 No_out)
           }))"

section \<open>Signal and broadcast\<close>

lemma cond_signal_wakes:
  assumes inv: "sched_inv st" and q: "queues st (CondQ c) = w # ws"
  shows "\<exists>st'. thread_cond_signal (Some c) st = Some (st', Ret 0 No_out) \<and> sched_inv st' \<and> live st' = live st \<and>
    queues st' (CondQ c) = ws \<and> set (ready_queue st') = insert w (set (ready_queue st)) \<and>
    (\<forall>q'. wait_queue q' \<longrightarrow> q' \<noteq> CondQ c \<longrightarrow> queues st' q' = queues st q') \<and>
    current_thread st' = current_thread st \<and> m_locked st' = m_locked st"
proof -
  have fl: "flight_inv {} (Some (current_thread st)) (block st)" using inv by (simp add: sched_inv_def)
  from revive_wake [OF fl, of "CondQ c" w ws] q obtain s1 where s1: "revive (CondQ c) (block st) = Some s1"
    "flight_inv {} (Some (current_thread st)) s1" "live s1 = live st" "queues s1 (CondQ c) = ws"
    "set (ready_queue s1) = insert w (set (ready_queue st))" "current_thread s1 = current_thread st"
    "m_locked s1 = m_locked st" "\<forall>q'. wait_queue q' \<longrightarrow> q' \<noteq> CondQ c \<longrightarrow> queues s1 q' = queues st q'" by auto
  have "thread_cond_signal (Some c) st = Some (unblock s1, Ret 0 No_out)"
    using q s1(1) by (simp add: thread_cond_signal_def Let_def)
  with s1 inv show ?thesis by (simp add: sched_inv_def)
qed

lemma cond_signal_empty:
  "queues st (CondQ c) = [] \<Longrightarrow> thread_cond_signal (Some c) st = Some (unblock (block st), Ret 0 No_out)"
  by (simp add: thread_cond_signal_def Let_def)

lemma revive_all_ok:
  "flight_inv P c st \<Longrightarrow> wait_queue q \<Longrightarrow> queues st q = ws \<Longrightarrow>
   \<exists>st'. revive_all q st = Some st' \<and> flight_inv P c st' \<and> live st' = live st \<and> queues st' q = [] \<and>
     set (ready_queue st') = set (ready_queue st) \<union> set ws \<and>
     (\<forall>q'. wait_queue q' \<longrightarrow> q' \<noteq> q \<longrightarrow> queues st' q' = queues st q') \<and>
     current_thread st' = current_thread st \<and> m_locked st' = m_locked st"
proof (induction ws arbitrary: st)
  case Nil
  then show ?case by (simp add: revive_all.simps)
next
  case (Cons w ws)
  from revive_wake [OF Cons.prems(1,3,2)] obtain s1 where s1: "revive q st = Some s1" "flight_inv P c s1"
    "live s1 = live st" "queues s1 q = ws" "set (ready_queue s1) = insert w (set (ready_queue st))"
    "\<forall>q'. wait_queue q' \<longrightarrow> q' \<noteq> q \<longrightarrow> queues s1 q' = queues st q'" "current_thread s1 = current_thread st"
    "m_locked s1 = m_locked st" by blast
  from Cons.IH [OF s1(2) Cons.prems(2) s1(4)] obtain s2 where "revive_all q s1 = Some s2" "flight_inv P c s2"
    "live s2 = live s1" "queues s2 q = []" "set (ready_queue s2) = set (ready_queue s1) \<union> set ws"
    "\<forall>q'. wait_queue q' \<longrightarrow> q' \<noteq> q \<longrightarrow> queues s2 q' = queues s1 q'" "current_thread s2 = current_thread s1"
    "m_locked s2 = m_locked s1" by blast
  with s1 Cons.prems(3) show ?case by (simp add: revive_all.simps [of q st])
qed

lemma cond_broadcast_wakes:
  assumes inv: "sched_inv st"
  shows "\<exists>st'. thread_cond_broadcast (Some c) st = Some (st', Ret 0 No_out) \<and> sched_inv st' \<and> live st' = live st \<and>
    queues st' (CondQ c) = [] \<and> set (ready_queue st') = set (ready_queue st) \<union> set (queues st (CondQ c)) \<and>
    (\<forall>q'. wait_queue q' \<longrightarrow> q' \<noteq> CondQ c \<longrightarrow> queues st' q' = queues st q') \<and>
    current_thread st' = current_thread st \<and> m_locked st' = m_locked st"
proof -
  have fl: "flight_inv {} (Some (current_thread st)) (block st)" using inv by (simp add: sched_inv_def)
  from revive_all_ok [OF fl _ refl, of "CondQ c"] obtain s1 where s1: "revive_all (CondQ c) (block st) = Some s1"
    "flight_inv {} (Some (current_thread st)) s1" "live s1 = live st" "queues s1 (CondQ c) = []"
    "set (ready_queue s1) = set (ready_queue st) \<union> set (queues st (CondQ c))"
    "\<forall>q'. wait_queue q' \<longrightarrow> q' \<noteq> CondQ c \<longrightarrow> queues s1 q' = queues st q'"
    "current_thread s1 = current_thread st" "m_locked s1 = m_locked st" by auto
  have "thread_cond_broadcast (Some c) st = Some (unblock s1, Ret 0 No_out)"
    using s1(1) by (simp add: thread_cond_broadcast_def Let_def)
  with s1 inv show ?thesis by (simp add: sched_inv_def)
qed

section \<open>Waiting\<close>

text \<open>Releasing the mutex keeps the flight invariant and follows the abstract lock.\<close>

lemma cond_release_ok:
  assumes inv: "flight_inv P c st"
  shows "\<exists>st'. cond_release m st = Some st' \<and> flight_inv P c st' \<and> live st' = live st \<and>
    current_thread st' = current_thread st \<and> queues st' (MutexQ m) = tl (queues st (MutexQ m)) \<and>
    set (ready_queue st') = set (ready_queue st) \<union> set (take 1 (queues st (MutexQ m))) \<and>
    (\<forall>q'. wait_queue q' \<longrightarrow> q' \<noteq> MutexQ m \<longrightarrow> queues st' q' = queues st q') \<and>
    m_locked st' = (if queues st (MutexQ m) = [] then (m_locked st)(m := 0) else m_locked st)"
proof (cases "queues st (MutexQ m)")
  case Nil
  with inv show ?thesis by (simp add: cond_release_def)
next
  case (Cons w ws)
  from revive_wake [OF inv Cons] show ?thesis by (auto simp: cond_release_def Cons)
qed

lemma cond_relock_ok:
  assumes inv: "sched_inv st"
  shows "\<exists>st' r. cond_relock ret ks m st = Some (st', r) \<and> sched_inv st' \<and> live st' = live st \<and>
    (r = Switched \<or> r = Ret ret No_out)"
  using lock_inv [OF inv, of "F_cond_relock ret # ks" "Some m"] by (auto simp: cond_relock_def)

lemma cond_wait_switch:
  assumes inv: "sched_inv st" and q: "ready_queue st = n # ns"
  shows "\<exists>st'. thread_cond_wait ks (Some c) (Some m) st = Some (st', Switched) \<and> sched_inv st' \<and> live st' = live st \<and>
    current_thread st' = n \<and> saved_ctx (thr st' (current_thread st)) = F_cond_wait m # ks \<and>
    queues st' (CondQ c) = queues st (CondQ c) @ [current_thread st] \<and>
    queues st' (MutexQ m) = tl (queues st (MutexQ m)) \<and>
    set (ready_queue st') = set ns \<union> set (take 1 (queues st (MutexQ m))) \<and>
    m_locked st' = (if queues st (MutexQ m) = [] then (m_locked st)(m := 0) else m_locked st)"
proof -
  let ?p = "current_thread st"
  have fl: "flight_inv {} (Some ?p) (block st)" and pl: "?p \<in> live st" using inv by (simp_all add: sched_inv_def)
  from flight_pick [OF fl] q obtain s1 where s1: "thread_scheduler_pick_next (block st) = Some (Some n, s1)"
    "flight_inv {n} (Some ?p) s1" "?p \<noteq> n" "queues s1 = (queues st)(ReadyQ := ns)" "live s1 = live st" by auto
  note fr = pick_frame [OF s1(1)]
  from cond_release_ok [OF s1(2), of m] obtain s2 where s2: "cond_release m s1 = Some s2"
    "flight_inv {n} (Some ?p) s2" "live s2 = live s1" "queues s2 (MutexQ m) = tl (queues s1 (MutexQ m))"
    "set (ready_queue s2) = set (ready_queue s1) \<union> set (take 1 (queues s1 (MutexQ m)))"
    "queues s2 (CondQ c) = queues s1 (CondQ c)"
    "m_locked s2 = (if queues s1 (MutexQ m) = [] then (m_locked s1)(m := 0) else m_locked s1)" by auto
  from park_and_switch [OF s2(2) _ s1(3), of "CondQ c" "F_cond_wait m # ks"] pl s1(5) s2(3) obtain s3 where
    s3: "tailq_insert_tail (CondQ c) ?p (set_state ?p THREAD_BLOCKED s2) = Some s3"
    "sched_inv (swap_thread ?p n (F_cond_wait m # ks) s3)"
    "queues s3 = (queues s2)(CondQ c := queues s2 (CondQ c) @ [?p])" "live s3 = live s2" "m_locked s3 = m_locked s2"
    by auto
  have "thread_cond_wait ks (Some c) (Some m) st = Some (swap_thread ?p n (F_cond_wait m # ks) s3, Switched)"
    using s1(1) s2(1) s3(1) by (simp add: thread_cond_wait_def Let_def swap_thread_def)
  moreover have "saved_ctx (thr (swap_thread ?p n (F_cond_wait m # ks) s3) ?p) = F_cond_wait m # ks"
    by (simp add: state_eqs)
  ultimately show ?thesis using s3 s2(3-7) s1(4,5) fr by auto
qed

lemma cond_wait_alone:
  assumes inv: "sched_inv st" and q: "ready_queue st = []"
  shows "\<exists>s1. cond_release m (block st) = Some s1 \<and> sched_inv s1 \<and>
    thread_cond_wait ks (Some c) (Some m) st = cond_relock (-1) ks m (unblock s1)"
proof -
  have fl: "flight_inv {} (Some (current_thread st)) (block st)" using inv by (simp add: sched_inv_def)
  from cond_release_ok [OF fl, of m] obtain s1 where s1: "cond_release m (block st) = Some s1"
    "flight_inv {} (Some (current_thread st)) s1" "live s1 = live st" "current_thread s1 = current_thread st" by auto
  then have "thread_cond_wait ks (Some c) (Some m) st = cond_relock (-1) ks m (unblock s1)"
    using q by (simp add: thread_cond_wait_def Let_def pick_next_empty)
  with s1 inv show ?thesis by (auto simp: sched_inv_def)
qed

lemma cond_wait_ok:
  assumes inv: "sched_inv st"
  shows "\<exists>st' r. thread_cond_wait ks cond mutex st = Some (st', r) \<and> sched_inv st'"
proof (cases "cond = None \<or> mutex = None")
  case True
  with inv show ?thesis by (cases cond; cases mutex) (auto simp: thread_cond_wait_def)
next
  case False
  then obtain c m where cm: "cond = Some c" "mutex = Some m" by auto
  show ?thesis
  proof (cases "ready_queue st")
    case Nil
    from cond_wait_alone [OF inv Nil, of m ks c] cm cond_relock_ok [of "unblock _" "-1" ks m]
    show ?thesis by (metis sched_inv_block(2))
  next
    case (Cons n ns)
    from cond_wait_switch [OF inv Cons, of ks c m] cm show ?thesis by blast
  qed
qed

end
