(* ===== verification/Semaphore.thy ===== *)
theory Semaphore
  imports Yielding
begin

text \<open>
  The counting semaphore of \<open>src/thread_sem.c\<close>: \<open>s_count\<close> is the field \<open>count\<close> (a C \<open>int\<close>; its
  overflow in \<open>count++\<close> is undefined), \<open>SemQ s\<close> the waiting queue.  The abstract value of a
  semaphore is its count minus the number of waiting threads; waiting takes one from it and
  posting adds one, whichever path the code takes.
\<close>

section \<open>Definitions\<close>

definition thread_sem_init :: "oid option \<Rightarrow> int \<Rightarrow> sys \<Rightarrow> result" where
  "thread_sem_init sem v st =
     (case sem of
        None \<Rightarrow> Some (st, Ret (-1) No_out)
      | Some s \<Rightarrow>
          if v < 0 then Some (st, Ret (-1) No_out)
          else
            (let st = st\<lparr>s_count := (s_count st)(s := v)\<rparr>;
                 st = tailq_init (SemQ s) st
             in Some (st, Ret 0 No_out)))"

definition thread_sem_destroy :: "oid option \<Rightarrow> sys \<Rightarrow> result" where
  "thread_sem_destroy sem st =
     (case sem of
        None \<Rightarrow> Some (st, Ret (-1) No_out)
      | Some s \<Rightarrow>
          if queues st (SemQ s) \<noteq> [] then Some (st, Ret (-1) No_out)
          else Some (st\<lparr>s_count := (s_count st)(s := 0)\<rparr>, Ret 0 No_out))"

definition thread_sem_wait :: "frame list \<Rightarrow> oid option \<Rightarrow> sys \<Rightarrow> result" where
  "thread_sem_wait ks sem st =
     (case sem of
        None \<Rightarrow> Some (st, Ret (-1) No_out)
      | Some s \<Rightarrow>
          (let st = block st
           in if s_count st s > 0 then
                Some (unblock (st\<lparr>s_count := (s_count st)(s := s_count st s - 1)\<rparr>), Ret 0 No_out)
              else
                (let prev = current_thread st
                 in do {
                   (nxt, st) \<leftarrow> thread_scheduler_pick_next st;
                   (case nxt of
                      None \<Rightarrow> Some (unblock st, Ret (-1) No_out)
                    | Some nxt \<Rightarrow> do {
                        st \<leftarrow> tailq_insert_tail (SemQ s) prev (set_state prev THREAD_BLOCKED st);
                        let st = st\<lparr>current_thread := nxt\<rparr>;
                        let st = set_state nxt THREAD_RUNNING st;
                        let st = fast_swap_context prev (F_sem_wait # ks) st;
                        Some (st, Switched)
                      })
                 })))"

definition thread_sem_post :: "oid option \<Rightarrow> sys \<Rightarrow> result" where
  "thread_sem_post sem st =
     (case sem of
        None \<Rightarrow> Some (st, Ret (-1) No_out)
      | Some s \<Rightarrow>
          (let st = block st
           in if queues st (SemQ s) \<noteq> [] then do {
                st \<leftarrow> revive (SemQ s) st;
                Some (unblock st, Ret 0 No_out)
              }
              else if s_count st s = INT_MAX then None
              else Some (unblock (st\<lparr>s_count := (s_count st)(s := s_count st s + 1)\<rparr>), Ret 0 No_out)))"

section \<open>Invariant and value\<close>

text \<open>Threads wait only while the count is zero; the count is never negative.\<close>

definition sem_inv :: "oid \<Rightarrow> sys \<Rightarrow> bool" where
  "sem_inv s st \<longleftrightarrow> 0 \<le> s_count st s \<and> s_count st s \<le> INT_MAX \<and>
     (queues st (SemQ s) \<noteq> [] \<longrightarrow> s_count st s = 0)"

definition sem_value :: "oid \<Rightarrow> sys \<Rightarrow> int" where
  "sem_value s st = s_count st s - int (length (queues st (SemQ s)))"

section \<open>Waiting\<close>

lemma sem_wait_fast:
  "s_count st s > 0 \<Longrightarrow> thread_sem_wait ks (Some s) st =
     Some (unblock ((block st)\<lparr>s_count := (s_count st)(s := s_count st s - 1)\<rparr>), Ret 0 No_out)"
  by (simp add: thread_sem_wait_def Let_def)

lemma sem_wait_alone:
  "s_count st s \<le> 0 \<Longrightarrow> ready_queue st = [] \<Longrightarrow>
   thread_sem_wait ks (Some s) st = Some (unblock (block st), Ret (-1) No_out)"
  by (simp add: thread_sem_wait_def Let_def pick_next_empty)

lemma sem_wait_block:
  assumes inv: "sched_inv st" and s: "s_count st s \<le> 0" and q: "ready_queue st = n # ns"
  shows "\<exists>st'. thread_sem_wait ks (Some s) st = Some (st', Switched) \<and> sched_inv st' \<and>
    current_thread st' = n \<and> saved_ctx (thr st' (current_thread st)) = F_sem_wait # ks \<and>
    queues st' = (queues st)(ReadyQ := ns, SemQ s := queues st (SemQ s) @ [current_thread st]) \<and>
    s_count st' = s_count st \<and> live st' = live st"
proof -
  let ?p = "current_thread st"
  have fl: "flight_inv {} (Some ?p) (block st)" and pl: "?p \<in> live st" using inv by (simp_all add: sched_inv_def)
  from flight_pick [OF fl] q obtain s1 where s1: "thread_scheduler_pick_next (block st) = Some (Some n, s1)"
    "flight_inv {n} (Some ?p) s1" "?p \<noteq> n" "queues s1 = (queues st)(ReadyQ := ns)" "live s1 = live st" by auto
  note fr = pick_frame [OF s1(1)]
  from park_and_switch [OF s1(2) _ s1(3), of "SemQ s" "F_sem_wait # ks"] pl s1(5) obtain s2 where
    s2: "tailq_insert_tail (SemQ s) ?p (set_state ?p THREAD_BLOCKED s1) = Some s2"
    "sched_inv (swap_thread ?p n (F_sem_wait # ks) s2)"
    "queues s2 = (queues s1)(SemQ s := queues s1 (SemQ s) @ [?p])" "live s2 = live s1" "s_count s2 = s_count s1"
    by (auto simp: wait_queue_def)
  have "thread_sem_wait ks (Some s) st = Some (swap_thread ?p n (F_sem_wait # ks) s2, Switched)"
    using s s1(1) s2(1) by (simp add: thread_sem_wait_def Let_def swap_thread_def)
  moreover have "saved_ctx (thr (swap_thread ?p n (F_sem_wait # ks) s2) ?p) = F_sem_wait # ks"
    by (simp add: state_eqs)
  ultimately show ?thesis using s2 s1(4,5) fr by simp
qed

lemma sem_wait_ok:
  assumes inv: "sched_inv st"
  shows "\<exists>st' r. thread_sem_wait ks sem st = Some (st', r) \<and> sched_inv st' \<and> live st' = live st \<and>
    (r = Switched \<or> r = Ret 0 No_out \<or> r = Ret (-1) No_out)"
proof (cases sem)
  case None
  with inv show ?thesis by (simp add: thread_sem_wait_def)
next
  case (Some s)
  consider "s_count st s > 0" | "s_count st s \<le> 0" "ready_queue st = []"
    | n ns where "s_count st s \<le> 0" "ready_queue st = n # ns"
    by (cases "s_count st s > 0"; cases "ready_queue st") auto
  then show ?thesis
  proof cases
    case 3
    from sem_wait_block [OF inv this, of ks] Some show ?thesis by auto
  qed (use Some inv in \<open>simp_all add: sem_wait_fast sem_wait_alone\<close>)
qed

section \<open>Posting\<close>

lemma sem_post_wake:
  assumes inv: "sched_inv st" and q: "queues st (SemQ s) = w # ws"
  shows "\<exists>st'. thread_sem_post (Some s) st = Some (st', Ret 0 No_out) \<and> sched_inv st' \<and> live st' = live st \<and>
    queues st' (SemQ s) = ws \<and> s_count st' = s_count st \<and> current_thread st' = current_thread st \<and>
    set (ready_queue st') = insert w (set (ready_queue st))"
proof -
  have fl: "flight_inv {} (Some (current_thread st)) (block st)" using inv by (simp add: sched_inv_def)
  from revive_wake [OF fl, of "SemQ s" w ws] q obtain s1 where s1: "revive (SemQ s) (block st) = Some s1"
    "flight_inv {} (Some (current_thread st)) s1" "live s1 = live st" "queues s1 (SemQ s) = ws"
    "set (ready_queue s1) = insert w (set (ready_queue st))" "current_thread s1 = current_thread st"
    "s_count s1 = s_count st" by (auto simp: wait_queue_def)
  have "thread_sem_post (Some s) st = Some (unblock s1, Ret 0 No_out)"
    using q s1(1) by (simp add: thread_sem_post_def Let_def)
  with s1 inv show ?thesis by (simp add: sched_inv_def)
qed

lemma sem_post_incr:
  "queues st (SemQ s) = [] \<Longrightarrow> s_count st s \<noteq> INT_MAX \<Longrightarrow> thread_sem_post (Some s) st =
     Some (unblock ((block st)\<lparr>s_count := (s_count st)(s := s_count st s + 1)\<rparr>), Ret 0 No_out)"
  by (simp add: thread_sem_post_def Let_def)

lemma sem_post_ok:
  assumes inv: "sched_inv st" and bound: "\<And>s. sem = Some s \<Longrightarrow> s_count st s < INT_MAX"
  shows "\<exists>st' r. thread_sem_post sem st = Some (st', r) \<and> sched_inv st' \<and> live st' = live st \<and>
    current_thread st' = current_thread st"
proof (cases sem)
  case None
  with inv show ?thesis by (simp add: thread_sem_post_def)
next
  case (Some s)
  show ?thesis
  proof (cases "queues st (SemQ s)")
    case Nil
    with Some bound inv show ?thesis by (simp add: sem_post_incr)
  next
    case (Cons w ws)
    from sem_post_wake [OF inv Cons] Some show ?thesis by auto
  qed
qed

section \<open>The value of a semaphore\<close>

lemma sem_wait_value:
  assumes inv: "sched_inv st" and si: "sem_inv s st" and w: "thread_sem_wait ks (Some s) st = Some (st', r)"
  shows "sem_inv s st' \<and>
    (if r = Ret (-1) No_out then sem_value s st \<le> 0 \<and> ready_queue st = [] \<and> sem_value s st' = sem_value s st
     else sem_value s st' = sem_value s st - 1 \<and>
       (r = Ret 0 No_out \<and> sem_value s st > 0 \<or> r = Switched \<and> sem_value s st \<le> 0))"
proof (cases "s_count st s > 0")
  case True
  then have "queues st (SemQ s) = []" using si by (auto simp: sem_inv_def)
  with True si w show ?thesis by (auto simp: sem_wait_fast sem_inv_def sem_value_def)
next
  case False
  show ?thesis
  proof (cases "ready_queue st")
    case Nil
    with False si w show ?thesis by (auto simp: sem_wait_alone sem_inv_def sem_value_def)
  next
    case (Cons n ns)
    from sem_wait_block [OF inv _ Cons, of s ks] False si w show ?thesis
      by (auto simp: sem_inv_def sem_value_def)
  qed
qed

lemma sem_post_value:
  assumes inv: "sched_inv st" and si: "sem_inv s st" and b: "sem_value s st < INT_MAX"
  shows "\<exists>st'. thread_sem_post (Some s) st = Some (st', Ret 0 No_out) \<and> sched_inv st' \<and> sem_inv s st' \<and>
    sem_value s st' = sem_value s st + 1"
proof (cases "queues st (SemQ s)")
  case Nil
  with si b inv show ?thesis by (auto simp: sem_post_incr sem_inv_def sem_value_def)
next
  case (Cons w ws)
  from sem_post_wake [OF inv Cons] Cons si show ?thesis by (auto simp: sem_inv_def sem_value_def)
qed

end
