(* ===== verification/Frame_Conditions.thy ===== *)
theory Frame_Conditions
  imports Yielding Cond_Var Semaphore
begin

text \<open>
  What the scheduler and the synchronisation objects leave alone.  \<open>rest\<close> blanks every field that
  such an operation may change; \<open>calm\<close> also says that threads which are neither running nor
  waiting in a queue keep their state, and that nobody but the caller can become blocked.
  The lifecycle, signal and memory invariants survive every calm operation.
\<close>

section \<open>Blanking\<close>

definition priv :: "thread \<Rightarrow> thread" where
  "priv x = x\<lparr>saved_ctx := [], entries := None, th_state := THREAD_READY, priority := 0,
                 in_ready_queue := False, in_zombie_queue := False\<rparr>"

definition rest :: "sys \<Rightarrow> sys" where
  "rest st = st\<lparr>thr := (\<lambda>t. priv (thr st t)), queues := (\<lambda>_. []), current_thread := 0, m_locked := (\<lambda>_. 0),
                s_count := (\<lambda>_. 0), sigmask := {}, errno := 0, unmasked := False, initialised := {}, bare_inits := {}\<rparr>"

lemma priv_upd [simp]:
  "priv (x\<lparr>saved_ctx := k\<rparr>) = priv x" "priv (x\<lparr>entries := q\<rparr>) = priv x"
  "priv (x\<lparr>th_state := s\<rparr>) = priv x" "priv (x\<lparr>priority := p\<rparr>) = priv x"
  "priv (x\<lparr>in_ready_queue := b\<rparr>) = priv x" "priv (x\<lparr>in_zombie_queue := b\<rparr>) = priv x"
  by (simp_all add: priv_def)

lemma priv_sel:
  assumes "priv x = priv y"
  shows "retval x = retval y" "stack_map x = stack_map y" "stack_base x = stack_base y"
    "joined_by x = joined_by y" "waiting_for x = waiting_for y" "head_joiner x = head_joiner y"
    "valgrind_stack_id x = valgrind_stack_id y" "stack_overflow x = stack_overflow y"
    "pending_signals x = pending_signals y" "blocked_signals x = blocked_signals y"
    "waited_signals x = waited_signals y" "waiting_for_signal x = waiting_for_signal y"
  using assms by (cases x; cases y; simp add: priv_def)+

lemma rest_upd_thread: "(\<And>x. priv (f x) = priv x) \<Longrightarrow> rest (upd_thread t f st) = rest st"
  by (simp add: rest_def upd_thread_def fun_eq_iff)

lemma rest_upd [simp]:
  "rest (st\<lparr>queues := q\<rparr>) = rest st" "rest (st\<lparr>current_thread := c\<rparr>) = rest st"
  "rest (st\<lparr>m_locked := l\<rparr>) = rest st" "rest (st\<lparr>s_count := n\<rparr>) = rest st"
  "rest (st\<lparr>sigmask := m\<rparr>) = rest st" "rest (st\<lparr>errno := e\<rparr>) = rest st"
  "rest (st\<lparr>unmasked := u\<rparr>) = rest st" "rest (st\<lparr>initialised := i\<rparr>) = rest st" "rest (st\<lparr>bare_inits := i\<rparr>) = rest st"
  by (simp_all add: rest_def)

lemma rest_block [simp]: "rest (block st) = rest st" "rest (unblock st) = rest st" "rest (touch_queues st) = rest st"
  by (simp_all add: block_eq unblock_eq touch_queues_eq)

lemma rest_thr: "rest st = rest st' \<Longrightarrow> priv (thr st t) = priv (thr st' t)"
  by (auto simp: rest_def dest!: arg_cong [where f = thr] fun_cong [where x = t])

lemma rest_sel:
  assumes "rest st = rest st'"
  shows "live st = live st'" "sched_policy st = sched_policy st'" "enable_preemption st = enable_preemption st'"
    "thread_pool st = thread_pool st'" "head_ref_chunks st = head_ref_chunks st'"
    "head_ref_chunks_ptr st = head_ref_chunks_ptr st'" "head_ref_active_chunk st = head_ref_active_chunk st'"
    "head_ref_active_index st = head_ref_active_index st'" "head_cells st = head_cells st'"
    "deferred_stacks st = deferred_stacks st'" "stack_pool st = stack_pool st'" "mapped st = mapped st'"
    "allocated st = allocated st'" "os_mmap st = os_mmap st'" "os_malloc st = os_malloc st'"
    "zombie_initialized st = zombie_initialized st'" "next_thread_id st = next_thread_id st'"
    "sigvtalrm_mask st = sigvtalrm_mask st'" "timer_us st = timer_us st'"
    "scheduler_initialized st = scheduler_initialized st'" "atexit_handlers st = atexit_handlers st'"
  using assms by (cases st; cases st'; simp add: rest_def)+

lemma rest_link: "tailq_link q t xs s = Some s' \<Longrightarrow> rest s' = rest s"
  by (auto simp: tailq_link_Some rest_def fun_eq_iff)

lemma rest_remove: "tailq_remove q t s = Some s' \<Longrightarrow> rest s' = rest s"
  by (auto simp: tailq_remove_Some rest_def fun_eq_iff)

lemma rest_enqueue:
  assumes "thread_scheduler_enqueue t s = Some s'" shows "rest s' = rest s"
proof -
  have "rest (upd_thread t (\<lambda>x. x\<lparr>in_ready_queue := True\<rparr>) s) = rest s" by (rule rest_upd_thread) simp
  with assms show ?thesis
    by (auto simp: thread_scheduler_enqueue_def tailq_insert_tail_def tailq_insert_before_def
        dest!: rest_link split: if_splits policy.splits option.splits)
qed

lemma rest_pick: "thread_scheduler_pick_next s = Some (n, s') \<Longrightarrow> rest s' = rest s"
  by (auto simp: thread_scheduler_pick_next_def rest_upd_thread dest!: rest_remove split: option.splits)

section \<open>Calm operations\<close>

definition touchable :: "sys \<Rightarrow> tid \<Rightarrow> bool" where
  "touchable st t \<longleftrightarrow> t = current_thread st \<or> entries (thr st t) \<noteq> None \<and> entries (thr st t) \<noteq> Some ZombieQ"

definition calm :: "sys \<Rightarrow> sys \<Rightarrow> bool" where
  "calm st0 st \<longleftrightarrow>
     rest st = rest st0 \<and> zombie_queue st = zombie_queue st0 \<and>
     (\<forall>t. \<not> touchable st0 t \<longrightarrow> (thr st t)\<lparr>priority := 0\<rparr> = (thr st0 t)\<lparr>priority := 0\<rparr>) \<and>
     (\<forall>t. t \<noteq> current_thread st0 \<longrightarrow> saved_ctx (thr st t) = saved_ctx (thr st0 t) \<and>
        (th_state (thr st t) = th_state (thr st0 t) \<or> th_state (thr st t) = THREAD_READY \<or>
         th_state (thr st t) = THREAD_RUNNING)) \<and>
     (\<forall>t. th_state (thr st t) = THREAD_TERMINATED \<longrightarrow> th_state (thr st0 t) = THREAD_TERMINATED)"

lemma calm_refl [simp]: "calm st st"
  by (simp add: calm_def)

lemma calm_upd_thread:
  assumes "calm s0 s" "touchable s0 t" "\<And>x. priv (f x) = priv x"
    and "t \<noteq> current_thread s0 \<Longrightarrow> (\<forall>x. saved_ctx (f x) = saved_ctx x \<and>
      (th_state (f x) = th_state x \<or> th_state (f x) = THREAD_READY \<or> th_state (f x) = THREAD_RUNNING))"
    and "\<And>x. th_state (f x) = THREAD_TERMINATED \<Longrightarrow> th_state x = THREAD_TERMINATED"
  shows "calm s0 (upd_thread t f s)"
proof -
  have "th_state (f (thr s t)) = th_state (thr s0 t) \<or> th_state (f (thr s t)) = THREAD_READY \<or>
      th_state (f (thr s t)) = THREAD_RUNNING" if "t \<noteq> current_thread s0"
    using assms(1) assms(4) [OF that] that unfolding calm_def by metis
  with assms show ?thesis by (auto simp: calm_def rest_upd_thread) (auto simp: upd_thread_def split: if_splits)
qed

lemma calm_priority:
  "calm s0 s \<Longrightarrow> calm s0 (upd_thread t (\<lambda>x. x\<lparr>priority := p x\<rparr>) s)"
  by (auto simp: calm_def rest_upd_thread) (auto simp: upd_thread_def split: if_splits)

lemma calm_upd [simp]:
  "calm s0 (s\<lparr>current_thread := c\<rparr>) = calm s0 s" "calm s0 (s\<lparr>m_locked := l\<rparr>) = calm s0 s"
  "calm s0 (s\<lparr>s_count := n\<rparr>) = calm s0 s" "calm s0 (s\<lparr>sigmask := m\<rparr>) = calm s0 s"
  "calm s0 (s\<lparr>errno := e\<rparr>) = calm s0 s" "calm s0 (s\<lparr>unmasked := u\<rparr>) = calm s0 s"
  "calm s0 (s\<lparr>initialised := i\<rparr>) = calm s0 s" "calm s0 (s\<lparr>bare_inits := i\<rparr>) = calm s0 s"
  "calm s0 (block s) = calm s0 s" "calm s0 (unblock s) = calm s0 s"
  by (simp_all add: calm_def block_eq unblock_eq)

lemma calm_from_block [simp]: "calm (block s0) s = calm s0 s" "calm (unblock s0) s = calm s0 s"
  by (simp_all add: calm_def touchable_def)

lemma calm_link:
  assumes "calm s0 s" "touchable s0 t" "q \<noteq> ZombieQ" "tailq_link q t xs s = Some s'"
  shows "calm s0 s'"
proof -
  let ?u = "s\<lparr>queues := (queues s)(q := xs), unmasked := unmasked s \<or> preemptible s\<rparr>"
  have "calm s0 ?u" using assms(1,3) by (auto simp: calm_def)
  then have "calm s0 (upd_thread t (\<lambda>x. x\<lparr>entries := Some q\<rparr>) ?u)" by (rule calm_upd_thread) (simp_all add: assms)
  moreover have "s' = upd_thread t (\<lambda>x. x\<lparr>entries := Some q\<rparr>) ?u"
    using assms(4) by (simp add: tailq_link_Some upd_thread_def)
  ultimately show ?thesis by simp
qed

lemma calm_insert_tail:
  "calm s0 s \<Longrightarrow> touchable s0 t \<Longrightarrow> q \<noteq> ZombieQ \<Longrightarrow> tailq_insert_tail q t s = Some s' \<Longrightarrow> calm s0 s'"
  by (simp add: tailq_insert_tail_def calm_link)

lemma calm_insert_before:
  "calm s0 s \<Longrightarrow> touchable s0 t \<Longrightarrow> q \<noteq> ZombieQ \<Longrightarrow> tailq_insert_before q c t s = Some s' \<Longrightarrow> calm s0 s'"
  by (auto simp: tailq_insert_before_def split: if_splits intro: calm_link)

lemma calm_remove:
  assumes "calm s0 s" "q \<noteq> ZombieQ" "tailq_remove q t s = Some s'"
  shows "calm s0 s' \<and> touchable s0 t"
proof -
  let ?u = "s\<lparr>queues := (queues s)(q := remove1 t (queues s q)), unmasked := unmasked s \<or> preemptible s\<rparr>"
  have e: "entries (thr s t) = Some q" using assms(3) by (simp add: tailq_remove_Some)
  have tt: "touchable s0 t"
  proof (rule ccontr)
    assume n: "\<not> touchable s0 t"
    then have "(thr s t)\<lparr>priority := 0\<rparr> = (thr s0 t)\<lparr>priority := 0\<rparr>" using assms(1) by (simp add: calm_def)
    from arg_cong [OF this, of entries] have "entries (thr s0 t) = Some q" using e by simp
    with assms(2) n show False by (simp add: touchable_def)
  qed
  have "calm s0 ?u" using assms(1,2) by (auto simp: calm_def)
  then have "calm s0 (upd_thread t (\<lambda>x. x\<lparr>entries := None\<rparr>) ?u)" by (rule calm_upd_thread) (simp_all add: tt)
  moreover have "s' = upd_thread t (\<lambda>x. x\<lparr>entries := None\<rparr>) ?u"
    using assms(3) by (simp add: tailq_remove_Some upd_thread_def)
  ultimately show ?thesis using tt by simp
qed

lemma calm_enqueue:
  assumes "calm s0 s" "touchable s0 t" "thread_scheduler_enqueue t s = Some s'"
  shows "calm s0 s'"
proof -
  have "calm s0 (upd_thread t (\<lambda>x. x\<lparr>in_ready_queue := True\<rparr>) s)" by (rule calm_upd_thread) (simp_all add: assms)
  with assms show ?thesis
    by (auto simp: thread_scheduler_enqueue_def split: if_splits policy.splits option.splits
        intro: calm_insert_tail calm_insert_before)
qed

lemma calm_pick:
  assumes "calm s0 s" "thread_scheduler_pick_next s = Some (n, s')"
  shows "calm s0 s' \<and> (\<forall>t. n = Some t \<longrightarrow> touchable s0 t)"
proof (cases n)
  case None
  with assms show ?thesis by (auto simp: thread_scheduler_pick_next_def split: option.splits)
next
  case (Some t)
  with assms obtain s1 where s1: "tailq_remove ReadyQ t s = Some s1"
    "s' = upd_thread t (\<lambda>x. x\<lparr>in_ready_queue := False\<rparr>) s1"
    by (auto simp: thread_scheduler_pick_next_def split: option.splits)
  from calm_remove [OF assms(1) _ s1(1)] have "calm s0 s1" "touchable s0 t" by simp_all
  then show ?thesis unfolding s1(2) Some by (auto intro!: calm_upd_thread)
qed

lemma calm_set_state:
  "calm s0 s \<Longrightarrow> touchable s0 t \<Longrightarrow> t = current_thread s0 \<or> x = THREAD_READY \<or> x = THREAD_RUNNING \<Longrightarrow>
   x \<noteq> THREAD_TERMINATED \<Longrightarrow> calm s0 (set_state t x s)"
  by (rule calm_upd_thread) auto

lemma calm_swap:
  assumes "calm s0 s" "touchable s0 n"
  shows "calm s0 (swap_thread (current_thread s0) n ks s)"
  unfolding swap_thread_def fast_swap_context_def Let_def
  by (rule calm_upd_thread [OF calm_set_state]) (simp_all add: assms, simp add: touchable_def)

lemma calm_revive:
  assumes "calm s0 s" "q \<noteq> ZombieQ" "revive q s = Some s'"
  shows "calm s0 s'"
proof (cases "tailq_first q s")
  case None
  with assms show ?thesis by (simp add: revive_def)
next
  case (Some t)
  with assms(3) obtain s1 where s1: "tailq_remove q t s = Some s1"
    "thread_scheduler_enqueue t (set_state t THREAD_READY s1) = Some s'" by (auto simp: revive_def)
  from calm_remove [OF assms(1,2) s1(1)] have "calm s0 s1" "touchable s0 t" by simp_all
  then show ?thesis using s1(2) calm_enqueue [OF calm_set_state] by blast
qed

lemma revive_current: "revive q s = Some s' \<Longrightarrow> current_thread s' = current_thread s"
  by (auto simp: revive_def tailq_remove_Some upd_thread_def dest!: enqueue_frame(1) split: option.splits)

section \<open>The operations are calm\<close>

text \<open>A call either returns in the same thread or leaves the caller suspended with the frames \<open>F\<close>
  on top of those of its callers.\<close>

definition calm_call :: "frame list set \<Rightarrow> frame list \<Rightarrow> sys \<Rightarrow> sys \<Rightarrow> outcome \<Rightarrow> bool" where
  "calm_call F ks st st' r \<longleftrightarrow> calm st st' \<and>
     (case r of
        Ret _ _ \<Rightarrow> current_thread st' = current_thread st
      | Switched \<Rightarrow> current_thread st' \<noteq> current_thread st \<and>
          (\<exists>k \<in> F. saved_ctx (thr st' (current_thread st)) = k @ ks)
      | _ \<Rightarrow> False)"

lemma calm_call_Ret: "calm st st' \<Longrightarrow> current_thread st' = current_thread st \<Longrightarrow> calm_call F ks st st' (Ret i v)"
  by (simp add: calm_call_def)

lemma calm_call_mono: "calm_call F ks st st' r \<Longrightarrow> F \<subseteq> F' \<Longrightarrow> calm_call F' ks st st' r"
  by (auto simp: calm_call_def split: outcome.splits)

lemma calm_call_swap:
  assumes "calm s0 s" "touchable s0 n" "n \<noteq> current_thread s0" "k \<in> F"
  shows "calm_call F ks s0 (swap_thread (current_thread s0) n (k @ ks) s) Switched"
  using assms calm_swap [OF assms(1,2), of "k @ ks"] by (auto simp: calm_call_def swap_thread_eq)

lemma pick_not_current:
  assumes "sched_inv st" "thread_scheduler_pick_next st = Some (Some n, st')"
  shows "n \<noteq> current_thread st"
  using assms sched_inv_current(3) [OF assms(1), of ReadyQ]
  by (auto simp: thread_scheduler_pick_next_def tailq_first_def split: list.splits)

lemma calm_age_waiting: "queues_ok s \<Longrightarrow> calm s (age_waiting s)"
  by (simp add: calm_def rest_def age_waiting_eq fun_eq_iff touchable_def)

lemma calm_aged:
  assumes "sched_inv st" shows "calm st (aged st)"
proof -
  have "calm st (age_waiting st)" using assms by (simp add: calm_age_waiting sched_inv_queues_ok)
  then show ?thesis
    using calm_priority [of st "age_waiting st" "current_thread st" "\<lambda>x. lowered (priority x)"]
    by (auto simp: aged_def age_running_eq upd_thread_def)
qed

lemma yield_calm:
  assumes inv: "sched_inv st" and y: "thread_yield ks st = Some (st', r)"
  shows "calm_call {[F_yield]} ks st st' r"
proof -
  let ?a = "aged (block st)" and ?p = "current_thread st"
  have ia: "sched_inv ?a" using sched_inv_aged [of "block st"] inv by simp
  have sel: "current_thread ?a = ?p" using aged_sel(1) [of "block st"] inv by simp
  have ca: "calm st ?a" using calm_aged [of "block st"] inv by simp
  from y obtain n s1 where p: "thread_scheduler_pick_next ?a = Some (n, s1)"
    by (auto simp: yield_aged Let_def)
  from calm_pick [OF ca p] have c1: "calm st s1" and tn: "\<And>t. n = Some t \<Longrightarrow> touchable st t" by auto
  have cur: "current_thread s1 = ?p" using pick_frame(1) [OF p] sel by simp
  show ?thesis
  proof (cases n)
    case None
    with y p c1 cur show ?thesis by (auto simp: yield_aged Let_def intro!: calm_call_Ret)
  next
    case (Some t)
    have t: "t \<noteq> ?p" "touchable st t" using pick_not_current [OF ia p [unfolded Some]] tn Some sel by auto
    have tp: "touchable st ?p" by (simp add: touchable_def)
    show ?thesis
    proof (cases "sched_policy s1 = THREAD_SCHED_PRIO \<and> prio s1 t \<le> prio s1 ?p")
      case True
      with y p Some t obtain s2 where s2: "thread_scheduler_enqueue t (unblock s1) = Some s2" "st' = s2" "r = Ret 0 No_out"
        by (auto simp: yield_aged Let_def)
      have "calm st s2" using calm_enqueue [OF _ t(2) s2(1)] c1 by simp
      then show ?thesis using s2 enqueue_frame(1) [OF s2(1)] cur by (simp add: calm_call_Ret)
    next
      case False
      with y p Some t obtain s2 where s2: "(if th_state (thr s1 ?p) = THREAD_RUNNING
          then thread_scheduler_enqueue ?p (set_state ?p THREAD_READY s1) else Some s1) = Some s2"
        "st' = swap_thread ?p t ([F_yield] @ ks) s2" "r = Switched" by (auto simp: yield_aged Let_def)
      have "calm st s2"
        using s2(1) c1 calm_enqueue [OF calm_set_state [OF c1 tp] tp] by (auto split: if_splits)
      then show ?thesis unfolding s2(2,3) by (intro calm_call_swap) (use t in auto)
    qed
  qed
qed

lemma calm_call_from_block [simp]:
  "calm_call F ks (block st) st' r = calm_call F ks st st' r" "calm_call F ks (unblock st) st' r = calm_call F ks st st' r"
  by (cases r; simp add: calm_call_def)+

lemma calm_trans:
  assumes ab: "calm a b" and bc: "calm b c" and cur: "current_thread b = current_thread a"
  shows "calm a c"
proof -
  have un: "\<not> touchable b t" if t: "\<not> touchable a t" for t
  proof -
    have "(thr b t)\<lparr>priority := 0\<rparr> = (thr a t)\<lparr>priority := 0\<rparr>" using ab t by (simp add: calm_def)
    from arg_cong [OF this, of entries] have "entries (thr b t) = entries (thr a t)" by simp
    with t cur show ?thesis by (simp add: touchable_def)
  qed
  have st: "th_state (thr c t) = th_state (thr a t) \<or> th_state (thr c t) = THREAD_READY \<or>
      th_state (thr c t) = THREAD_RUNNING" if "t \<noteq> current_thread a" for t
    using ab bc cur that unfolding calm_def by metis
  show ?thesis unfolding calm_def
    using ab bc cur st un by (auto simp: calm_def)
qed

lemma calm_call_trans:
  "calm a b \<Longrightarrow> current_thread b = current_thread a \<Longrightarrow> calm_call F ks b st' r \<Longrightarrow> calm_call F ks a st' r"
  using calm_trans by (cases r) (auto simp: calm_call_def)

lemma yield_to_calm:
  assumes inv: "sched_inv st" and y: "thread_yield_to ks t st = Some (st', r)"
  shows "calm_call {[F_yield], [F_yield_to]} ks st st' r"
proof (cases t)
  case None
  with y show ?thesis by (auto simp: thread_yield_to_def intro!: calm_call_Ret)
next
  case (Some x)
  let ?p = "current_thread st"
  have tp: "touchable st ?p" by (simp add: touchable_def)
  show ?thesis
  proof (cases "th_state (thr st x) = THREAD_READY")
    case False
    with y Some have "thread_yield ks (unblock (block st)) = Some (st', r)" by (simp add: thread_yield_to_def)
    from yield_calm [OF _ this] inv show ?thesis by (auto elim: calm_call_mono)
  next
    case True
    with y Some obtain s1 s2 where s: "thread_scheduler_enqueue ?p (set_state ?p THREAD_READY (block st)) = Some s1"
      "tailq_remove ReadyQ x s1 = Some s2" "r = Switched"
      "st' = swap_thread ?p x ([F_yield_to] @ ks) (upd_thread x (\<lambda>x. x\<lparr>in_ready_queue := False\<rparr>) s2)"
      by (auto simp: thread_yield_to_def Let_def)
    have "calm st (set_state ?p THREAD_READY (block st))" by (rule calm_set_state) (simp_all add: tp)
    from calm_remove [OF calm_enqueue [OF this tp s(1)] _ s(2)] have c: "calm st s2" "touchable st x" by auto
    have "calm st (upd_thread x (\<lambda>x. x\<lparr>in_ready_queue := False\<rparr>) s2)"
      by (rule calm_upd_thread) (simp_all add: c)
    moreover have "x \<noteq> ?p" using True sched_inv_current(1) [OF inv] by auto
    ultimately show ?thesis unfolding s(3,4) by (intro calm_call_swap) (use c in auto)
  qed
qed

lemma set_priority_calm:
  assumes inv: "sched_inv st" and t: "\<And>x. t = Some x \<Longrightarrow> x \<in> live st"
    and y: "thread_set_priority ks t p st = Some (st', r)"
  shows "calm_call {[F_yield], [F_yield_to]} ks st st' r"
proof (cases t)
  case None
  with y show ?thesis by (auto simp: thread_set_priority_def intro!: calm_call_Ret)
next
  case (Some x)
  let ?u = "upd_thread x (\<lambda>x. x\<lparr>priority := clamp_priority p\<rparr>) (block st)"
  have cu: "calm st ?u" by (rule calm_priority) simp
  show ?thesis
  proof (cases "sched_policy st = THREAD_SCHED_PRIO \<and> th_state (thr st x) = THREAD_READY")
    case False
    with y Some have "st' = unblock ?u" "r = Ret 0 No_out"
      by (auto simp: thread_set_priority_def Let_def upd_thread_def split: if_splits)
    then show ?thesis using cu by (simp add: calm_call_Ret) (simp add: calm_call_def upd_thread_def)
  next
    case True
    have wf: "thread_wf (x = current_thread st) (thr st x)" using sched_inv_wf [OF inv t [OF Some]] .
    with True have "entries (thr st x) = Some ReadyQ" by (simp add: thread_wf_def)
    then have "x \<in> set (ready_queue st)" using queues_ok_mem [OF sched_inv_queues_ok [OF inv]] by simp
    from set_priority_ready [OF inv conjunct1 [OF True] this] obtain s1 s2 where s:
      "tailq_remove ReadyQ x ?u = Some s1"
      "thread_scheduler_enqueue x (upd_thread x (\<lambda>x. x\<lparr>in_ready_queue := False\<rparr>) s1) = Some s2" "sched_inv s2"
      "current_thread s2 = current_thread st" by blast
    from calm_remove [OF cu _ s(1)] have c1: "calm st s1" "touchable st x" by auto
    have "calm st (upd_thread x (\<lambda>x. x\<lparr>in_ready_queue := False\<rparr>) s1)" by (rule calm_upd_thread) (simp_all add: c1)
    from calm_enqueue [OF this c1(2) s(2)] have c2: "calm st s2" .
    show ?thesis
    proof (cases "x \<noteq> current_thread s2 \<and> prio s2 x > prio s2 (current_thread s2)")
      case False
      with y Some True s have "st' = unblock s2" "r = Ret 0 No_out"
        by (auto simp: thread_set_priority_def Let_def upd_thread_def)
      then show ?thesis using c2 s(4) by (simp add: calm_call_Ret)
    next
      case yt: True
      with y Some True s have "thread_yield_to ks (Some x) (unblock s2) = Some (st', r)"
        by (auto simp: thread_set_priority_def Let_def upd_thread_def)
      from yield_to_calm [OF _ this] s(3) have c3: "calm_call {[F_yield], [F_yield_to]} ks s2 st' r" by simp
      show ?thesis using calm_call_trans [OF c2 s(4) c3] .
    qed
  qed
qed

lemma calm_park:
  assumes "calm st s1" "touchable st t" "t \<noteq> current_thread st" "q \<noteq> ZombieQ" "k \<in> F"
    and "tailq_insert_tail q (current_thread st) (set_state (current_thread st) THREAD_BLOCKED s1) = Some s2"
  shows "calm_call F ks st (swap_thread (current_thread st) t (k @ ks) s2) Switched"
proof -
  have tp: "touchable st (current_thread st)" by (simp add: touchable_def)
  have "calm st (set_state (current_thread st) THREAD_BLOCKED s1)" by (rule calm_set_state) (simp_all add: assms tp)
  from calm_insert_tail [OF this tp assms(4,6)] show ?thesis by (intro calm_call_swap) (use assms in auto)
qed

lemma mutex_lock_calm:
  assumes inv: "sched_inv st" and y: "thread_mutex_lock ks m st = Some (st', r)"
  shows "calm_call {[F_mutex_lock]} ks st st' r"
proof (cases "\<exists>x. m = Some x \<and> m_locked st x \<noteq> -1 \<and> m_locked st x \<noteq> 0")
  case False
  with y show ?thesis
    by (auto simp: thread_mutex_lock_def Let_def split: option.splits intro!: calm_call_Ret)
next
  case True
  let ?p = "current_thread st"
  from True y obtain x n s1 where x: "m = Some x" "m_locked st x \<noteq> -1" "m_locked st x \<noteq> 0"
    "thread_scheduler_pick_next (block st) = Some (n, s1)" by (auto simp: thread_mutex_lock_def Let_def)
  from calm_pick [OF _ x(4), of st] have c1: "calm st s1" "\<And>t. n = Some t \<Longrightarrow> touchable st t" by auto
  show ?thesis
  proof (cases n)
    case None
    with x y c1 pick_frame(1) [OF x(4)] show ?thesis by (auto simp: thread_mutex_lock_def Let_def intro!: calm_call_Ret)
  next
    case (Some t)
    with x y obtain s2 where s2: "tailq_insert_tail (MutexQ x) ?p (set_state ?p THREAD_BLOCKED s1) = Some s2"
      "st' = swap_thread ?p t ([F_mutex_lock] @ ks) s2" "r = Switched" by (auto simp: thread_mutex_lock_def Let_def)
    have "t \<noteq> ?p" using pick_not_current [of "block st"] inv x(4) Some by simp
    then show ?thesis unfolding s2(2,3) by (intro calm_park) (use c1 Some s2(1) in auto)
  qed
qed

lemma mutex_unlock_calm:
  assumes "thread_mutex_unlock m st = Some (st', r)"
  shows "calm_call F ks st st' r"
proof (cases "\<exists>x. m = Some x \<and> m_locked st x \<noteq> -1 \<and> m_locked st x \<noteq> 0 \<and> queues st (MutexQ x) \<noteq> []")
  case False
  with assms show ?thesis
    by (auto simp: thread_mutex_unlock_def Let_def split: option.splits if_splits intro!: calm_call_Ret)
next
  case True
  with assms obtain x s1 where s1: "revive (MutexQ x) (block st) = Some s1" "st' = unblock s1" "r = Ret 0 No_out"
    by (auto simp: thread_mutex_unlock_def Let_def)
  from calm_revive [OF _ _ s1(1), of st] revive_current [OF s1(1)] s1(2,3) show ?thesis
    by (auto intro!: calm_call_Ret)
qed

lemma sem_wait_calm:
  assumes inv: "sched_inv st" and y: "thread_sem_wait ks m st = Some (st', r)"
  shows "calm_call {[F_sem_wait]} ks st st' r"
proof (cases "\<exists>x. m = Some x \<and> \<not> s_count st x > 0")
  case False
  with y show ?thesis
    by (auto simp: thread_sem_wait_def Let_def split: option.splits intro!: calm_call_Ret)
next
  case True
  let ?p = "current_thread st"
  from True y obtain x n s1 where x: "m = Some x" "\<not> s_count st x > 0"
    "thread_scheduler_pick_next (block st) = Some (n, s1)" by (auto simp: thread_sem_wait_def Let_def)
  from calm_pick [OF _ x(3), of st] have c1: "calm st s1" "\<And>t. n = Some t \<Longrightarrow> touchable st t" by auto
  show ?thesis
  proof (cases n)
    case None
    with x y c1 pick_frame(1) [OF x(3)] show ?thesis by (auto simp: thread_sem_wait_def Let_def intro!: calm_call_Ret)
  next
    case (Some t)
    with x y obtain s2 where s2: "tailq_insert_tail (SemQ x) ?p (set_state ?p THREAD_BLOCKED s1) = Some s2"
      "st' = swap_thread ?p t ([F_sem_wait] @ ks) s2" "r = Switched"
      by (auto simp: thread_sem_wait_def Let_def swap_thread_def)
    have "t \<noteq> ?p" using pick_not_current [of "block st"] inv x(3) Some by simp
    then show ?thesis unfolding s2(2,3) by (intro calm_park) (use c1 Some s2(1) in auto)
  qed
qed

lemma sem_post_calm:
  assumes "thread_sem_post m st = Some (st', r)"
  shows "calm_call F ks st st' r"
proof (cases "\<exists>x. m = Some x \<and> queues st (SemQ x) \<noteq> []")
  case False
  with assms show ?thesis
    by (auto simp: thread_sem_post_def Let_def split: option.splits if_splits intro!: calm_call_Ret)
next
  case True
  with assms obtain x s1 where s1: "revive (SemQ x) (block st) = Some s1" "st' = unblock s1" "r = Ret 0 No_out"
    by (auto simp: thread_sem_post_def Let_def)
  from calm_revive [OF _ _ s1(1), of st] revive_current [OF s1(1)] s1(2,3) show ?thesis
    by (auto intro!: calm_call_Ret)
qed

lemma calm_release:
  assumes "calm s0 s" "cond_release m s = Some s'"
  shows "calm s0 s' \<and> current_thread s' = current_thread s"
  using assms calm_revive [of s0 s "MutexQ m"] revive_current [of "MutexQ m" s]
  by (auto simp: cond_release_def split: if_splits)

lemma cond_relock_calm:
  assumes "sched_inv st" "cond_relock i ks m st = Some (st', r)"
  shows "calm_call {[F_mutex_lock, F_cond_relock i]} ks st st' r"
proof -
  from assms(2) obtain s r' where s: "thread_mutex_lock (F_cond_relock i # ks) (Some m) st = Some (s, r')"
    "(case r' of Ret _ _ \<Rightarrow> Some (s, Ret i No_out) | _ \<Rightarrow> Some (s, r')) = Some (st', r)"
    by (auto simp: cond_relock_def)
  from mutex_lock_calm [OF assms(1) s(1)] s(2) show ?thesis
    by (cases r') (auto simp: calm_call_def)
qed

lemma cond_wait_calm:
  assumes inv: "sched_inv st" and y: "thread_cond_wait ks c m st = Some (st', r)"
  shows "calm_call ({[F_mutex_lock, F_cond_relock (-1)]} \<union> {[F_cond_wait x] | x. True}) ks st st' r"
proof (cases "c = None \<or> m = None")
  case True
  with y show ?thesis by (auto simp: thread_cond_wait_def split: option.splits intro!: calm_call_Ret)
next
  case False
  let ?p = "current_thread st"
  from False y obtain x q n s1 s2 where x: "m = Some x" "c = Some q"
    "thread_scheduler_pick_next (block st) = Some (n, s1)" "cond_release x s1 = Some s2"
    by (auto simp: thread_cond_wait_def Let_def)
  from calm_pick [OF _ x(3), of st] have c1: "calm st s1" "\<And>t. n = Some t \<Longrightarrow> touchable st t" by auto
  from calm_release [OF c1(1) x(4)] have c2: "calm st s2" "current_thread s2 = ?p"
    using pick_frame(1) [OF x(3)] by auto
  show ?thesis
  proof (cases n)
    case None
    with x y have rl: "cond_relock (-1) ks x (unblock s2) = Some (st', r)" by (simp add: thread_cond_wait_def Let_def)
    have "s1 = block st" using x(3) None by (auto simp: thread_scheduler_pick_next_def split: option.splits)
    then have "flight_inv {} (Some ?p) s1" "?p \<in> live s1" using inv by (auto simp: sched_inv_def)
    with cond_release_ok [of "{}" "Some ?p" s1 x] x(4) c2(2) have "sched_inv s2" by (auto simp: sched_inv_def)
    with cond_relock_calm [OF _ rl] have "calm_call {[F_mutex_lock, F_cond_relock (-1)]} ks s2 st' r" by simp
    from calm_call_mono [OF calm_call_trans [OF c2 this]] show ?thesis by blast
  next
    case (Some t)
    with x y obtain s3 where s3: "tailq_insert_tail (CondQ q) ?p (set_state ?p THREAD_BLOCKED s2) = Some s3"
      "st' = swap_thread ?p t ([F_cond_wait x] @ ks) s3" "r = Switched"
      by (auto simp: thread_cond_wait_def Let_def swap_thread_def)
    have "t \<noteq> ?p" using pick_not_current [of "block st"] inv x(3) Some by simp
    then show ?thesis unfolding s3(2,3) by (intro calm_park) (use c1 c2 Some s3(1) in auto)
  qed
qed

lemma cond_signal_calm:
  assumes "thread_cond_signal c st = Some (st', r)"
  shows "calm_call F ks st st' r"
proof (cases "\<exists>x. c = Some x \<and> queues st (CondQ x) \<noteq> []")
  case False
  with assms show ?thesis
    by (auto simp: thread_cond_signal_def Let_def split: option.splits if_splits intro!: calm_call_Ret)
next
  case True
  with assms obtain x s1 where s1: "revive (CondQ x) (block st) = Some s1" "st' = unblock s1" "r = Ret 0 No_out"
    by (auto simp: thread_cond_signal_def Let_def)
  from calm_revive [OF _ _ s1(1), of st] revive_current [OF s1(1)] s1(2,3) show ?thesis
    by (auto intro!: calm_call_Ret)
qed

lemma revive_all_calm:
  assumes "revive_all q s = Some s'" "q \<noteq> ZombieQ" "calm s0 s"
  shows "calm s0 s' \<and> current_thread s' = current_thread s"
proof -
  have "q \<noteq> ZombieQ \<longrightarrow> calm s0 s \<longrightarrow> calm s0 s' \<and> current_thread s' = current_thread s"
  proof (rule revive_all.raw_induct [OF _ assms(1)])
    fix rec :: "qid \<Rightarrow> sys \<Rightarrow> sys option" and q s s'
    assume IH: "\<And>q s s'. rec q s = Some s' \<Longrightarrow>
        q \<noteq> ZombieQ \<longrightarrow> calm s0 s \<longrightarrow> calm s0 s' \<and> current_thread s' = current_thread s"
      and b: "(if queues s q \<noteq> [] then do { s \<leftarrow> revive q s; rec q s } else Some s) = Some s'"
    show "q \<noteq> ZombieQ \<longrightarrow> calm s0 s \<longrightarrow> calm s0 s' \<and> current_thread s' = current_thread s"
    proof (cases "queues s q = []")
      case True
      with b show ?thesis by simp
    next
      case False
      with b obtain s1 where s1: "revive q s = Some s1" "rec q s1 = Some s'" by auto
      show ?thesis using IH [OF s1(2)] calm_revive [OF _ _ s1(1)] revive_current [OF s1(1)] by auto
    qed
  qed
  with assms show ?thesis by blast
qed

lemma cond_broadcast_calm:
  assumes "thread_cond_broadcast c st = Some (st', r)"
  shows "calm_call F ks st st' r"
proof (cases c)
  case None
  with assms show ?thesis by (auto simp: thread_cond_broadcast_def intro!: calm_call_Ret)
next
  case (Some x)
  with assms obtain s1 where s1: "revive_all (CondQ x) (block st) = Some s1" "st' = unblock s1" "r = Ret 0 No_out"
    by (auto simp: thread_cond_broadcast_def Let_def)
  from revive_all_calm [OF s1(1), of st] s1(2,3) show ?thesis by (auto intro!: calm_call_Ret)
qed

end
