(* ===== verification/Lifecycle.thy ===== *)
theory Lifecycle
  imports Thread_Memory Thread_Signal Frame_Conditions
begin

text \<open>
  What \<open>thread_create\<close>, \<open>thread_exit\<close> and \<open>thread_join\<close> do to a well-formed state.
\<close>

section \<open>The join relation\<close>

text \<open>A thread that has a joiner knows it and is known by it.  While the thread has not terminated,
  its joiner is blocked outside every queue; afterwards the joiner has been made ready, and the
  thread stays out of the zombie queue until the joiner reaps it.\<close>

definition join_link :: "sys \<Rightarrow> tid \<Rightarrow> tid \<Rightarrow> bool" where
  "join_link st t j \<longleftrightarrow> j \<in> live st \<and> j \<noteq> t \<and> waiting_for (thr st j) = Some t \<and>
     (if th_state (thr st t) = THREAD_TERMINATED
      then entries (thr st t) = None \<and> (th_state (thr st j) = THREAD_READY \<or> th_state (thr st j) = THREAD_RUNNING)
      else th_state (thr st j) = THREAD_BLOCKED \<and> entries (thr st j) = None \<and> \<not> waiting_for_signal (thr st j))"

text \<open>The structure of the main thread is never released, so its \<open>joined_by\<close> field outlives the join.\<close>

definition join_done :: "sys \<Rightarrow> tid \<Rightarrow> bool" where
  "join_done st t \<longleftrightarrow> t = main_thread \<and> th_state (thr st t) = THREAD_TERMINATED \<and>
     (\<forall>u \<in> live st. waiting_for (thr st u) \<noteq> Some t)"

definition join_inv :: "sys \<Rightarrow> bool" where
  "join_inv st \<longleftrightarrow>
     (\<forall>t \<in> live st. \<forall>j. joined_by (thr st t) = Some j \<longrightarrow> join_link st t j \<or> join_done st t) \<and>
     (\<forall>j \<in> live st. \<forall>t. waiting_for (thr st j) = Some t \<longrightarrow> t \<in> live st \<and> joined_by (thr st t) = Some j)"

lemma join_inv_cases:
  "join_inv st \<Longrightarrow> t \<in> live st \<Longrightarrow> joined_by (thr st t) = Some j \<Longrightarrow> join_link st t j \<or> join_done st t"
  by (simp add: join_inv_def)

lemma join_inv_link:
  "join_inv st \<Longrightarrow> t \<in> live st \<Longrightarrow> joined_by (thr st t) = Some j \<Longrightarrow> th_state (thr st t) \<noteq> THREAD_TERMINATED \<Longrightarrow>
   join_link st t j"
  by (auto simp: join_inv_def join_done_def)

lemma join_inv_waits:
  "join_inv st \<Longrightarrow> j \<in> live st \<Longrightarrow> waiting_for (thr st j) = Some t \<Longrightarrow>
   t \<in> live st \<and> joined_by (thr st t) = Some j \<and> join_link st t j"
  by (auto simp: join_inv_def join_done_def)

section \<open>Termination\<close>

lemma defer_sel [simp]:
  "queues (defer_stack_reclaim t st) = queues st" "live (defer_stack_reclaim t st) = live st"
  "current_thread (defer_stack_reclaim t st) = current_thread st"
  "sched_policy (defer_stack_reclaim t st) = sched_policy st"
  "zombie_initialized (defer_stack_reclaim t st) = zombie_initialized st"
  by (auto simp: defer_stack_reclaim_def upd_thread_def split: option.splits)

lemma same_stack_fields:
  "\<exists>sm sb. thr st = (thr st)(t := (thr st t)\<lparr>stack_map := sm, stack_base := sb\<rparr>)"
  by (intro exI [of _ "stack_map (thr st t)"] exI [of _ "stack_base (thr st t)"]) simp

lemma defer_thr:
  "\<exists>sm sb. thr (defer_stack_reclaim t st) = (thr st)(t := (thr st t)\<lparr>stack_map := sm, stack_base := sb\<rparr>)"
proof (cases "\<exists>m. stack_map (thr st t) = Some m \<and> length (deferred_stacks st) < MAX_DEFERRED_STACKS")
  case True
  then have "thr (defer_stack_reclaim t st) = (thr st)(t := (thr st t)\<lparr>stack_map := None, stack_base := None\<rparr>)"
    by (auto simp: defer_stack_reclaim_def upd_thread_def)
  then show ?thesis by blast
next
  case False
  then have "defer_stack_reclaim t st = st" by (auto simp: defer_stack_reclaim_def split: option.splits)
  then show ?thesis using same_stack_fields [of st t] by simp
qed

lemma flight_defer [simp]: "flight_inv P c (defer_stack_reclaim t st) = flight_inv P c st"
proof -
  obtain sm sb where "thr (defer_stack_reclaim t st) = (thr st)(t := (thr st t)\<lparr>stack_map := sm, stack_base := sb\<rparr>)"
    using defer_thr by blast
  then show ?thesis by (intro flight_cong) (auto simp: sched_part_def)
qed

lemma rest_zombie_add:
  assumes "thread_zombie_add t st = Some st'"
  shows "rest st' = (rest st)\<lparr>zombie_initialized := True\<rparr>"
proof -
  have "rest (zombie_init st) = (rest st)\<lparr>zombie_initialized := True\<rparr>"
    by (simp add: zombie_init_def tailq_init_def rest_def)
  moreover have "rest st' = rest (zombie_init st)"
    using assms rest_upd_thread [of "\<lambda>x. x\<lparr>in_zombie_queue := True\<rparr>" t "zombie_init st"]
    by (auto simp: thread_zombie_add_def Let_def tailq_insert_tail_def dest!: rest_link)
  ultimately show ?thesis by simp
qed

text \<open>The memory effect of \<open>thread_exit\<close>: its own stack is deferred, the main thread's is not.\<close>

definition exit_defer :: "tid \<Rightarrow> sys \<Rightarrow> sys" where
  "exit_defer t st = (if t = main_thread then st else defer_stack_reclaim t st)"

lemma exit_bury_ok:
  assumes inv: "flight_inv {t} None st" and gc: "gc_ok st" and t: "th_state (thr st t) = THREAD_TERMINATED"
  defines "zombie \<equiv> t \<noteq> main_thread \<and> (\<forall>j. joined_by (thr st t) = Some j \<longrightarrow> th_state (thr st j) \<noteq> THREAD_BLOCKED)"
  shows "\<exists>st' sm sb. exit_bury t st = Some st' \<and> flight_inv {} None st' \<and> gc_ok st' \<and> live st' = live st \<and>
    queues st' = (if zombie then (queues st)(ZombieQ := zombie_queue st @ [t]) else queues st) \<and>
    thr st' = (thr st)(t := (if zombie then (thr st t)\<lparr>stack_map := sm, stack_base := sb, entries := Some ZombieQ, in_zombie_queue := True\<rparr>
      else (thr st t)\<lparr>stack_map := sm, stack_base := sb\<rparr>)) \<and> (t = main_thread \<longrightarrow> st' = st) \<and>
    (\<exists>z. rest st' = (rest (exit_defer t st))\<lparr>zombie_initialized := z\<rparr>)"
proof (cases "t = main_thread")
  case True
  have "flight_inv {} None st" using flight_settle [OF inv] t by simp
  moreover have "rest st = (rest st)\<lparr>zombie_initialized := zombie_initialized st\<rparr>" by (simp add: rest_def)
  ultimately show ?thesis using True gc same_stack_fields [of st t]
    by (auto simp: exit_bury_def zombie_def exit_defer_def)
next
  case False
  let ?d = "defer_stack_reclaim t st"
  obtain sm sb where d: "thr ?d = (thr st)(t := (thr st t)\<lparr>stack_map := sm, stack_base := sb\<rparr>)" using defer_thr by blast
  have fl: "flight_inv {t} None ?d" "gc_ok ?d" "th_state (thr ?d t) = THREAD_TERMINATED"
    using inv gc t by (simp_all add: gc_ok_def d)
  have z: "zombie \<longleftrightarrow> (\<forall>j. joined_by (thr ?d t) = Some j \<longrightarrow> th_state (thr ?d j) \<noteq> THREAD_BLOCKED)"
    using False t by (auto simp: zombie_def d)
  have eq: "exit_bury t st = (if zombie then thread_zombie_add t ?d else Some ?d)"
    using False by (auto simp: exit_bury_def z Let_def split: option.splits)
  show ?thesis
  proof (cases zombie)
    case True
    from flight_zombie_add [OF fl(1,2) _ _ fl(3)] obtain s where s: "thread_zombie_add t ?d = Some s"
      "flight_inv {} None s" "gc_ok s" "queues s = (queues st)(ZombieQ := zombie_queue st @ [t])" "live s = live st"
      "thr s = (thr ?d)(t := (thr ?d t)\<lparr>entries := Some ZombieQ, in_zombie_queue := True\<rparr>)" by auto
    moreover have "rest s = (rest (exit_defer t st))\<lparr>zombie_initialized := True\<rparr>"
      using rest_zombie_add [OF s(1)] False by (simp add: exit_defer_def)
    ultimately show ?thesis using True False by (auto simp: eq d)
  next
    case nz: False
    have "flight_inv {} None ?d" using flight_settle [OF fl(1)] fl(3) by simp
    moreover have "rest ?d = (rest (exit_defer t st))\<lparr>zombie_initialized := zombie_initialized st\<rparr>"
      using False by (simp add: exit_defer_def rest_def)
    ultimately show ?thesis using nz False fl(2) by (auto simp: eq d)
  qed
qed

lemma exit_wake_ok:
  assumes inv: "flight_inv {} None st" and j: "joined_by (thr st t) = Some j"
    "j \<in> live st" "entries (thr st j) = None"
  shows "\<exists>st'. exit_wake t st = Some st' \<and> flight_inv {} None st' \<and> live st' = live st \<and>
    queues st' = (queues st)(ReadyQ := ready_insert st j) \<and> current_thread st' = current_thread st \<and>
    thr st' = (thr st)(j := (thr st j)\<lparr>entries := Some ReadyQ, th_state := THREAD_READY, in_ready_queue := True\<rparr>)"
proof -
  let ?u = "set_state j THREAD_READY st"
  have "flight_inv {j} None ?u" using flight_set_state [OF flight_detach [OF inv j(2,3)]] by simp
  from flight_enqueue [OF this, of j] obtain s where s: "thread_scheduler_enqueue j ?u = Some s"
    "flight_inv {} None s" "queues s = (queues st)(ReadyQ := ready_insert ?u j)" "live s = live st"
    "current_thread s = current_thread st"
    "thr s = (thr ?u)(j := (thr ?u j)\<lparr>in_ready_queue := True, entries := Some ReadyQ\<rparr>)" by (auto simp: upd_thread_def)
  have "ready_insert ?u j = ready_insert st j" by (rule ready_insert_cong) (auto simp: upd_thread_def)
  with s j(1) show ?thesis by (auto simp: exit_wake_def upd_thread_def)
qed

lemma exit_switch_next:
  assumes inv: "flight_inv {} None st" and q: "ready_queue st = n # ns"
  shows "\<exists>st'. exit_switch st = Some (st', Switched) \<and> sched_inv st' \<and> current_thread st' = n \<and>
    live st' = live st \<and> queues st' = (queues st)(ReadyQ := ns) \<and>
    thr st' = (thr st)(n := (thr st n)\<lparr>entries := None, th_state := THREAD_RUNNING, in_ready_queue := False\<rparr>)"
proof -
  from flight_pick [OF inv q] obtain s where s: "thread_scheduler_pick_next st = Some (Some n, s)"
    "flight_inv {n} None s" "queues s = (queues st)(ReadyQ := ns)" "live s = live st"
    "thr s = (thr st)(n := (thr st n)\<lparr>entries := None, in_ready_queue := False\<rparr>)" by auto
  let ?r = "set_state n THREAD_RUNNING (s\<lparr>current_thread := n\<rparr>)"
  have "flight_inv {n} None (s\<lparr>current_thread := n\<rparr>)" using s(2) by (subst flight_cong [of _ s]) auto
  then have "flight_inv {n} None ?r" by (rule flight_set_state) simp
  from flight_restart [OF this] have "flight_inv {} (Some n) ?r" by (simp add: upd_thread_def)
  moreover have "n \<in> live s" using s(2) by (simp add: flight_inv_def)
  ultimately have "sched_inv ?r" by (simp add: sched_inv_def upd_thread_def)
  then show ?thesis using s by (auto simp: exit_switch_def upd_thread_def)
qed

text \<open>The thread that calls \<open>thread_exit\<close> dies and the head of the ready queue runs.  A waiting joiner
  is made ready; without one, the dead thread is kept in the zombie queue for a later join.\<close>

definition exit_ready :: "sys \<Rightarrow> tid list" where
  "exit_ready st = (case joined_by (thr st (current_thread st)) of
     None \<Rightarrow> ready_queue st | Some j \<Rightarrow> ready_insert st j)"

lemma exit_stages:
  fixes rv :: val
  assumes inv: "sched_inv st" and gc: "gc_ok st" and ji: "join_inv st"
  defines "c \<equiv> current_thread st"
  defines "u \<equiv> upd_thread c (\<lambda>x. x\<lparr>retval := rv, th_state := THREAD_TERMINATED\<rparr>) (block st)"
  shows "\<exists>s sm sb. thread_exit rv st = exit_switch s \<and> flight_inv {} None s \<and> gc_ok s \<and> live s = live st \<and>
    ready_queue s = exit_ready st \<and>
    zombie_queue s = (if c \<noteq> main_thread \<and> joined_by (thr st c) = None then zombie_queue st @ [c] else zombie_queue st) \<and>
    thr s = (case joined_by (thr st c) of
      None \<Rightarrow> (thr st)(c := if c = main_thread then (thr st c)\<lparr>retval := rv, th_state := THREAD_TERMINATED, stack_map := sm, stack_base := sb\<rparr>
        else (thr st c)\<lparr>retval := rv, th_state := THREAD_TERMINATED, stack_map := sm, stack_base := sb,
          entries := Some ZombieQ, in_zombie_queue := True\<rparr>)
    | Some j \<Rightarrow> (thr st)(c := (thr st c)\<lparr>retval := rv, th_state := THREAD_TERMINATED, stack_map := sm, stack_base := sb\<rparr>,
        j := (thr st j)\<lparr>entries := Some ReadyQ, th_state := THREAD_READY, in_ready_queue := True\<rparr>)) \<and>
    (\<exists>z. rest s = (rest (exit_defer c u))\<lparr>zombie_initialized := z\<rparr>)"
proof -
  have c: "c \<in> live st" "flight_inv {} (Some c) st" using inv by (simp_all add: sched_inv_def c_def)
  have run: "th_state (thr st c) = THREAD_RUNNING" using sched_inv_current(1) [OF inv] by (simp add: c_def)
  have "flight_inv {c} None st" using flight_retire [OF c(2,1)] by simp
  then have fl: "flight_inv {c} None u" unfolding u_def by (intro flight_upd_thread) simp_all
  have u: "gc_ok u" "th_state (thr u c) = THREAD_TERMINATED" "live u = live st" "queues u = queues st"
    "thr u = (thr st)(c := (thr st c)\<lparr>retval := rv, th_state := THREAD_TERMINATED\<rparr>)"
    "sched_policy u = sched_policy st"
    using gc by (simp_all add: u_def gc_ok_def upd_thread_def block_eq)
  let ?z = "c \<noteq> main_thread \<and> (\<forall>j. joined_by (thr u c) = Some j \<longrightarrow> th_state (thr u j) \<noteq> THREAD_BLOCKED)"
  from exit_bury_ok [OF fl u(1,2)] obtain s1 sm sb z where s1: "exit_bury c u = Some s1" "flight_inv {} None s1"
    "gc_ok s1" "live s1 = live u"
    "queues s1 = (if ?z then (queues u)(ZombieQ := zombie_queue u @ [c]) else queues u)"
    "thr s1 = (thr u)(c := (if ?z then (thr u c)\<lparr>stack_map := sm, stack_base := sb, entries := Some ZombieQ, in_zombie_queue := True\<rparr>
      else (thr u c)\<lparr>stack_map := sm, stack_base := sb\<rparr>))" "rest s1 = (rest (exit_defer c u))\<lparr>zombie_initialized := z\<rparr>"
    by blast
  have ex: "thread_exit rv st = (exit_wake c s1 \<bind> exit_switch)"
    using s1(1) by (simp add: thread_exit_def c_def u_def Let_def)
  have jb: "joined_by (thr s1 c) = joined_by (thr st c)" by (simp add: s1(6) u)
  show ?thesis
  proof (cases "joined_by (thr st c)")
    case None
    then have z: "?z \<longleftrightarrow> c \<noteq> main_thread" by (simp add: u)
    have "thread_exit rv st = exit_switch s1" using None ex jb by (simp add: exit_wake_def)
    moreover have "ready_queue s1 = exit_ready st" using None s1(5) by (simp add: exit_ready_def c_def [symmetric] u)
    moreover have "zombie_queue s1 = (if c \<noteq> main_thread then zombie_queue st @ [c] else zombie_queue st)"
      unfolding s1(5) z by (simp add: u)
    moreover have "thr s1 = (thr st)(c := if c = main_thread
        then (thr st c)\<lparr>retval := rv, th_state := THREAD_TERMINATED, stack_map := sm, stack_base := sb\<rparr>
        else (thr st c)\<lparr>retval := rv, th_state := THREAD_TERMINATED, stack_map := sm, stack_base := sb,
          entries := Some ZombieQ, in_zombie_queue := True\<rparr>)"
      unfolding s1(6) z by (simp add: u)
    ultimately show ?thesis using s1(2,3,4,7) None u(3)
      by (intro exI [of _ s1] exI [of _ sm] exI [of _ sb]) auto
  next
    case (Some j)
    have "join_link st c j" using join_inv_link [OF ji c(1) Some] run by simp
    then have j: "j \<in> live st" "j \<noteq> c" "th_state (thr st j) = THREAD_BLOCKED" "entries (thr st j) = None"
      using run by (auto simp: join_link_def)
    have nz: "\<not> ?z" using Some j by (auto simp: u)
    have thr1: "thr s1 = (thr st)(c := (thr st c)\<lparr>retval := rv, th_state := THREAD_TERMINATED, stack_map := sm, stack_base := sb\<rparr>)"
      "queues s1 = queues st" unfolding s1(5,6) if_not_P [OF nz] by (simp_all add: u)
    from exit_wake_ok [OF s1(2), of c j] jb Some j s1(4) thr1 u(3) obtain s2 where s2: "exit_wake c s1 = Some s2"
      "flight_inv {} None s2" "live s2 = live st" "queues s2 = (queues st)(ReadyQ := ready_insert s1 j)"
      "thr s2 = (thr s1)(j := (thr s1 j)\<lparr>entries := Some ReadyQ, th_state := THREAD_READY, in_ready_queue := True\<rparr>)"
      by auto
    have r2: "rest s2 = rest s1"
      using s2(1) jb Some rest_upd_thread [of "\<lambda>x. x\<lparr>th_state := THREAD_READY\<rparr>"] by (auto simp: exit_wake_def dest!: rest_enqueue)
    have "sched_policy s1 = sched_policy st"
      using arg_cong [OF s1(7), of sched_policy] u(6) by (simp add: rest_def exit_defer_def split: if_splits)
    then have "ready_insert s1 j = ready_insert st j" by (intro ready_insert_cong) (auto simp: thr1)
    moreover have "gc_ok s2" using s1(3) rest_sel(16) [OF r2] thr1(2) s2(4) by (simp add: gc_ok_def)
    ultimately show ?thesis using s1(7) s2 thr1 ex Some j r2
      by (intro exI [of _ s2] exI [of _ sm] exI [of _ sb]) (auto simp: exit_ready_def c_def [symmetric])
  qed
qed

text \<open>The fields after \<open>thread_exit\<close> when another thread can run.\<close>

definition exit_marked :: "val \<Rightarrow> sys \<Rightarrow> sys" where
  "exit_marked rv st = upd_thread (current_thread st)
     (\<lambda>x. x\<lparr>retval := rv, th_state := THREAD_TERMINATED\<rparr>) (block st)"

definition becomes_zombie :: "sys \<Rightarrow> bool" where
  "becomes_zombie st \<longleftrightarrow> current_thread st \<noteq> main_thread \<and> joined_by (thr st (current_thread st)) = None"

definition exit_view :: "val \<Rightarrow> tid \<Rightarrow> sys \<Rightarrow> thread \<Rightarrow> tid \<Rightarrow> bool" where
  "exit_view rv n st y x \<longleftrightarrow>
     joined_by y = joined_by (thr st x) \<and> waiting_for y = waiting_for (thr st x) \<and>
     head_joiner y = head_joiner (thr st x) \<and> saved_ctx y = saved_ctx (thr st x) \<and>
     pending_signals y = pending_signals (thr st x) \<and> blocked_signals y = blocked_signals (thr st x) \<and>
     waited_signals y = waited_signals (thr st x) \<and> waiting_for_signal y = waiting_for_signal (thr st x) \<and>
     stack_overflow y = stack_overflow (thr st x) \<and>
     retval y = (if x = current_thread st then rv else retval (thr st x)) \<and>
     th_state y = (if x = current_thread st then THREAD_TERMINATED else if x = n then THREAD_RUNNING
       else if joined_by (thr st (current_thread st)) = Some x then THREAD_READY else th_state (thr st x)) \<and>
     entries y = (if x = current_thread st then (if becomes_zombie st then Some ZombieQ else None)
       else if x = n then None
       else if joined_by (thr st (current_thread st)) = Some x then Some ReadyQ else entries (thr st x))"

lemma exit_fields:
  fixes rv :: val
  assumes inv: "sched_inv st" and gc: "gc_ok st" and ji: "join_inv st" and q: "exit_ready st = n # ns"
  defines "c \<equiv> current_thread st"
  shows "\<exists>st'. thread_exit rv st = Some (st', Switched) \<and> sched_inv st' \<and> gc_ok st' \<and> current_thread st' = n \<and>
    live st' = live st \<and> n \<noteq> c \<and> n \<in> live st \<and> ready_queue st' = ns \<and>
    zombie_queue st' = (if becomes_zombie st then zombie_queue st @ [c] else zombie_queue st) \<and>
    (\<forall>x. exit_view rv n st (thr st' x) x) \<and>
    (\<exists>z. rest st' = (rest (exit_defer c (exit_marked rv st)))\<lparr>zombie_initialized := z\<rparr>)"
proof -
  from exit_stages [OF inv gc ji, of rv] obtain s sm sb z where s: "thread_exit rv st = exit_switch s"
    "flight_inv {} None s" "gc_ok s" "live s = live st" "ready_queue s = exit_ready st"
    "zombie_queue s = (if c \<noteq> main_thread \<and> joined_by (thr st c) = None then zombie_queue st @ [c] else zombie_queue st)"
    "thr s = (case joined_by (thr st c) of
      None \<Rightarrow> (thr st)(c := if c = main_thread then (thr st c)\<lparr>retval := rv, th_state := THREAD_TERMINATED, stack_map := sm, stack_base := sb\<rparr>
        else (thr st c)\<lparr>retval := rv, th_state := THREAD_TERMINATED, stack_map := sm, stack_base := sb,
          entries := Some ZombieQ, in_zombie_queue := True\<rparr>)
    | Some j \<Rightarrow> (thr st)(c := (thr st c)\<lparr>retval := rv, th_state := THREAD_TERMINATED, stack_map := sm, stack_base := sb\<rparr>,
        j := (thr st j)\<lparr>entries := Some ReadyQ, th_state := THREAD_READY, in_ready_queue := True\<rparr>))"
    "rest s = (rest (exit_defer c (exit_marked rv st)))\<lparr>zombie_initialized := z\<rparr>"
    unfolding c_def exit_marked_def by blast
  from exit_switch_next [OF s(2) s(5) [unfolded q]] obtain st' where st': "exit_switch s = Some (st', Switched)"
    "sched_inv st'" "current_thread st' = n" "live st' = live s" "queues st' = (queues s)(ReadyQ := ns)"
    "thr st' = (thr s)(n := (thr s n)\<lparr>entries := None, th_state := THREAD_RUNNING, in_ready_queue := False\<rparr>)" by blast
  have e: "entries (thr st c) = None" using sched_inv_current(2) [OF inv] by (simp add: c_def)
  have "n \<in> set (ready_queue s)" using s(5) q by simp
  then have en: "entries (thr s n) = Some ReadyQ" and nl: "n \<in> live st"
    using s(2,4) by (auto simp: flight_inv_def queues_ok_mem)
  have jc: "joined_by (thr st c) \<noteq> Some c"
    using join_inv_link [OF ji, of c c] inv sched_inv_current(1) [OF inv]
    by (auto simp: join_link_def sched_inv_def c_def)
  have nc: "n \<noteq> c"
  proof
    assume "n = c"
    with en e jc s(7) show False by (auto split: option.splits if_splits)
  qed
  have r: "rest st' = rest s" using st'(1) rest_upd_thread [of "\<lambda>x. x\<lparr>th_state := THREAD_RUNNING\<rparr>"]
    by (auto simp: exit_switch_def thread_switch_to_cleanup_def split: option.splits dest!: rest_pick)
  have "exit_view rv n st (thr st' x) x" for x
  proof (cases "joined_by (thr st c)")
    case None
    then show ?thesis unfolding exit_view_def st'(6) s(7)
      using e nc by (auto simp: becomes_zombie_def c_def [symmetric])
  next
    case (Some j)
    then show ?thesis unfolding exit_view_def st'(6) s(7)
      using e nc jc by (simp add: becomes_zombie_def c_def [symmetric])
  qed
  moreover have "gc_ok st'" using s(3) st'(5) rest_sel(16) [OF r] by (simp add: gc_ok_def)
  moreover have "zombie_queue st' = (if becomes_zombie st then zombie_queue st @ [c] else zombie_queue st)"
    using st'(5) s(6) by (simp add: becomes_zombie_def c_def [symmetric])
  moreover have "\<exists>z. rest st' = (rest (exit_defer c (exit_marked rv st)))\<lparr>zombie_initialized := z\<rparr>"
    using r s(8) by auto
  ultimately show ?thesis using s(1,4) st'(1-5) nc nl by (intro exI [of _ st']) simp
qed

lemma exit_join_inv:
  assumes inv: "sched_inv st" and gc: "gc_ok st" and ji: "join_inv st" and q: "exit_ready st = n # ns"
    and w: "waiting_for (thr st (current_thread st)) = None" and r: "thread_exit rv st = Some (st', r)"
  shows "join_inv st'"
proof -
  let ?c = "current_thread st"
  from exit_fields [OF inv gc ji q, of rv] r have lv: "live st' = live st" "n \<noteq> ?c"
    and v: "\<And>x. exit_view rv n st (thr st' x) x" by auto
  have f: "joined_by (thr st' x) = joined_by (thr st x)" "waiting_for (thr st' x) = waiting_for (thr st x)"
    "waiting_for_signal (thr st' x) = waiting_for_signal (thr st x)"
    "th_state (thr st' x) = (if x = ?c then THREAD_TERMINATED else if x = n then THREAD_RUNNING
         else if joined_by (thr st ?c) = Some x then THREAD_READY else th_state (thr st x))"
    "entries (thr st' x) = (if x = ?c then (if becomes_zombie st then Some ZombieQ else None)
         else if x = n then None else if joined_by (thr st ?c) = Some x then Some ReadyQ else entries (thr st x))" for x
    using v [of x] by (simp_all add: exit_view_def)
  have cl: "?c \<in> live st" "th_state (thr st ?c) = THREAD_RUNNING"
    using inv sched_inv_current(1) [OF inv] by (simp_all add: sched_inv_def)
  have nq: "joined_by (thr st ?c) = Some n \<or> th_state (thr st n) = THREAD_READY"
  proof (cases "n \<in> set (ready_queue st)")
    case True
    have "entries (thr st n) = Some ReadyQ" using queues_ok_mem [OF sched_inv_queues_ok [OF inv]] True by simp
    with sched_inv_wf [OF inv sched_inv_ready_live [OF inv True]] show ?thesis
      by (cases "th_state (thr st n)") (auto simp: thread_wf_def)
  next
    case False
    have "n \<in> set (exit_ready st)" using q by simp
    with False show ?thesis by (auto simp: exit_ready_def split: option.splits)
  qed
  have link: "join_link st' t j" if t: "joined_by (thr st t) = Some j" and l: "join_link st t j" for t j
  proof -
    from l have jw: "j \<in> live st" "j \<noteq> t" "waiting_for (thr st j) = Some t" by (auto simp: join_link_def)
    with w have jc: "j \<noteq> ?c" by auto
    show ?thesis
    proof (cases "t = ?c")
      case True
      have "\<not> becomes_zombie st" using t True by (simp add: becomes_zombie_def)
      then show ?thesis using True jw jc t by (simp add: join_link_def lv f)
    next
      case False
      have j': "joined_by (thr st ?c) \<noteq> Some j"
        using join_inv_link [OF ji cl(1)] jw(3) False cl(2) by (auto simp: join_link_def)
      show ?thesis
      proof (cases "th_state (thr st t) = THREAD_TERMINATED")
        case dead: True
        then have "t \<noteq> n" "joined_by (thr st ?c) \<noteq> Some t"
          using nq join_inv_link [OF ji cl(1), of t] cl(2) dead by (auto simp: join_link_def)
        then show ?thesis using l dead False jw jc j' by (auto simp: join_link_def lv f)
      next
        case nt: False
        then have "j \<noteq> n" using l nq j' by (auto simp: join_link_def)
        then show ?thesis using l nt False jw jc j' by (auto simp: join_link_def lv f)
      qed
    qed
  qed
  have fin: "join_done st' t" if "join_done st t" for t
  proof -
    have t: "t = main_thread" "th_state (thr st t) = THREAD_TERMINATED" using that by (auto simp: join_done_def)
    with nq cl(2) have "t \<noteq> ?c" "joined_by (thr st ?c) \<noteq> Some t"
      using join_inv_link [OF ji cl(1), of t] by (auto simp: join_link_def)
    moreover from this(2) t nq have "t \<noteq> n" by auto
    ultimately show ?thesis using that by (auto simp: join_done_def lv f)
  qed
  show ?thesis using link fin ji unfolding join_inv_def lv f by blast
qed

section \<open>Joining\<close>

text \<open>The memory part of the invariants.\<close>

definition mem_inv :: "tid set \<Rightarrow> sys \<Rightarrow> bool" where
  "mem_inv R st \<longleftrightarrow> stacks_ok st \<and> structs_ok R st \<and> slots_ok st"

lemma zombie_remove_frame:
  assumes "thread_zombie_remove t st = Some st'"
  shows "rest st' = rest st" "unmasked st' = (unmasked st \<or> in_zombie_queue (thr st t) \<and> preemptible st)"
proof -
  have "rest (upd_thread t (\<lambda>x. x\<lparr>in_zombie_queue := False\<rparr>) st) = rest st" by (rule rest_upd_thread) simp
  with assms show "rest st' = rest st"
    by (auto simp: thread_zombie_remove_def dest!: rest_remove split: if_splits)
  show "unmasked st' = (unmasked st \<or> in_zombie_queue (thr st t) \<and> preemptible st)" using assms
    by (auto simp: thread_zombie_remove_def tailq_remove_Some upd_thread_def preemptible_def split: if_splits)
qed

lemma structs_ok_cong:
  assumes "os_mmap st' = os_mmap st" "os_malloc st' = os_malloc st" "thread_pool st' = thread_pool st"
    "head_ref_chunks st' = head_ref_chunks st" "head_ref_chunks_ptr st' = head_ref_chunks_ptr st"
    "allocated st' = allocated st" "live st' = live st"
  shows "structs_ok R st' = structs_ok R st"
  using assms by (simp add: structs_ok_def blocks_def os_sane_def)

lemma slots_ok_cong:
  assumes "head_ref_chunks st' = head_ref_chunks st" "head_ref_active_chunk st' = head_ref_active_chunk st"
    "head_ref_active_index st' = head_ref_active_index st" "live st' \<subseteq> live st"
    "\<And>t. t \<in> live st' \<Longrightarrow> head_joiner (thr st' t) = head_joiner (thr st t)" "slots_ok st"
  shows "slots_ok st'"
  using assms by (auto simp: slots_ok_def slot_used_def)

lemma give_back_sel [simp]:
  "thr (give_back_stack t st) = thr st" "live (give_back_stack t st) = live st"
  "queues (give_back_stack t st) = queues st" "current_thread (give_back_stack t st) = current_thread st"
  "sched_policy (give_back_stack t st) = sched_policy st"
  "deferred_stacks (give_back_stack t st) = deferred_stacks st"
  "thread_pool (give_back_stack t st) = thread_pool st" "allocated (give_back_stack t st) = allocated st"
  "head_cells (give_back_stack t st) = head_cells st" "head_ref_chunks (give_back_stack t st) = head_ref_chunks st"
  "head_ref_chunks_ptr (give_back_stack t st) = head_ref_chunks_ptr st"
  "head_ref_active_chunk (give_back_stack t st) = head_ref_active_chunk st"
  "head_ref_active_index (give_back_stack t st) = head_ref_active_index st"
  "zombie_initialized (give_back_stack t st) = zombie_initialized st"
  "os_malloc (give_back_stack t st) = os_malloc st"
  by (auto simp: give_back_stack_def split: option.splits)

lemma give_back_mmap [simp]: "os_mmap (give_back_stack t st) = os_mmap st"
  by (auto simp: give_back_stack_def stack_pool_push_def sys_munmap_def valgrind_deregister_def split: option.splits)

lemma reap_eq:
  assumes "t \<noteq> main_thread"
  shows "reap t st = do { st \<leftarrow> thread_zombie_remove t st;
    thread_free t (upd_thread t (\<lambda>x. x\<lparr>head_joiner := None\<rparr>) (give_back_stack t st)) }"
  using assms by (simp add: reap_def thread_obj_release_def give_back_stack_def)

lemma reap_ok:
  assumes inv: "flight_inv {} (Some c) st" and m: "mem_inv R st" and gc: "gc_ok st"
    and t: "t \<in> live st" "t \<noteq> main_thread" "t \<noteq> c" "th_state (thr st t) = THREAD_TERMINATED"
  shows "\<exists>st'. reap t st = Some st' \<and> flight_inv {} (Some c) st' \<and> mem_inv R st' \<and> gc_ok st' \<and>
    live st' = live st - {t} \<and> (\<forall>u. u \<noteq> t \<longrightarrow> thr st' u = thr st u) \<and> current_thread st' = current_thread st \<and>
    queues st' = (queues st)(ZombieQ := remove1 t (zombie_queue st)) \<and> head_cells st' = head_cells st"
proof -
  from flight_zombie_remove [OF inv t(1) _ t(4)] obtain s1 where s1: "thread_zombie_remove t st = Some s1"
    "flight_inv {t} (Some c) s1" "live s1 = live st"
    "queues s1 = (queues st)(ZombieQ := remove1 t (zombie_queue st))" "current_thread s1 = current_thread st"
    "thr s1 = (thr st)(t := (thr st t)\<lparr>in_zombie_queue := False, entries := None\<rparr>)" by auto
  note sel1 = rest_sel [OF zombie_remove_frame(1) [OF s1(1)]]
  have st1: "stacks_ok s1" using m sel1 s1(6) unfolding mem_inv_def
    by (subst stacks_ok_cong [of _ st]) (auto simp: stack_part_def)
  let ?g = "give_back_stack t s1" and ?h = "\<lambda>x. x\<lparr>head_joiner := None :: cell option\<rparr>"
  let ?u = "upd_thread t ?h ?g"
  have "structs_ok R ?u" using m sel1 unfolding mem_inv_def
    by (subst structs_ok_cong [of _ st]) (simp_all add: upd_thread_def)
  moreover have "t \<in> live ?u \<union> R" using t(1) s1(3) by (simp add: upd_thread_def)
  ultimately obtain s2 where s2: "thread_free t ?u = Some s2" "structs_ok (R - {t}) s2" "live s2 = live st - {t}"
    "s2 = ?u\<lparr>thread_pool := thread_pool ?u @ [t], live := live ?u - {t}\<rparr> \<or>
     s2 = ?u\<lparr>allocated := allocated ?u - {t}, live := live ?u - {t}\<rparr>"
    using thread_free_ok [of R ?u t] t(2) s1(3) by (auto simp: upd_thread_def)
  have f2: "thr s2 = (thr s1)(t := (thr s1 t)\<lparr>head_joiner := None\<rparr>)" "queues s2 = queues s1"
    "current_thread s2 = current_thread s1" "sched_policy s2 = sched_policy s1" "head_cells s2 = head_cells s1"
    "zombie_initialized s2 = zombie_initialized s1" "deferred_stacks s2 = deferred_stacks s1"
    "os_mmap s2 = os_mmap ?g" "os_malloc s2 = os_malloc ?g" "stack_pool s2 = stack_pool ?g" "mapped s2 = mapped ?g"
    "head_ref_chunks s2 = head_ref_chunks st" "head_ref_active_chunk s2 = head_ref_active_chunk st"
    "head_ref_active_index s2 = head_ref_active_index st"
    using s2(4) sel1 by (auto simp: upd_thread_def)
  have "stacks_ok s2" by (rule stacks_release [OF st1, of t _ ?g]) (use t(1,2) s1(3) f2 s2(3) in \<open>auto simp: stack_part_def\<close>)
  moreover have "slots_ok s2"
    by (rule slots_ok_cong [of _ st]) (use m f2 s1 s2(3) in \<open>auto simp: mem_inv_def\<close>)
  moreover have "R - {t} = R" using m t(1) by (auto simp: mem_inv_def structs_ok_def)
  ultimately have mem: "mem_inv R s2" using s2(2) by (simp add: mem_inv_def)
  have "flight_inv {t} (Some c) ?u" using s1(2)
    by (subst flight_cong [of _ s1]) (auto simp: upd_thread_def sched_part_def)
  then have "flight_inv {} (Some c) (?u\<lparr>live := live ?u - {t}\<rparr>)" using flight_release [of "{t}" "Some c" ?u t] t(2) by simp
  then have "flight_inv {} (Some c) s2" using s2(4) by (subst flight_cong [of _ "?u\<lparr>live := live ?u - {t}\<rparr>"]) auto
  moreover have "gc_ok s2" using gc f2(2,6) sel1(16) s1(4) by (auto simp: gc_ok_def)
  ultimately show ?thesis
    using s1 s2(1,3) f2 mem sel1 by (auto simp: reap_eq [OF t(2)])
qed

end
