(* ===== verification/Joining.thy ===== *)
theory Joining
  imports Lifecycle
begin

text \<open>
  \<open>thread_join\<close> on every branch, its effect on the invariants, and the join chains behind its
  deadlock check.
\<close>

section \<open>Branches\<close>

lemma join_null: "thread_join ks None want st = Some (set_errno EINVAL st, Ret (-1) No_out)"
  by (simp add: thread_join_def)

lemma join_twice:
  "joined_by (thr st t) = Some j \<Longrightarrow> thread_join ks (Some t) want st = Some (set_errno EINVAL st, Ret (-1) No_out)"
  by (simp add: thread_join_def)

lemma join_self:
  "joined_by (thr st (current_thread st)) = None \<Longrightarrow>
   thread_join ks (Some (current_thread st)) want st = Some (set_errno EDEADLK st, Ret EDEADLK No_out)"
  by (simp add: thread_join_def)

lemma join_terminated_eq:
  assumes "joined_by (thr st t) = None" "t \<noteq> current_thread st" "th_state (thr st t) = THREAD_TERMINATED"
  shows "thread_join ks (Some t) want st = (case reap t (block st) of
    None \<Rightarrow> None | Some s \<Rightarrow> Some (unblock s, Ret 0 (out_retval want t st)))"
  using assms by (simp add: thread_join_def Let_def out_retval_def split: option.splits)

lemma join_no_slot:
  assumes "joined_by (thr st t) = None" "t \<noteq> current_thread st" "th_state (thr st t) \<noteq> THREAD_TERMINATED"
    and "head_joiner (thr st t) = None \<or> head_joiner (thr st (current_thread st)) = None"
  shows "thread_join ks (Some t) want st = Some (set_errno EINVAL (unblock (block st)), Ret (-1) No_out)"
  using assms by (auto simp: thread_join_def Let_def split: option.splits)

lemma join_chain_deadlock:
  assumes "joined_by (thr st t) = None" "t \<noteq> current_thread st" "th_state (thr st t) \<noteq> THREAD_TERMINATED"
    and "head_joiner (thr st t) = Some r" "head_joiner (thr st (current_thread st)) = Some r" "head_cells st r = t"
  shows "thread_join ks (Some t) want st = Some (set_errno EDEADLK (unblock (block st)), Ret EDEADLK No_out)"
  using assms by (simp add: thread_join_def Let_def)

lemma join_register_thr:
  "thr (join_register c t r ext st) =
     (let h = (thr st)(t := (thr st t)\<lparr>joined_by := Some c\<rparr>) in h(c := (h c)\<lparr>head_joiner := Some r\<rparr>))"
  by (simp add: join_register_def upd_thread_def Let_def)

lemma join_register_sel [simp]:
  "current_thread (join_register c t r ext st) = current_thread st" "queues (join_register c t r ext st) = queues st"
  "live (join_register c t r ext st) = live st" "sched_policy (join_register c t r ext st) = sched_policy st"
  "th_state (thr (join_register c t r ext st) u) = th_state (thr st u)"
  "sched_part (thr (join_register c t r ext st) u) = sched_part (thr st u)"
  by (simp_all add: join_register_def upd_thread_def Let_def sched_part_def)

lemma sched_inv_register [simp]: "sched_inv (join_register c t r ext st) = sched_inv st"
proof -
  have "flight_inv {} (Some (current_thread st)) (join_register c t r ext st) = flight_inv {} (Some (current_thread st)) st"
    by (rule flight_cong) simp_all
  then show ?thesis by (simp add: sched_inv_def)
qed

text \<open>The state in which the caller is registered as the joiner of \<open>t\<close>.\<close>

abbreviation registered :: "tid \<Rightarrow> cell \<Rightarrow> sys \<Rightarrow> sys" where
  "registered t r st \<equiv> join_register (current_thread st) t r
     (head_cells st r = t \<and> head_joiner (thr st (current_thread st)) \<noteq> Some r) (block st)"

lemma join_goes_blocking:
  assumes "joined_by (thr st t) = None" "t \<noteq> current_thread st" "th_state (thr st t) \<noteq> THREAD_TERMINATED"
    and "head_joiner (thr st t) = Some r" "head_joiner (thr st (current_thread st)) = Some r'"
    and "\<not> (head_cells st r = t \<and> r' = r)"
  shows "thread_join ks (Some t) want st = join_block ks t want (registered t r st)"
  using assms by (auto simp: thread_join_def Let_def)

lemma join_block_empty:
  assumes "ready_queue st = []"
  shows "join_block ks t want st = Some (set_errno EDEADLK (unblock (upd_thread (current_thread st)
    (\<lambda>x. x\<lparr>th_state := THREAD_RUNNING, waiting_for := None\<rparr>) st)), Ret EDEADLK No_out)"
proof -
  have "thread_scheduler_pick_next (upd_thread u f st) = Some (None, upd_thread u f st)" for u f
    using assms by (intro pick_next_empty) (simp add: upd_thread_def)
  then show ?thesis by (simp add: join_block_def Let_def upd_thread_twice comp_def)
qed

lemma join_block_switch:
  assumes inv: "sched_inv st" and q: "ready_queue st = n # ns"
  shows "\<exists>st'. join_block ks t want st = Some (st', Switched) \<and> sched_inv st' \<and> current_thread st' = n \<and>
    n \<noteq> current_thread st \<and> live st' = live st \<and> queues st' = (queues st)(ReadyQ := ns) \<and>
    (\<forall>u. u \<noteq> current_thread st \<longrightarrow> u \<noteq> n \<longrightarrow> thr st' u = thr st u) \<and>
    thr st' (current_thread st) = (thr st (current_thread st))\<lparr>saved_ctx := F_join t want # ks,
      waiting_for := Some t, th_state := THREAD_BLOCKED\<rparr> \<and>
    thr st' n = (thr st n)\<lparr>entries := None, th_state := THREAD_RUNNING, in_ready_queue := False\<rparr> \<and>
    (\<exists>s. rest st' = rest s \<and> s = upd_thread (current_thread st) (\<lambda>x. x\<lparr>waiting_for := Some t\<rparr>) st)"
proof -
  let ?f = "\<lambda>x. x\<lparr>th_state := THREAD_BLOCKED, waiting_for := Some t\<rparr>"
  from block_unlinked [OF inv q, of ?f "F_join t want # ks"] obtain s where s:
    "thread_scheduler_pick_next (upd_thread (current_thread st) ?f st) = Some (Some n, s)"
    "sched_inv (swap_thread (current_thread st) n (F_join t want # ks) s)" "n \<noteq> current_thread st"
    "queues s = (queues st)(ReadyQ := ns)" "live s = live st"
    "thr s = (thr st)(current_thread st := ?f (thr st (current_thread st)),
      n := (thr st n)\<lparr>entries := None, in_ready_queue := False\<rparr>)" by auto
  let ?st' = "swap_thread (current_thread st) n (F_join t want # ks) s"
  have "rest ?st' = rest s"
    by (simp add: swap_thread_def fast_swap_context_def Let_def rest_upd_thread)
  also have "\<dots> = rest (upd_thread (current_thread st) ?f st)" using rest_pick [OF s(1)] .
  also have "\<dots> = rest (upd_thread (current_thread st) (\<lambda>x. x\<lparr>waiting_for := Some t\<rparr>) st)"
    by (auto simp: rest_def upd_thread_def priv_def fun_eq_iff)
  finally have "rest ?st' = \<dots>" .
  moreover have "join_block ks t want st = Some (?st', Switched)" using s(1) by (simp add: join_block_def Let_def)
  ultimately show ?thesis using s(2-6) by (auto simp: swap_thread_eq)
qed

section \<open>Blocking joins keep the join relation\<close>

lemma ready_state:
  assumes inv: "sched_inv st" and x: "x \<in> set (ready_queue st)"
  shows "th_state (thr st x) = THREAD_READY" "entries (thr st x) = Some ReadyQ" "x \<in> live st"
proof -
  show e: "entries (thr st x) = Some ReadyQ" using queues_ok_mem [OF sched_inv_queues_ok [OF inv]] x by simp
  show l: "x \<in> live st" using sched_inv_ready_live [OF inv x] .
  show "th_state (thr st x) = THREAD_READY"
    using sched_inv_wf [OF inv l] e by (cases "th_state (thr st x)") (auto simp: thread_wf_def)
qed

lemma join_blocks:
  assumes inv: "sched_inv st" and ji: "join_inv st" and si: "sig_inv st"
    and w: "waiting_for (thr st (current_thread st)) = None"
    and t: "t \<in> live st" "joined_by (thr st t) = None" "t \<noteq> current_thread st"
      "th_state (thr st t) \<noteq> THREAD_TERMINATED"
    and r: "head_joiner (thr st t) = Some r" "head_joiner (thr st (current_thread st)) = Some r'"
      "\<not> (head_cells st r = t \<and> r' = r)"
    and q: "ready_queue st = n # ns"
  shows "\<exists>st'. thread_join ks (Some t) want st = Some (st', Switched) \<and> sched_inv st' \<and> join_inv st' \<and>
    current_thread st' = n \<and> live st' = live st \<and>
    th_state (thr st' (current_thread st)) = THREAD_BLOCKED \<and> joined_by (thr st' t) = Some (current_thread st) \<and>
    saved_ctx (thr st' (current_thread st)) = F_join t want # ks \<and>
    (\<forall>x. waiting_for (thr st' x) = (if x = current_thread st then Some t else waiting_for (thr st x))) \<and>
    (\<forall>x. x \<noteq> current_thread st \<longrightarrow> x \<noteq> n \<longrightarrow> th_state (thr st' x) = th_state (thr st x))"
proof -
  let ?c = "current_thread st" and ?s = "registered t r st"
  have jb: "thread_join ks (Some t) want st = join_block ks t want ?s"
    using join_goes_blocking [OF t(2-4) r] .
  from join_block_switch [of ?s n ns ks t want] inv q obtain st' where st': "join_block ks t want ?s = Some (st', Switched)"
    "sched_inv st'" "current_thread st' = n" "n \<noteq> ?c" "live st' = live st"
    "\<forall>u. u \<noteq> ?c \<longrightarrow> u \<noteq> n \<longrightarrow> thr st' u = thr ?s u"
    "thr st' ?c = (thr ?s ?c)\<lparr>saved_ctx := F_join t want # ks, waiting_for := Some t, th_state := THREAD_BLOCKED\<rparr>"
    "thr st' n = (thr ?s n)\<lparr>entries := None, th_state := THREAD_RUNNING, in_ready_queue := False\<rparr>" by auto
  have n: "th_state (thr st n) = THREAD_READY" using ready_state(1) [OF inv, of n] q by simp
  have c: "th_state (thr st ?c) = THREAD_RUNNING" "entries (thr st ?c) = None" "?c \<in> live st"
    using sched_inv_current [OF inv] inv by (simp_all add: sched_inv_def)
  have ns: "\<not> waiting_for_signal (thr st ?c)" using si c by (auto simp: sig_inv_def sig_ok_def)
  have T: "thr st' x = (if x = ?c
      then (thr ?s ?c)\<lparr>saved_ctx := F_join t want # ks, waiting_for := Some t, th_state := THREAD_BLOCKED\<rparr>
      else if x = n then (thr ?s n)\<lparr>entries := None, th_state := THREAD_RUNNING, in_ready_queue := False\<rparr>
      else thr ?s x)" for x using st'(6-8) by simp
  have S: "joined_by (thr ?s x) = (if x = t then Some ?c else joined_by (thr st x))"
    "waiting_for (thr ?s x) = waiting_for (thr st x)" "entries (thr ?s x) = entries (thr st x)"
    "waiting_for_signal (thr ?s x) = waiting_for_signal (thr st x)" for x
    using t(3) by (simp_all add: join_register_thr Let_def)
  have f: "joined_by (thr st' x) = (if x = t then Some ?c else joined_by (thr st x))"
    "waiting_for (thr st' x) = (if x = ?c then Some t else waiting_for (thr st x))"
    "waiting_for_signal (thr st' x) = waiting_for_signal (thr st x)"
    "th_state (thr st' x) = (if x = ?c then THREAD_BLOCKED else if x = n then THREAD_RUNNING else th_state (thr st x))"
    "entries (thr st' x) = (if x = n then None else entries (thr st x))" for x
    unfolding T using S st'(4) t(3) by auto
  have link: "join_link st' u j" if l: "join_link st u j" for u j
  proof -
    from l have jc: "j \<noteq> ?c" using w by (auto simp: join_link_def)
    show ?thesis
    proof (cases "th_state (thr st u) = THREAD_TERMINATED")
      case True
      then have "u \<noteq> n" "u \<noteq> ?c" using n c by auto
      with True l jc show ?thesis by (auto simp: join_link_def st'(5) f)
    next
      case False
      then have "j \<noteq> n" using l n by (auto simp: join_link_def)
      with False l jc show ?thesis by (auto simp: join_link_def st'(5) f)
    qed
  qed
  have fin: "join_done st' u" if "join_done st u" for u
    using that c n t(4) by (auto simp: join_done_def st'(5) f)
  have new: "join_link st' t ?c"
    using t(1,3,4) c ns st'(4) by (auto simp: join_link_def st'(5) f)
  have "join_inv st'" unfolding join_inv_def
  proof (intro conjI ballI allI impI)
    fix u j assume "u \<in> live st'" "joined_by (thr st' u) = Some j"
    then show "join_link st' u j \<or> join_done st' u"
      using link [of u j] fin [of u] new join_inv_cases [OF ji, of u j] by (auto simp: st'(5) f split: if_splits)
  next
    fix j u assume ju: "j \<in> live st'" "waiting_for (thr st' j) = Some u"
    show "u \<in> live st'"
      using ju t(1) ji by (auto simp: st'(5) f join_inv_def split: if_splits)
    show "joined_by (thr st' u) = Some j"
      using ju t(2) ji by (auto simp: st'(5) f join_inv_def split: if_splits)
  qed
  moreover have "saved_ctx (thr st' ?c) = F_join t want # ks" by (simp add: st'(7))
  ultimately show ?thesis using jb st' c by (auto simp: f)
qed

text \<open>With an empty ready queue the join fails, but the registration stays behind.\<close>

lemma join_fails_registered:
  assumes inv: "sched_inv st"
    and t: "joined_by (thr st t) = None" "t \<noteq> current_thread st" "th_state (thr st t) \<noteq> THREAD_TERMINATED"
    and r: "head_joiner (thr st t) = Some r" "head_joiner (thr st (current_thread st)) = Some r'"
      "\<not> (head_cells st r = t \<and> r' = r)"
    and q: "ready_queue st = []"
  shows "\<exists>st'. thread_join ks (Some t) want st = Some (st', Ret EDEADLK No_out) \<and> sched_inv st' \<and>
    errno st' = EDEADLK \<and> joined_by (thr st' t) = Some (current_thread st) \<and>
    th_state (thr st' (current_thread st)) = THREAD_RUNNING \<and> waiting_for (thr st' (current_thread st)) = None \<and>
    current_thread st' = current_thread st \<and> queues st' = queues st"
proof -
  let ?s = "registered t r st"
  let ?f = "\<lambda>x. x\<lparr>th_state := THREAD_RUNNING, waiting_for := None :: tid option\<rparr>"
  have "sched_inv (upd_thread (current_thread st) ?f ?s)"
    using sched_inv_state_noop [of ?s ?f] inv by (simp add: sched_part_def)
  then show ?thesis using join_goes_blocking [OF t r] join_block_empty [of ?s ks t want] q t(2)
    by (simp add: upd_thread_def join_register_thr Let_def)
qed

end
