(* ===== verification/Signal_Handlers.thy ===== *)
theory Signal_Handlers
  imports Lifecycle
begin

text \<open>
  The two signal handlers, \<open>preemption_handler\<close> of \<open>src/thread.c\<close> and \<open>sigsegv_handler\<close> of
  \<open>src/preemption.c\<close>, together with what the kernel does around a handler: it blocks the signal and
  the \<open>sa_mask\<close> of the action, and restores the old mask when the handler returns.  Timer signals
  are delivered while user code runs.
\<close>

section \<open>Definitions\<close>

definition preemption_handler :: "frame list \<Rightarrow> sys \<Rightarrow> result" where
  "preemption_handler ks st = thread_yield ks st"

definition deliver_sigvtalrm :: "sys \<Rightarrow> result" where
  "deliver_sigvtalrm st =
     (if handler_vtalrm st \<and> preemptible st then
        (let old = sigmask st
         in do {
           (st, r) \<leftarrow> preemption_handler [F_handler old] (st\<lparr>sigmask := insert SIGVTALRM old\<rparr>);
           (case r of Ret _ _ \<Rightarrow> Some (st\<lparr>sigmask := old\<rparr>, Ret 0 No_out) | _ \<Rightarrow> Some (st, r))
         })
      else Some (st, Ret 0 No_out))"

definition in_guard_page :: "nat \<Rightarrow> thread \<Rightarrow> bool" where
  "in_guard_page fault t \<longleftrightarrow>
     (case stack_map t of None \<Rightarrow> False | Some m \<Rightarrow> fault \<ge> m \<and> fault < m + GUARD_SIZE)"

definition sigsegv_handler :: "nat \<Rightarrow> sys \<Rightarrow> result" where
  "sigsegv_handler fault st =
     (let t = current_thread st
      in if in_guard_page fault (thr st t) then
           thread_exit 0 (upd_thread t (\<lambda>x. x\<lparr>stack_overflow := True\<rparr>) st)
         else Some (st\<lparr>handler_segv := False\<rparr>, Killed))"

text \<open>A fault that hits while the signal is blocked, or without a handler, kills the process.\<close>

definition deliver_sigsegv :: "nat \<Rightarrow> sys \<Rightarrow> result" where
  "deliver_sigsegv fault st =
     (if \<not> handler_segv st \<or> SIGSEGV \<in> sigmask st then Some (st, Killed)
      else sigsegv_handler fault (st\<lparr>sigmask := sigmask st \<union> {SIGSEGV, SIGVTALRM}\<rparr>))"

section \<open>Preemption\<close>

lemma sched_inv_sigmask [simp]: "sched_inv (st\<lparr>sigmask := m\<rparr>) = sched_inv st"
proof -
  have "flight_inv {} (Some (current_thread st)) (st\<lparr>sigmask := m\<rparr>) = flight_inv {} (Some (current_thread st)) st"
    by (rule flight_cong) simp_all
  then show ?thesis by (simp add: sched_inv_def)
qed

lemma tick_ok:
  assumes inv: "sched_inv st"
  shows "\<exists>st' r. deliver_sigvtalrm st = Some (st', r) \<and> sched_inv st' \<and> live st' = live st \<and>
    (r = Switched \<or> r = Ret 0 No_out)"
proof (cases "handler_vtalrm st \<and> preemptible st")
  case False
  with inv show ?thesis by (auto simp: deliver_sigvtalrm_def)
next
  case True
  let ?u = "st\<lparr>sigmask := insert SIGVTALRM (sigmask st)\<rparr>"
  from yield_inv [of ?u "[F_handler (sigmask st)]"] inv obtain s r where
    "thread_yield [F_handler (sigmask st)] ?u = Some (s, r)" "sched_inv s" "live s = live st"
    "r = Switched \<or> r = Ret 0 No_out" by auto
  with True show ?thesis by (auto simp: deliver_sigvtalrm_def preemption_handler_def Let_def)
qed

section \<open>Stack overflow\<close>

lemma segv_other_fault:
  "\<not> in_guard_page fault (thr st (current_thread st)) \<Longrightarrow>
   \<exists>st'. deliver_sigsegv fault st = Some (st', Killed)"
  by (simp add: deliver_sigsegv_def sigsegv_handler_def)

lemma segv_blocked: "SIGSEGV \<in> sigmask st \<Longrightarrow> deliver_sigsegv fault st = Some (st, Killed)"
  by (simp add: deliver_sigsegv_def)

lemma zombie_add_sigmask: "thread_zombie_add t st = Some st' \<Longrightarrow> sigmask st' = sigmask st"
  by (auto simp: thread_zombie_add_def zombie_init_def tailq_init_def tailq_insert_tail_def
      tailq_link_Some upd_thread_def Let_def)

lemma defer_sigmask [simp]: "sigmask (defer_stack_reclaim t st) = sigmask st"
  by (simp add: defer_stack_reclaim_def upd_thread_def split: option.splits)

lemma exit_bury_sigmask:
  assumes "exit_bury t st = Some st'" shows "sigmask st' = sigmask st"
proof -
  let ?d = "defer_stack_reclaim t st"
  have "st' = st \<or> thread_zombie_add t ?d = Some st' \<or> st' = ?d"
    using assms unfolding exit_bury_def Let_def
    by (cases "t = main_thread"; cases "joined_by (thr ?d t)") (simp_all split: if_splits)
  then show ?thesis
  proof (elim disjE)
    assume "thread_zombie_add t ?d = Some st'"
    then show ?thesis using zombie_add_sigmask [of t ?d st'] by simp
  qed simp_all
qed

lemma exit_wake_sigmask: "exit_wake t st = Some st' \<Longrightarrow> sigmask st' = sigmask st"
  using enqueue_frame(7) [of _ "set_state _ THREAD_READY st" st']
  by (cases "joined_by (thr st t)") (auto simp: exit_wake_def upd_thread_def)

lemma exit_sigmask:
  assumes "thread_exit rv st = Some (st', Switched)"
  shows "sigmask st \<subseteq> sigmask st'"
proof -
  let ?c = "current_thread st"
  let ?u = "upd_thread ?c (\<lambda>x. x\<lparr>retval := rv, th_state := THREAD_TERMINATED\<rparr>) (block st)"
  from assms obtain s1 s2 where s: "exit_bury ?c ?u = Some s1" "exit_wake ?c s1 = Some s2"
    "exit_switch s2 = Some (st', Switched)" by (auto simp: thread_exit_def Let_def)
  from s(3) obtain n s3 where "thread_scheduler_pick_next s2 = Some (Some n, s3)" "st' = set_state n THREAD_RUNNING (s3\<lparr>current_thread := n\<rparr>)"
    by (auto simp: exit_switch_def thread_switch_to_cleanup_def split: option.splits)
  then have "sigmask st' = sigmask s2" using pick_frame(7) [of s2] by (simp add: upd_thread_def)
  with exit_bury_sigmask [OF s(1)] exit_wake_sigmask [OF s(2)] show ?thesis
    by (auto simp: upd_thread_def block_eq)
qed

lemma join_inv_update [simp]:
  "join_inv (st\<lparr>sigmask := m\<rparr>) = join_inv st" "gc_ok (st\<lparr>sigmask := m\<rparr>) = gc_ok st"
  by (simp_all add: join_inv_def join_link_def join_done_def gc_ok_def)

text \<open>An overflow of the running thread ends that thread only: the next thread runs, and the dead one
  is marked.  The signal stays blocked from then on.\<close>

lemma segv_overflow:
  assumes inv: "sched_inv st" "gc_ok st" "join_inv st"
    and h: "handler_segv st" "SIGSEGV \<notin> sigmask st" "in_guard_page fault (thr st (current_thread st))"
    and q: "exit_ready st = n # ns"
  shows "\<exists>st'. deliver_sigsegv fault st = Some (st', Switched) \<and> sched_inv st' \<and> current_thread st' = n \<and>
    th_state (thr st' (current_thread st)) = THREAD_TERMINATED \<and> stack_overflow (thr st' (current_thread st)) \<and>
    SIGSEGV \<in> sigmask st'"
proof -
  let ?c = "current_thread st"
  let ?u = "upd_thread ?c (\<lambda>x. x\<lparr>stack_overflow := True\<rparr>) (st\<lparr>sigmask := sigmask st \<union> {SIGSEGV, SIGVTALRM}\<rparr>)"
  have u: "sched_inv ?u" "gc_ok ?u" "join_inv ?u" "exit_ready ?u = n # ns" "current_thread ?u = ?c"
  proof -
    show "sched_inv ?u" using inv(1) by (subst sched_inv_upd_private) (simp_all add: sched_part_def)
    show "gc_ok ?u" using inv(2) by (simp add: gc_ok_def upd_thread_def)
    have "join_link ?u = join_link st" by (auto simp: join_link_def upd_thread_def fun_eq_iff)
    moreover have "join_done ?u = join_done st" by (auto simp: join_done_def upd_thread_def fun_eq_iff)
    ultimately show "join_inv ?u" using inv(3) by (auto simp: join_inv_def) (auto simp: upd_thread_def split: if_splits)
    have "ready_insert ?u j = ready_insert st j" for j by (rule ready_insert_cong) (simp_all add: upd_thread_def)
    then show "exit_ready ?u = n # ns" using q by (simp add: exit_ready_def upd_thread_def split: option.splits)
    show "current_thread ?u = ?c" by (simp add: upd_thread_def)
  qed
  from exit_fields [OF u(1-4), of 0] obtain st' where st': "thread_exit 0 ?u = Some (st', Switched)" "sched_inv st'"
    "current_thread st' = n" "\<forall>x. exit_view 0 n ?u (thr st' x) x" by blast
  from st'(4) have "exit_view 0 n ?u (thr st' ?c) ?c" by blast
  then have "th_state (thr st' ?c) = THREAD_TERMINATED" "stack_overflow (thr st' ?c)"
    using u(5) by (simp_all add: exit_view_def upd_thread_def)
  moreover have "SIGSEGV \<in> sigmask st'" using exit_sigmask [OF st'(1)] by (auto simp: upd_thread_def)
  ultimately show ?thesis using st' h by (auto simp: deliver_sigsegv_def sigsegv_handler_def)
qed

end
