(* ===== verification/System.thy ===== *)
theory System
  imports Joining Signal_Handlers
begin

text \<open>
  The library as a whole: the initial state given by the static initialisers, the calls a program
  can make, what happens when a suspended thread is switched to, and the step relation that
  interleaves calls, context switches, timer signals and memory faults.
\<close>

section \<open>The initial state\<close>

text \<open>The static structure of the main thread; fields without an initialiser are zero.\<close>

definition main_thread_init :: thread where
  "main_thread_init = \<lparr>saved_ctx = [], start_fun = 0, arg = 0, entries = None, retval = 0, stack_map = None,
     stack_base = None, joined_by = None, waiting_for = None, head_joiner = None, th_id = 0,
     th_state = THREAD_RUNNING, valgrind_stack_id = 0, priority = THREAD_DEFAULT_PRIORITY,
     in_ready_queue = False, in_zombie_queue = False, stack_overflow = False, pending_signals = 0,
     blocked_signals = 0, waited_signals = 0, waiting_for_signal = False\<rparr>"

text \<open>What the memory holds that the program has not written yet: the thread structures that \<open>malloc\<close> will
  return, and the mutexes and semaphores before their initialisation.\<close>

record raw_memory =
  raw_thread :: "tid \<Rightarrow> thread"
  raw_locked :: "oid \<Rightarrow> int"
  raw_count :: "oid \<Rightarrow> int"

text \<open>\<open>env\<close> is the configuration and the operating system, \<open>mem\<close> the contents of the memory; no thread
  structure is linked anywhere.  The queue of an object that has not been initialised is empty here,
  but no call gets to see it (\<open>exec_call\<close>).\<close>

definition initial_sys :: "os \<Rightarrow> raw_memory \<Rightarrow> sys" where
  "initial_sys env mem =
     \<lparr>sched_policy = sched_policy env, enable_preemption = enable_preemption env,
      enable_guard_page = enable_guard_page env, enable_overflow_detection = enable_overflow_detection env,
      os_mmap = os_mmap env, os_mprotect = os_mprotect env, os_malloc = os_malloc env,
      os_valgrind_register = os_valgrind_register env, os_sigaltstack = os_sigaltstack env,
      mmap_calls = 0, mprotect_calls = 0, malloc_calls = 0, mapped = {}, guarded = {}, madvised = {},
      deregistered = [], allocated = {}, stack_pool = [],
      thr = (\<lambda>t. if t = main_thread then main_thread_init else (raw_thread mem t)\<lparr>entries := None\<rparr>),
      current_thread = main_thread, next_thread_id = 1, scheduler_initialized = False, thread_pool = [],
      head_ref_chunks_ptr = None, head_ref_chunks = [], head_ref_chunks_cap = 0, head_ref_active_chunk = None,
      head_ref_active_index = 0, head_cells = (\<lambda>_. main_thread), deferred_stacks = [],
      queues = (\<lambda>_. []), zombie_initialized = False, atexit_handlers = [], cleanup_registered = False,
      m_locked = raw_locked mem, s_count = raw_count mem, sigvtalrm_mask = {}, sigmask = {}, handler_vtalrm = False,
      handler_segv = False, timer_us = None, overflow_detection_initialized = False, errno = 0,
      live = {main_thread}, initialised = {ReadyQ}, unmasked = False, bare_inits = {}\<rparr>"

section \<open>Resuming a suspended thread\<close>

text \<open>The innermost call has returned \<open>i\<close> (with output \<open>v\<close>) to the library frames \<open>ks\<close>.\<close>

fun unwind :: "frame list \<Rightarrow> int \<Rightarrow> out \<Rightarrow> sys \<Rightarrow> result" where
  "unwind [] i v st = Some (st, Ret i v)"
| "unwind (F_create newth func funcarg n # ks) i v st = do {
     (st, r) \<leftarrow> create_loop ks newth func funcarg n st;
     (case r of Ret i v \<Rightarrow> unwind ks i v st | _ \<Rightarrow> Some (st, r))
   }"
| "unwind (F_cond_relock ret # ks) i v st = unwind ks ret No_out st"
| "unwind (F_handler old # ks) i v st = unwind ks 0 No_out (st\<lparr>sigmask := old\<rparr>)"
| "unwind (_ # ks) i v st = None"

definition then_unwind :: "frame list \<Rightarrow> result \<Rightarrow> result" where
  "then_unwind ks res = do {
     (st, r) \<leftarrow> res;
     (case r of Ret i v \<Rightarrow> unwind ks i v st | _ \<Rightarrow> Some (st, r))
   }"

text \<open>The code behind the context switch, by frame.\<close>

fun resume :: "frame list \<Rightarrow> sys \<Rightarrow> result" where
  "resume (F_entry # ks) st = Some (thread_entry st, Ret 0 No_out)"
| "resume (F_yield # ks) st = unwind ks 0 No_out (unblock st)"
| "resume (F_yield_to # ks) st = unwind ks 0 No_out (unblock st)"
| "resume (F_join target want # ks) st = then_unwind ks (join_resume target want st)"
| "resume (F_mutex_lock # ks) st = unwind ks 0 No_out (unblock st)"
| "resume (F_sem_wait # ks) st = unwind ks 0 No_out (unblock st)"
| "resume (F_cond_wait m # ks) st = then_unwind ks (cond_wait_resume ks m st)"
| "resume (F_sigwait sigs # ks) st = then_unwind ks (sigwait_step ks sigs st)"
| "resume _ st = None"

definition resume_current :: "sys \<Rightarrow> result" where
  "resume_current st = resume (saved_ctx (thr st (current_thread st))) st"

section \<open>Calls\<close>

datatype call =
    C_create bool "nat option" val
  | C_exit val \<comment> \<open>\<open>thread_exit\<close>, or the start function of a thread returns\<close>
  | C_join "tid option" bool
  | C_yield
  | C_yield_to "tid option"
  | C_set_priority "tid option" int
  | C_mutex_init "oid option" | C_mutex_destroy "oid option" | C_mutex_lock "oid option" | C_mutex_unlock "oid option"
  | C_sem_init "oid option" int | C_sem_destroy "oid option" | C_sem_wait "oid option" | C_sem_post "oid option"
  | C_cond_init "oid option" | C_cond_destroy "oid option" | C_cond_wait "oid option" "oid option"
  | C_cond_signal "oid option" | C_cond_broadcast "oid option"
  | C_signal_send "tid option" int | C_sigwait "32 word" bool
  | C_process_exit \<comment> \<open>\<open>exit\<close>, or the main function returns\<close>

text \<open>Reading or linking into an object that has not been initialised is undefined behaviour.\<close>

definition cond_objects :: "oid option \<Rightarrow> oid option \<Rightarrow> qid set" where
  "cond_objects c m = (case (c, m) of (Some c, Some m) \<Rightarrow> {CondQ c, MutexQ m} | _ \<Rightarrow> {})"

definition on_objects :: "qid set \<Rightarrow> sys \<Rightarrow> result \<Rightarrow> result" where
  "on_objects qs st res = (if qs \<subseteq> initialised st then res else None)"

fun exec_call :: "call \<Rightarrow> sys \<Rightarrow> result" where
  "exec_call (C_create p f a) st = thread_create [] p f a st"
| "exec_call (C_exit rv) st = thread_exit rv st"
| "exec_call (C_join t w) st = thread_join [] t w st"
| "exec_call C_yield st = thread_yield [] st"
| "exec_call (C_yield_to t) st = thread_yield_to [] t st"
| "exec_call (C_set_priority t p) st = thread_set_priority [] t p st"
| "exec_call (C_mutex_init m) st = thread_mutex_init m st"
| "exec_call (C_mutex_destroy m) st = on_objects (MutexQ ` set_option m) st (thread_mutex_destroy m st)"
| "exec_call (C_mutex_lock m) st = on_objects (MutexQ ` set_option m) st (thread_mutex_lock [] m st)"
| "exec_call (C_mutex_unlock m) st = on_objects (MutexQ ` set_option m) st (thread_mutex_unlock m st)"
| "exec_call (C_sem_init s n) st = thread_sem_init s n st"
| "exec_call (C_sem_destroy s) st = on_objects (SemQ ` set_option s) st (thread_sem_destroy s st)"
| "exec_call (C_sem_wait s) st = on_objects (SemQ ` set_option s) st (thread_sem_wait [] s st)"
| "exec_call (C_sem_post s) st = on_objects (SemQ ` set_option s) st (thread_sem_post s st)"
| "exec_call (C_cond_init c) st = thread_cond_init c st"
| "exec_call (C_cond_destroy c) st = on_objects (CondQ ` set_option c) st (thread_cond_destroy c st)"
| "exec_call (C_cond_wait c m) st = on_objects (cond_objects c m) st (thread_cond_wait [] c m st)"
| "exec_call (C_cond_signal c) st = on_objects (CondQ ` set_option c) st (thread_cond_signal c st)"
| "exec_call (C_cond_broadcast c) st = on_objects (CondQ ` set_option c) st (thread_cond_broadcast c st)"
| "exec_call (C_signal_send t s) st = thread_signal_send t s st"
| "exec_call (C_sigwait s p) st = thread_sigwait [] s p st"
| "exec_call C_process_exit st = Some (st, Exited)"

section \<open>Steps\<close>

text \<open>User code runs, the saved context of the current thread is about to be resumed, \<open>exit\<close> runs its
  handlers, or the process is gone.\<close>

datatype mode = User | Switching | Exiting | Halted

fun mode_of :: "outcome \<Rightarrow> mode" where
  "mode_of (Ret _ _) = User"
| "mode_of Switched = Switching"
| "mode_of Exited = Exiting"
| "mode_of Killed = Halted"

definition process_exit :: "sys \<Rightarrow> sys option" where
  "process_exit st = run_exit_handlers (atexit_handlers st) st"

text \<open>Handles that a call dereferences must denote live threads; an object must have been initialised
  before it is used and must not be re-initialised while threads wait in it; and the two counters must
  not overflow.\<close>

fun call_ok :: "sys \<Rightarrow> call \<Rightarrow> bool" where
  "call_ok st (C_create p f a) \<longleftrightarrow> next_thread_id st < INT_MAX"
| "call_ok st (C_join t w) \<longleftrightarrow> set_option t \<subseteq> live st"
| "call_ok st (C_yield_to t) \<longleftrightarrow> set_option t \<subseteq> live st"
| "call_ok st (C_set_priority t p) \<longleftrightarrow> set_option t \<subseteq> live st"
| "call_ok st (C_signal_send t s) \<longleftrightarrow> set_option t \<subseteq> live st"
| "call_ok st (C_mutex_init m) \<longleftrightarrow> (\<forall>x \<in> set_option m. queues st (MutexQ x) = [])"
| "call_ok st (C_sem_init s n) \<longleftrightarrow> (\<forall>x \<in> set_option s. queues st (SemQ x) = [])"
| "call_ok st (C_cond_init c) \<longleftrightarrow> (\<forall>x \<in> set_option c. queues st (CondQ x) = [])"
| "call_ok st (C_mutex_destroy m) \<longleftrightarrow> MutexQ ` set_option m \<subseteq> initialised st"
| "call_ok st (C_mutex_lock m) \<longleftrightarrow> MutexQ ` set_option m \<subseteq> initialised st"
| "call_ok st (C_mutex_unlock m) \<longleftrightarrow> MutexQ ` set_option m \<subseteq> initialised st"
| "call_ok st (C_sem_destroy s) \<longleftrightarrow> SemQ ` set_option s \<subseteq> initialised st"
| "call_ok st (C_sem_wait s) \<longleftrightarrow> SemQ ` set_option s \<subseteq> initialised st"
| "call_ok st (C_sem_post s) \<longleftrightarrow> SemQ ` set_option s \<subseteq> initialised st \<and> (\<forall>x \<in> set_option s. s_count st x < INT_MAX)"
| "call_ok st (C_cond_destroy c) \<longleftrightarrow> CondQ ` set_option c \<subseteq> initialised st"
| "call_ok st (C_cond_wait c m) \<longleftrightarrow> cond_objects c m \<subseteq> initialised st"
| "call_ok st (C_cond_signal c) \<longleftrightarrow> CondQ ` set_option c \<subseteq> initialised st"
| "call_ok st (C_cond_broadcast c) \<longleftrightarrow> CondQ ` set_option c \<subseteq> initialised st"
| "call_ok st _ \<longleftrightarrow> True"

text \<open>The relation is parametrised by a condition on calls.\<close>

inductive sys_step :: "(sys \<Rightarrow> call \<Rightarrow> bool) \<Rightarrow> sys \<times> mode \<Rightarrow> sys \<times> mode \<Rightarrow> bool" for ok where
  call: "ok st c \<Longrightarrow> exec_call c st = Some (st', r) \<Longrightarrow> sys_step ok (st, User) (st', mode_of r)"
| tick: "deliver_sigvtalrm st = Some (st', r) \<Longrightarrow> sys_step ok (st, User) (st', mode_of r)"
| fault: "deliver_sigsegv a st = Some (st', r) \<Longrightarrow> sys_step ok (st, User) (st', mode_of r)"
| switch: "resume_current st = Some (st', r) \<Longrightarrow> sys_step ok (st, Switching) (st', mode_of r)"
| leave: "process_exit st = Some st' \<Longrightarrow> sys_step ok (st, Exiting) (st', Halted)"

inductive_cases sys_step_userE: "sys_step ok (st, User) s'"
inductive_cases sys_step_switchE: "sys_step ok (st, Switching) s'"
inductive_cases sys_step_exitE: "sys_step ok (st, Exiting) s'"
inductive_simps sys_step_halted: "sys_step ok (st, Halted) s'"

inductive reachable :: "(sys \<Rightarrow> call \<Rightarrow> bool) \<Rightarrow> sys \<Rightarrow> sys \<times> mode \<Rightarrow> bool" for ok s0 where
  start: "reachable ok s0 (s0, User)"
| step: "reachable ok s0 s \<Longrightarrow> sys_step ok s s' \<Longrightarrow> reachable ok s0 s'"

end
