(* ===== verification/System_Invariant.thy ===== *)
theory System_Invariant
  imports System "HOL-Library.Disjoint_Sets"
begin

text \<open>
  The invariant of the whole library, and its preservation by scheduling, synchronisation and
  signals.  \<open>Exit_Join_Invariant\<close> and \<open>Create_Invariant\<close> treat the life of threads, \<open>Reachability\<close>
  puts the steps together.
\<close>

section \<open>Suspended calls\<close>

text \<open>The frames that a suspended thread can have, the join it waits in, and the structures for
  which it is looking for a stack.\<close>

definition below_yield :: "frame list \<Rightarrow> bool" where
  "below_yield ks \<longleftrightarrow> ks = [] \<or> (\<exists>n f a k. ks = [F_create n f a k]) \<or> (\<exists>old. ks = [F_handler old])"

definition ctx_ok :: "frame list \<Rightarrow> bool" where
  "ctx_ok ks \<longleftrightarrow>
     (case ks of
        [] \<Rightarrow> False
      | k # ks \<Rightarrow>
          (case k of
             F_yield \<Rightarrow> below_yield ks
           | F_mutex_lock \<Rightarrow> ks = [] \<or> (\<exists>i. ks = [F_cond_relock i])
           | F_cond_relock _ \<Rightarrow> False | F_create _ _ _ _ \<Rightarrow> False | F_handler _ \<Rightarrow> False
           | _ \<Rightarrow> ks = []))"

definition join_target :: "frame list \<Rightarrow> tid option" where
  "join_target ks = (case ks of F_join t _ # _ \<Rightarrow> Some t | _ \<Rightarrow> None)"

fun created_by :: "frame \<Rightarrow> tid set" where
  "created_by (F_create n f a k) = {n}"
| "created_by _ = {}"

definition creating :: "frame list \<Rightarrow> tid set" where
  "creating ks = (\<Union>k \<in> set ks. created_by k)"

lemma creating_simps [simp]: "creating [] = {}" "creating (k # ks) = created_by k \<union> creating ks"
  by (simp_all add: creating_def)

text \<open>The threads that have not terminated.\<close>

definition active :: "sys \<Rightarrow> tid set" where
  "active st = {t \<in> live st. th_state (thr st t) \<noteq> THREAD_TERMINATED}"

definition pending :: "tid set \<Rightarrow> sys \<Rightarrow> tid set" where
  "pending S st = (\<Union>t \<in> S. creating (saved_ctx (thr st t)))"

definition ctxs_ok :: "tid set \<Rightarrow> sys \<Rightarrow> bool" where
  "ctxs_ok S st \<longleftrightarrow>
     (\<forall>t \<in> S. ctx_ok (saved_ctx (thr st t)) \<and> waiting_for (thr st t) = join_target (saved_ctx (thr st t))) \<and>
     disjoint_family_on (\<lambda>t. creating (saved_ctx (thr st t))) S"

lemma pending_cong:
  "(\<And>t. t \<in> S \<Longrightarrow> saved_ctx (thr st' t) = saved_ctx (thr st t)) \<Longrightarrow> pending S st' = pending S st"
  by (simp add: pending_def)

lemma pending_insert [simp]: "pending (insert t S) st = creating (saved_ctx (thr st t)) \<union> pending S st"
  by (auto simp: pending_def)

lemma ctxs_ok_cong:
  assumes "\<And>t. t \<in> S \<Longrightarrow> saved_ctx (thr st' t) = saved_ctx (thr st t) \<and> waiting_for (thr st' t) = waiting_for (thr st t)"
  shows "ctxs_ok S st' = ctxs_ok S st"
  using assms by (auto simp: ctxs_ok_def disjoint_family_on_def)

lemma ctxs_ok_insert:
  "t \<notin> S \<Longrightarrow> ctxs_ok (insert t S) st \<longleftrightarrow> ctxs_ok S st \<and> ctx_ok (saved_ctx (thr st t)) \<and>
     waiting_for (thr st t) = join_target (saved_ctx (thr st t)) \<and> creating (saved_ctx (thr st t)) \<inter> pending S st = {}"
  by (auto simp: ctxs_ok_def pending_def disjoint_family_on_insert)

section \<open>The invariant\<close>

text \<open>\<open>R\<close> holds the structures that the running call has allocated and not yet made a thread of.\<close>

definition base_inv :: "sys \<Rightarrow> bool" where
  "base_inv st \<longleftrightarrow> sched_inv st \<and> sig_inv st \<and> join_inv st \<and> gc_ok st \<and> main_thread \<notin> set (zombie_queue st)"

definition user_inv :: "tid set \<Rightarrow> sys \<Rightarrow> bool" where
  "user_inv R st \<longleftrightarrow>
     (let S = active st - {current_thread st}
      in base_inv st \<and> ctxs_ok S st \<and> mem_inv (R \<union> pending S st) st \<and> R \<inter> pending S st = {} \<and>
         waiting_for (thr st (current_thread st)) = None)"

definition switch_inv :: "sys \<Rightarrow> bool" where
  "switch_inv st \<longleftrightarrow> base_inv st \<and> ctxs_ok (active st) st \<and> mem_inv (pending (active st) st) st"

text \<open>What the memory part of the invariant depends on.\<close>

definition mem_part :: "sys \<Rightarrow> _" where
  "mem_part st = (os_mmap st, os_malloc st, (stack_pool st, mapped st, deferred_stacks st),
     (thread_pool st, allocated st, live st, zombie_initialized st),
     (head_ref_chunks st, head_ref_chunks_ptr st, head_ref_active_chunk st, head_ref_active_index st),
     \<lambda>t. stack_part (thr st t), \<lambda>t. head_joiner (thr st t))"

lemma mem_part_inv: assumes "mem_part st' = mem_part st" shows "mem_inv R st' = mem_inv R st"
proof -
  have f: "\<And>t. stack_part (thr st' t) = stack_part (thr st t)" "\<And>t. head_joiner (thr st' t) = head_joiner (thr st t)"
    using assms by (simp_all add: mem_part_def fun_eq_iff)
  have "stacks_ok st' = stacks_ok st" by (rule stacks_ok_cong) (use assms f in \<open>simp_all add: mem_part_def\<close>)
  moreover have "structs_ok R st' = structs_ok R st" by (rule structs_ok_cong) (use assms in \<open>simp_all add: mem_part_def\<close>)
  moreover have "slots_ok st' = slots_ok st" using assms f by (simp add: mem_part_def slots_ok_def slot_used_def)
  ultimately show ?thesis by (simp add: mem_inv_def)
qed

lemma mem_part_zombie: "mem_part st' = mem_part st \<Longrightarrow> zombie_initialized st' = zombie_initialized st"
  by (simp add: mem_part_def)

lemma mem_part_rest: assumes "rest st' = rest st" shows "mem_part st' = mem_part st"
  using rest_sel [OF assms] priv_sel [OF rest_thr [OF assms]] by (simp add: mem_part_def stack_part_def fun_eq_iff)

lemma mem_part_upd [simp]:
  "mem_part (block st) = mem_part st" "mem_part (unblock st) = mem_part st" "mem_part (st\<lparr>errno := e\<rparr>) = mem_part st"
  "mem_part (st\<lparr>current_thread := c\<rparr>) = mem_part st" "mem_part (st\<lparr>sigmask := m\<rparr>) = mem_part st"
  by (simp_all add: mem_part_def state_eqs)

lemma mem_part_upd_thread:
  "(\<And>x. stack_part (f x) = stack_part x) \<Longrightarrow> (\<And>x. head_joiner (f x) = head_joiner x) \<Longrightarrow> mem_part (upd_thread t f st) = mem_part st"
  by (auto simp: mem_part_def upd_thread_def)

lemma mem_part_ops:
  "thread_scheduler_pick_next st = Some (n, st') \<Longrightarrow> mem_part st' = mem_part st"
  "thread_scheduler_enqueue t st = Some st' \<Longrightarrow> mem_part st' = mem_part st"
  "mem_part (swap_thread p u ks st) = mem_part st"
proof -
  show "mem_part (swap_thread p u ks st) = mem_part st"
    unfolding swap_thread_def fast_swap_context_def Let_def by (simp add: mem_part_upd_thread stack_part_def)
qed (blast intro: mem_part_rest rest_pick rest_enqueue)+

lemma mem_inv_cong: "rest st' = rest st \<Longrightarrow> mem_inv R st' = mem_inv R st"
  by (intro mem_part_inv mem_part_rest)

section \<open>Calm operations keep the invariant\<close>

lemma calm_untouched:
  assumes "calm st st'" "\<not> touchable st t"
  shows "th_state (thr st' t) = th_state (thr st t)" "entries (thr st' t) = entries (thr st t)"
proof -
  have e: "(thr st' t)\<lparr>priority := 0\<rparr> = (thr st t)\<lparr>priority := 0\<rparr>" using assms by (simp add: calm_def)
  show "th_state (thr st' t) = th_state (thr st t)" "entries (thr st' t) = entries (thr st t)"
    using arg_cong [OF e, of th_state] arg_cong [OF e, of entries] by simp_all
qed

lemma calm_fields:
  assumes "calm st st'"
  shows "live st' = live st" "joined_by (thr st' t) = joined_by (thr st t)" "waiting_for (thr st' t) = waiting_for (thr st t)"
    "waiting_for_signal (thr st' t) = waiting_for_signal (thr st t)" "pending_signals (thr st' t) = pending_signals (thr st t)"
    "waited_signals (thr st' t) = waited_signals (thr st t)" "blocked_signals (thr st' t) = blocked_signals (thr st t)"
    "zombie_queue st' = zombie_queue st" "zombie_initialized st' = zombie_initialized st"
    "t \<noteq> current_thread st \<Longrightarrow> saved_ctx (thr st' t) = saved_ctx (thr st t)"
proof -
  have r: "rest st' = rest st" using assms by (simp add: calm_def)
  show "joined_by (thr st' t) = joined_by (thr st t)" "waiting_for (thr st' t) = waiting_for (thr st t)"
    "waiting_for_signal (thr st' t) = waiting_for_signal (thr st t)" "pending_signals (thr st' t) = pending_signals (thr st t)"
    "waited_signals (thr st' t) = waited_signals (thr st t)" "blocked_signals (thr st' t) = blocked_signals (thr st t)"
    using priv_sel [OF rest_thr [OF r, of t]] by simp_all
qed (use assms rest_sel [of st' st] in \<open>auto simp: calm_def\<close>)

text \<open>Terminated threads, and blocked threads outside every queue, are not touched.\<close>

lemma dead_untouchable:
  assumes "sched_inv st" "t \<in> live st" "th_state (thr st t) = THREAD_TERMINATED"
  shows "\<not> touchable st t" "t \<noteq> current_thread st"
  using sched_inv_wf [OF assms(1,2)] sched_inv_current(1) [OF assms(1)] assms(3)
  by (auto simp: touchable_def thread_wf_def)

lemma parked_untouchable:
  assumes "sched_inv st" "th_state (thr st t) = THREAD_BLOCKED" "entries (thr st t) = None"
  shows "\<not> touchable st t" "t \<noteq> current_thread st"
  using sched_inv_current(1) [OF assms(1)] assms(2,3) by (auto simp: touchable_def)

lemma calm_dead:
  assumes "sched_inv st" "calm st st'" "t \<in> live st"
  shows "th_state (thr st' t) = THREAD_TERMINATED \<longleftrightarrow> th_state (thr st t) = THREAD_TERMINATED"
  using calm_untouched(1) [OF assms(2) dead_untouchable(1) [OF assms(1,3)]] assms(2) by (auto simp: calm_def)

lemma calm_active:
  assumes "sched_inv st" "calm st st'"
  shows "active st' = active st"
  using calm_dead [OF assms] calm_fields(1) [OF assms(2)] by (auto simp: active_def)

lemma calm_sig_inv:
  assumes inv: "sched_inv st" "sig_inv st" and c: "calm st st'"
  shows "sig_inv st'"
  unfolding sig_inv_def
proof
  fix t assume "t \<in> live st'"
  then have ok: "sig_ok (thr st t)" using inv(2) calm_fields(1) [OF c] by (simp add: sig_inv_def)
  show "sig_ok (thr st' t)"
  proof (cases "waiting_for_signal (thr st t)")
    case True
    with ok have "\<not> touchable st t" using parked_untouchable(1) [OF inv(1)] by (simp add: sig_ok_def)
    with ok show ?thesis using calm_untouched [OF c] by (simp add: sig_ok_def calm_fields [OF c])
  next
    case False
    with ok show ?thesis by (simp add: sig_ok_def calm_fields [OF c])
  qed
qed

text \<open>A step keeps the join relation if it leaves the dead and the blocked joiners alone.\<close>

lemma join_inv_step:
  assumes ji: "join_inv st" and lv: "live st' = live st"
    and f: "\<And>t. joined_by (thr st' t) = joined_by (thr st t)" "\<And>t. waiting_for (thr st' t) = waiting_for (thr st t)"
    and dead: "\<And>t. t \<in> live st \<Longrightarrow> th_state (thr st' t) = THREAD_TERMINATED \<longleftrightarrow> th_state (thr st t) = THREAD_TERMINATED"
      "\<And>t. t \<in> live st \<Longrightarrow> th_state (thr st t) = THREAD_TERMINATED \<Longrightarrow> entries (thr st' t) = entries (thr st t)"
    and bl: "\<And>j. waiting_for (thr st j) \<noteq> None \<Longrightarrow> th_state (thr st j) = THREAD_BLOCKED \<Longrightarrow> entries (thr st j) = None \<Longrightarrow>
      \<not> waiting_for_signal (thr st j) \<Longrightarrow>
      th_state (thr st' j) = THREAD_BLOCKED \<and> entries (thr st' j) = None \<and> \<not> waiting_for_signal (thr st' j)"
    and rd: "\<And>j. waiting_for (thr st j) \<noteq> None \<Longrightarrow> th_state (thr st j) = THREAD_READY \<or> th_state (thr st j) = THREAD_RUNNING \<Longrightarrow>
      th_state (thr st' j) = THREAD_READY \<or> th_state (thr st' j) = THREAD_RUNNING"
  shows "join_inv st'"
proof -
  have "join_link st' t j" if t: "t \<in> live st" and l: "join_link st t j" for t j
  proof (cases "th_state (thr st t) = THREAD_TERMINATED")
    case True
    then show ?thesis using l dead [OF t] rd [of j] by (simp add: join_link_def f lv)
  next
    case False
    then show ?thesis using l dead(1) [OF t] bl [of j] by (simp add: join_link_def f lv)
  qed
  moreover have "join_done st' t" if "t \<in> live st" "join_done st t" for t
    using that dead(1) [OF that(1)] by (auto simp: join_done_def f lv)
  ultimately show ?thesis using ji unfolding join_inv_def f lv by blast
qed

lemma calm_join_inv:
  assumes inv: "sched_inv st" "join_inv st" and w: "waiting_for (thr st (current_thread st)) = None" and c: "calm st st'"
  shows "join_inv st'"
proof (rule join_inv_step [OF inv(2)])
  fix j assume j: "waiting_for (thr st j) \<noteq> None" "th_state (thr st j) = THREAD_READY \<or> th_state (thr st j) = THREAD_RUNNING"
  then have "j \<noteq> current_thread st" using w by auto
  with j(2) c show "th_state (thr st' j) = THREAD_READY \<or> th_state (thr st' j) = THREAD_RUNNING"
    unfolding calm_def by metis
next
  fix j assume "th_state (thr st j) = THREAD_BLOCKED" "entries (thr st j) = None" "\<not> waiting_for_signal (thr st j)"
  then show "th_state (thr st' j) = THREAD_BLOCKED \<and> entries (thr st' j) = None \<and> \<not> waiting_for_signal (thr st' j)"
    using calm_untouched [OF c parked_untouchable(1) [OF inv(1)]] by (simp add: calm_fields [OF c])
qed (use calm_fields [OF c] calm_dead [OF inv(1) c] calm_untouched [OF c dead_untouchable(1) [OF inv(1)]] in auto)

lemma calm_base_inv:
  assumes "base_inv st" "waiting_for (thr st (current_thread st)) = None" "calm st st'" "sched_inv st'"
  shows "base_inv st'"
  using assms calm_sig_inv [of st st'] calm_join_inv [of st st'] calm_fields(8,9) [OF assms(3)]
  by (simp add: base_inv_def gc_ok_def)

lemma current_active: "sched_inv st \<Longrightarrow> current_thread st \<in> active st"
  using sched_inv_current(1) by (auto simp: active_def sched_inv_def)

lemma user_invI:
  assumes "base_inv st" "S = active st - {current_thread st}" "ctxs_ok S st" "mem_inv (R \<union> pending S st) st"
    "R \<inter> pending S st = {}" "waiting_for (thr st (current_thread st)) = None"
  shows "user_inv R st"
  using assms by (simp add: user_inv_def)

lemma user_invD:
  assumes "user_inv R st"
  shows "base_inv st" "sched_inv st" "sig_inv st" "join_inv st" "gc_ok st"
    "waiting_for (thr st (current_thread st)) = None"
    "ctxs_ok (active st - {current_thread st}) st"
    "mem_inv (R \<union> pending (active st - {current_thread st}) st) st"
    "R \<inter> pending (active st - {current_thread st}) st = {}"
  using assms by (simp_all add: user_inv_def base_inv_def Let_def)

lemma switch_invD:
  assumes "switch_inv st"
  shows "base_inv st" "sched_inv st" "sig_inv st" "join_inv st" "gc_ok st" "ctxs_ok (active st) st"
    "mem_inv (pending (active st) st) st"
  using assms by (simp_all add: switch_inv_def base_inv_def)

text \<open>Suspending the running call.\<close>

lemma suspend_inv:
  assumes b: "base_inv st'" and a: "active st' = insert c S" "c \<notin> S"
    and S: "ctxs_ok S st'" "mem_inv (R \<union> pending S st') st'" "R \<inter> pending S st' = {}"
    and c: "ctx_ok (saved_ctx (thr st' c))" "creating (saved_ctx (thr st' c)) = R"
      "waiting_for (thr st' c) = join_target (saved_ctx (thr st' c))"
  shows "switch_inv st'"
  using assms by (simp add: switch_inv_def ctxs_ok_insert)

text \<open>Resuming a call that is not a join.\<close>

lemma switch_to_user:
  assumes "switch_inv st" and k: "saved_ctx (thr st (current_thread st)) = ks" "join_target ks = None"
  shows "user_inv (creating ks) st" "ctx_ok ks"
proof -
  let ?c = "current_thread st"
  note i = switch_invD [OF assms(1)]
  obtain S where S: "active st = insert ?c S" "?c \<notin> S" using current_active [OF i(2)] by (meson mk_disjoint_insert)
  have "ctxs_ok (insert ?c S) st" "mem_inv (pending (insert ?c S) st) st" using i(6,7) S by simp_all
  then show "user_inv (creating ks) st" "ctx_ok ks"
    using i(1) k S by (auto simp: ctxs_ok_insert user_inv_def)
qed

text \<open>What holds after a call, by outcome; when the process exits, the blocks that the exit handlers
  will free are allocated and different.\<close>

definition exit_inv :: "sys \<Rightarrow> bool" where
  "exit_inv st \<longleftrightarrow> queues_ok st \<and> gc_ok st \<and> distinct (blocks st) \<and> set (blocks st) \<subseteq> allocated st \<and>
     set (zombie_queue st) \<subseteq> allocated st \<and> set (zombie_queue st) \<inter> set (blocks st) = {}"

definition result_inv :: "tid set \<Rightarrow> outcome \<Rightarrow> sys \<Rightarrow> bool" where
  "result_inv R r st \<longleftrightarrow>
     (case r of Ret _ _ \<Rightarrow> user_inv R st | Switched \<Rightarrow> switch_inv st | Exited \<Rightarrow> exit_inv st | Killed \<Rightarrow> True)"

lemma calm_keeps:
  assumes u: "user_inv R st" and s': "sched_inv st'" and c: "calm_call F ks st st' r"
    and F: "\<And>k. k \<in> F \<Longrightarrow> ctx_ok (k @ ks) \<and> join_target (k @ ks) = None \<and> creating (k @ ks) = R"
  shows "result_inv R r st'"
proof -
  let ?c = "current_thread st" and ?S = "active st - {current_thread st}"
  note i = user_invD [OF u]
  have cm: "calm st st'" using c by (simp add: calm_call_def)
  note f = calm_fields [OF cm]
  have b: "base_inv st'" using calm_base_inv [OF i(1,6) cm s'] .
  have a: "active st' = active st" using calm_active [OF i(2) cm] .
  have S: "ctxs_ok ?S st' = ctxs_ok ?S st" "pending ?S st' = pending ?S st"
    by (rule ctxs_ok_cong pending_cong; simp add: f)+
  have m: "mem_inv (R \<union> pending ?S st) st'" using i(8) mem_inv_cong [of st' st] cm by (simp add: calm_def)
  show ?thesis
  proof (cases r)
    case (Ret i v)
    then have "current_thread st' = ?c" using c by (simp add: calm_call_def)
    then have "user_inv R st'" using b a S m i by (intro user_invI [where S = ?S]) (simp_all add: f)
    then show ?thesis using Ret by (simp add: result_inv_def)
  next
    case Switched
    then obtain k where k: "k \<in> F" "saved_ctx (thr st' ?c) = k @ ks" using c by (auto simp: calm_call_def)
    have "switch_inv st'"
      by (rule suspend_inv [of _ ?c ?S R]) (use b a S m i k F [OF k(1)] current_active [OF i(2)] in \<open>auto simp: f\<close>)
    then show ?thesis using Switched by (simp add: result_inv_def)
  qed (use c in \<open>simp_all add: calm_call_def\<close>)
qed

text \<open>A call is sound when it is defined and establishes the invariant.\<close>

definition sound :: "tid set \<Rightarrow> result \<Rightarrow> bool" where
  "sound R res \<longleftrightarrow> (\<exists>st' r. res = Some (st', r) \<and> result_inv R r st')"

lemma calm_sound:
  assumes "user_inv R st" "\<exists>st' r. res = Some (st', r) \<and> sched_inv st'"
    and "\<And>st' r. res = Some (st', r) \<Longrightarrow> calm_call F ks st st' r"
    and "\<And>k. k \<in> F \<Longrightarrow> ctx_ok (k @ ks) \<and> join_target (k @ ks) = None \<and> creating (k @ ks) = R"
  shows "sound R res"
  using assms(2) calm_keeps [OF assms(1) _ assms(3) assms(4)] by (auto simp: sound_def)

lemmas ctx_defs = ctx_ok_def below_yield_def join_target_def

lemma yield_sound:
  assumes "user_inv R st" "below_yield ks" "creating ks = R"
  shows "sound R (thread_yield ks st)"
  by (rule calm_sound [OF assms(1) _ yield_calm])
    (use yield_inv [OF user_invD(2) [OF assms(1)], of ks] user_invD(2) [OF assms(1)] assms in \<open>auto simp: ctx_ok_def join_target_def\<close>)

lemma yield_to_sound:
  assumes "user_inv {} st" "set_option t \<subseteq> live st"
  shows "sound {} (thread_yield_to [] t st)"
  by (rule calm_sound [OF assms(1) _ yield_to_calm])
    (use yield_to_inv [OF user_invD(2) [OF assms(1)], of t "[]"] user_invD(2) [OF assms(1)] assms in \<open>auto simp: ctx_defs\<close>)

lemma set_priority_sound:
  assumes "user_inv {} st" "set_option t \<subseteq> live st"
  shows "sound {} (thread_set_priority [] t p st)"
  by (rule calm_sound [OF assms(1) _ set_priority_calm])
    (use set_priority_inv [OF user_invD(2) [OF assms(1)], of t "[]" p] user_invD(2) [OF assms(1)] assms in \<open>auto simp: ctx_defs\<close>)

lemma mutex_lock_sound:
  assumes "user_inv {} st" "ks = [] \<or> (\<exists>i. ks = [F_cond_relock i])"
  shows "sound {} (thread_mutex_lock ks m st)"
  by (rule calm_sound [OF assms(1) _ mutex_lock_calm])
    (use lock_inv [OF user_invD(2) [OF assms(1)], of ks m] user_invD(2) [OF assms(1)] assms(2) in \<open>auto simp: ctx_defs\<close>)

lemma mutex_unlock_sound:
  assumes "user_inv {} st"
  shows "sound {} (thread_mutex_unlock m st)"
  by (rule calm_sound [OF assms(1) _ mutex_unlock_calm [where F = "{}" and ks = "[]"]])
    (use unlock_inv [OF user_invD(2) [OF assms(1)], of m] in auto)

lemma sem_wait_sound:
  assumes "user_inv {} st"
  shows "sound {} (thread_sem_wait [] s st)"
  by (rule calm_sound [OF assms(1) _ sem_wait_calm])
    (use sem_wait_ok [OF user_invD(2) [OF assms(1)], of "[]" s] user_invD(2) [OF assms(1)] in \<open>auto simp: ctx_defs\<close>)

lemma sem_post_sound:
  assumes "user_inv {} st" "\<forall>x \<in> set_option s. s_count st x < INT_MAX"
  shows "sound {} (thread_sem_post s st)"
  by (rule calm_sound [OF assms(1) _ sem_post_calm [where F = "{}" and ks = "[]"]])
    (use sem_post_ok [OF user_invD(2) [OF assms(1)], of s] assms(2) in auto)

lemma cond_wait_sound:
  assumes "user_inv {} st"
  shows "sound {} (thread_cond_wait [] c m st)"
  by (rule calm_sound [OF assms(1) _ cond_wait_calm])
    (use cond_wait_ok [OF user_invD(2) [OF assms(1)], of "[]" c m] user_invD(2) [OF assms(1)] in \<open>auto simp: ctx_defs\<close>)

lemma cond_relock_sound:
  assumes "user_inv {} st"
  shows "sound {} (cond_relock i [] m st)"
  by (rule calm_sound [OF assms(1) _ cond_relock_calm])
    (use cond_relock_ok [OF user_invD(2) [OF assms(1)], of i "[]" m] user_invD(2) [OF assms(1)] in \<open>auto simp: ctx_defs\<close>)

lemma cond_signal_sound:
  assumes u: "user_inv {} st"
  shows "sound {} (thread_cond_signal c st)"
proof (rule calm_sound [OF u _ cond_signal_calm [where F = "{}" and ks = "[]"]])
  show "\<exists>st' r. thread_cond_signal c st = Some (st', r) \<and> sched_inv st'"
  proof (cases c)
    case None
    then show ?thesis using user_invD(2) [OF u] by (simp add: thread_cond_signal_def)
  next
    case (Some x)
    then show ?thesis using user_invD(2) [OF u] cond_signal_wakes [OF user_invD(2) [OF u], of x] cond_signal_empty [of st x]
      by (cases "queues st (CondQ x)") auto
  qed
qed auto

lemma cond_broadcast_sound:
  assumes u: "user_inv {} st"
  shows "sound {} (thread_cond_broadcast c st)"
proof (rule calm_sound [OF u _ cond_broadcast_calm [where F = "{}" and ks = "[]"]])
  show "\<exists>st' r. thread_cond_broadcast c st = Some (st', r) \<and> sched_inv st'"
  proof (cases c)
    case None
    then show ?thesis using user_invD(2) [OF u] by (simp add: thread_cond_broadcast_def)
  next
    case (Some x)
    then show ?thesis using cond_broadcast_wakes [OF user_invD(2) [OF u], of x] by blast
  qed
qed auto

text \<open>Initialising and destroying synchronisation objects.\<close>

lemma object_sound:
  assumes u: "user_inv {} st"
  shows "sound {} (Some (st, Ret i No_out))"
    "sound {} (Some (st\<lparr>m_locked := l\<rparr>, Ret i No_out))" "sound {} (Some (st\<lparr>s_count := n\<rparr>, Ret i No_out))"
    "sound {} (Some (st\<lparr>m_locked := l, initialised := Q, bare_inits := B\<rparr>, Ret i No_out))"
    "sound {} (Some (st\<lparr>s_count := n, initialised := Q, bare_inits := B\<rparr>, Ret i No_out))"
    "sound {} (Some (st\<lparr>initialised := Q, bare_inits := B\<rparr>, Ret i No_out))"
proof -
  have *: "sound {} (Some (st', Ret i No_out))" if "calm st st'" "current_thread st' = current_thread st" "sched_inv st'" for st'
    by (rule calm_sound [OF u, where F = "{}" and ks = "[]"]) (use that in \<open>auto simp: calm_call_def\<close>)
  note i = user_invD(2) [OF u]
  show "sound {} (Some (st, Ret i No_out))"
    "sound {} (Some (st\<lparr>m_locked := l\<rparr>, Ret i No_out))" "sound {} (Some (st\<lparr>s_count := n\<rparr>, Ret i No_out))"
    "sound {} (Some (st\<lparr>m_locked := l, initialised := Q, bare_inits := B\<rparr>, Ret i No_out))"
    "sound {} (Some (st\<lparr>s_count := n, initialised := Q, bare_inits := B\<rparr>, Ret i No_out))"
    "sound {} (Some (st\<lparr>initialised := Q, bare_inits := B\<rparr>, Ret i No_out))"
    by (rule *; simp add: i)+
qed

lemma tailq_init_empty:
  "queues st q = [] \<Longrightarrow> tailq_init q st = st\<lparr>initialised := insert q (initialised st),
     bare_inits := (if preemptible st then insert q (bare_inits st) else bare_inits st)\<rparr>"
  by (simp add: tailq_init_def fun_upd_idem)

lemma init_destroy_sound:
  assumes u: "user_inv {} st"
  shows "\<forall>x \<in> set_option m. queues st (MutexQ x) = [] \<Longrightarrow> sound {} (thread_mutex_init m st)"
    "\<forall>x \<in> set_option s. queues st (SemQ x) = [] \<Longrightarrow> sound {} (thread_sem_init s v st)"
    "\<forall>x \<in> set_option c. queues st (CondQ x) = [] \<Longrightarrow> sound {} (thread_cond_init c st)"
    "sound {} (thread_mutex_destroy m st)" "sound {} (thread_sem_destroy s st)" "sound {} (thread_cond_destroy c st)"
proof -
  note eqs = object_sound [OF u] tailq_init_empty
  show "\<forall>x \<in> set_option m. queues st (MutexQ x) = [] \<Longrightarrow> sound {} (thread_mutex_init m st)"
    "sound {} (thread_mutex_destroy m st)"
    by (cases m; simp add: thread_mutex_init_def thread_mutex_destroy_def eqs)+
  show "\<forall>x \<in> set_option s. queues st (SemQ x) = [] \<Longrightarrow> sound {} (thread_sem_init s v st)"
    "sound {} (thread_sem_destroy s st)"
    by (cases s; simp add: thread_sem_init_def thread_sem_destroy_def eqs)+
  show "\<forall>x \<in> set_option c. queues st (CondQ x) = [] \<Longrightarrow> sound {} (thread_cond_init c st)"
    "sound {} (thread_cond_destroy c st)"
    by (cases c; simp add: thread_cond_init_def thread_cond_destroy_def eqs)+
qed

section \<open>Signals\<close>

lemma sigwait_step_mem:
  "sigwait_step ks sigs st = Some (st', r) \<Longrightarrow> mem_part st' = mem_part st"
  by (auto simp: sigwait_step_def Let_def mem_part_upd_thread stack_part_def mem_part_ops split: if_splits option.splits
      dest!: mem_part_ops(1))

lemma send_mem: "thread_signal_send t sig st = Some (st', r) \<Longrightarrow> mem_part st' = mem_part st"
  by (auto simp: thread_signal_send_def Let_def mem_part_upd_thread stack_part_def split: if_splits option.splits
      dest!: mem_part_ops(2))

text \<open>A return that changes no field that the invariant relates to other threads.\<close>

lemma user_inv_same:
  assumes u: "user_inv R st" and s': "sched_inv st'" "sig_inv st'" and m: "mem_part st' = mem_part st"
    and q: "current_thread st' = current_thread st" "zombie_queue st' = zombie_queue st"
      "zombie_initialized st' = zombie_initialized st"
    and f: "\<And>t. joined_by (thr st' t) = joined_by (thr st t)" "\<And>t. waiting_for (thr st' t) = waiting_for (thr st t)"
      "\<And>t. saved_ctx (thr st' t) = saved_ctx (thr st t)"
    and js: "join_inv st'" and dead: "active st' = active st"
  shows "user_inv R st'"
proof -
  note i = user_invD [OF u]
  let ?S = "active st - {current_thread st}"
  have "ctxs_ok ?S st' = ctxs_ok ?S st" "pending ?S st' = pending ?S st"
    by (rule ctxs_ok_cong pending_cong; simp add: f)+
  moreover have "base_inv st'" using i(1) s' js q by (simp add: base_inv_def gc_ok_def)
  ultimately show ?thesis using i q f(2) mem_part_inv [OF m] dead by (intro user_invI [where S = ?S]) simp_all
qed

lemma user_inv_upd:
  assumes u: "user_inv R st"
    and f: "\<And>x. sched_part (f x) = sched_part x" "\<And>x. joined_by (f x) = joined_by x" "\<And>x. waiting_for (f x) = waiting_for x"
      "\<And>x. saved_ctx (f x) = saved_ctx x" "\<And>x. stack_part (f x) = stack_part x" "\<And>x. head_joiner (f x) = head_joiner x"
      "\<And>x. waiting_for_signal (f x) \<Longrightarrow> waiting_for_signal x"
    and ok: "t \<in> live st \<Longrightarrow> sig_ok (f (thr st t))"
  shows "user_inv R (upd_thread t f st)"
proof (rule user_inv_same [OF u])
  note i = user_invD [OF u]
  have p: "th_state (f x) = th_state x" "entries (f x) = entries x" for x using sched_part_eqD [OF f(1)] by simp_all
  show "sched_inv (upd_thread t f st)" using i(2) f(1) by (simp add: sched_inv_upd_private)
  show "sig_inv (upd_thread t f st)" by (rule sig_inv_upd [OF i(3)]) (rule ok)
  show "mem_part (upd_thread t f st) = mem_part st" using f by (simp add: mem_part_upd_thread)
  show "join_inv (upd_thread t f st)"
    by (rule join_inv_step [OF i(4)]) (use f(2,3,7) p in \<open>auto simp: upd_thread_def\<close>)
  show "active (upd_thread t f st) = active st" by (auto simp: active_def upd_thread_def p)
qed (use f in \<open>auto simp: upd_thread_def\<close>)

lemma user_inv_mask [simp]:
  "user_inv R (block st) = user_inv R st" "user_inv R (unblock st) = user_inv R st"
  "user_inv R (st\<lparr>errno := e\<rparr>) = user_inv R st" "user_inv R (st\<lparr>sigmask := m\<rparr>) = user_inv R st"
proof -
  have *: "user_inv R st' = user_inv R st" if "sched_inv st' = sched_inv st" "mem_part st' = mem_part st" "thr st' = thr st"
    "current_thread st' = current_thread st" "queues st' = queues st" "live st' = live st" "zombie_initialized st' = zombie_initialized st"
    for st'
    using that(1,3-) mem_part_inv [OF that(2)]
    by (simp add: user_inv_def base_inv_def Let_def sig_inv_def join_inv_def join_link_def join_done_def gc_ok_def
        active_def ctxs_ok_def pending_def)
  show "user_inv R (block st) = user_inv R st" "user_inv R (unblock st) = user_inv R st"
    "user_inv R (st\<lparr>errno := e\<rparr>) = user_inv R st" "user_inv R (st\<lparr>sigmask := m\<rparr>) = user_inv R st"
    by (rule *; simp add: state_eqs)+
qed

lemma upd_thread_cong: "f (thr st t) = g (thr st t) \<Longrightarrow> upd_thread t f st = upd_thread t g st"
  by (simp add: upd_thread_def)

lemma current_not_sigwaiting:
  "sched_inv st \<Longrightarrow> sig_inv st \<Longrightarrow> \<not> waiting_for_signal (thr st (current_thread st)) \<and> blocked_signals (thr st (current_thread st)) = 0"
  using sched_inv_current(1) [of st] by (auto simp: sig_inv_def sig_ok_def sched_inv_def)

text \<open>Blocking outside every queue: the caller waits for a signal or for the end of a thread.\<close>

lemma block_outside:
  assumes u: "user_inv R st" and s': "sched_inv st'" "sig_inv st'" "join_inv st'" and lv: "live st' = live st"
    and q: "queues st' = (queues st)(ReadyQ := ns)" "ready_queue st = n # ns" "zombie_initialized st' = zombie_initialized st"
    and m: "mem_inv (R \<union> pending (active st - {current_thread st}) st) st'"
    and o: "\<And>t. t \<noteq> current_thread st \<Longrightarrow> saved_ctx (thr st' t) = saved_ctx (thr st t) \<and>
        waiting_for (thr st' t) = waiting_for (thr st t) \<and> (th_state (thr st' t) = th_state (thr st t) \<or> t = n)"
    and cur: "current_thread st' = n" "n \<noteq> current_thread st" "th_state (thr st' (current_thread st)) = THREAD_BLOCKED"
      "ctx_ok (saved_ctx (thr st' (current_thread st)))" "creating (saved_ctx (thr st' (current_thread st))) = R"
      "waiting_for (thr st' (current_thread st)) = join_target (saved_ctx (thr st' (current_thread st)))"
  shows "switch_inv st'"
proof -
  let ?c = "current_thread st" and ?S = "active st - {current_thread st}"
  note i = user_invD [OF u]
  have "th_state (thr st n) = THREAD_READY" "th_state (thr st' n) = THREAD_RUNNING"
    using ready_state(1) [OF i(2), of n] q(2) sched_inv_current(1) [OF s'(1)] cur(1) by simp_all
  then have dead: "th_state (thr st' t) = THREAD_TERMINATED \<longleftrightarrow> th_state (thr st t) = THREAD_TERMINATED" for t
    using o [of t] cur(3) sched_inv_current(1) [OF i(2)] by (cases "t = ?c") auto
  have a: "active st' = insert ?c ?S" using current_active [OF i(2)] by (auto simp: active_def dead lv)
  have S: "ctxs_ok ?S st' = ctxs_ok ?S st" "pending ?S st' = pending ?S st"
    by (rule ctxs_ok_cong pending_cong; simp add: o)+
  have "base_inv st'" using i(1) s' q by (simp add: base_inv_def gc_ok_def)
  then show ?thesis by (rule suspend_inv [OF _ a]) (use S i m cur in simp_all)
qed

lemma sigwait_step_sound:
  assumes u: "user_inv {} st"
  shows "sound {} (sigwait_step [] sigs st)"
proof -
  let ?c = "current_thread st"
  note i = user_invD [OF u] and w = current_not_sigwaiting [OF user_invD(2,3) [OF u]]
  have run: "th_state (thr st ?c) = THREAD_RUNNING" using sched_inv_current(1) [OF i(2)] .
  have sig: "sig_ok (thr st ?c)" using i(2,3) by (simp add: sig_inv_def sched_inv_def)
  consider (take) "(pending_signals (thr st ?c) AND sigs) AND NOT (blocked_signals (thr st ?c)) \<noteq> 0"
    | (none) "(pending_signals (thr st ?c) AND sigs) AND NOT (blocked_signals (thr st ?c)) = 0" "ready_queue st = []"
    | (wait) n ns where "(pending_signals (thr st ?c) AND sigs) AND NOT (blocked_signals (thr st ?c)) = 0" "ready_queue st = n # ns"
    by (cases "ready_queue st") auto
  then show ?thesis
  proof cases
    case take
    then show ?thesis using sigwait_takes [OF take, of "[]"] w
      by (auto simp: sound_def result_inv_def sched_part_def stack_part_def sig_ok_def intro!: user_inv_upd [OF u])
  next
    case none
    let ?f = "\<lambda>x. x\<lparr>waiting_for_signal := False, waited_signals := 0, th_state := THREAD_RUNNING\<rparr>"
    let ?g = "\<lambda>x. x\<lparr>waiting_for_signal := False, waited_signals := 0\<rparr>"
    have "?f (thr st ?c) = ?g (thr st ?c)" by (rule thread.equality) (simp_all add: run)
    then have "upd_thread ?c ?f st = upd_thread ?c ?g st" by (rule upd_thread_cong)
    moreover have "user_inv {} (upd_thread ?c ?g st)"
      by (rule user_inv_upd [OF u]) (use sig in \<open>simp_all add: sched_part_def stack_part_def sig_ok_def\<close>)
    ultimately show ?thesis using sigwait_deadlock [OF none, of "[]"] by (simp add: sound_def result_inv_def)
  next
    case wait
    from sigwait_blocks [OF i(2) wait(2,1), of "[]"] obtain st' where st': "sigwait_step [] sigs st = Some (st', Switched)"
      "sched_inv st'" "current_thread st' = n" "live st' = live st" "queues st' = (queues st)(ReadyQ := ns)"
      "\<forall>t. t \<noteq> ?c \<longrightarrow> t \<noteq> n \<longrightarrow> thr st' t = thr st t"
      "thr st' ?c = (thr st ?c)\<lparr>saved_ctx := [F_sigwait sigs], th_state := THREAD_BLOCKED, waited_signals := sigs, waiting_for_signal := True\<rparr>"
      "thr st' n = (thr st n)\<lparr>entries := None, th_state := THREAD_RUNNING, in_ready_queue := False\<rparr>" by auto
    have n: "n \<noteq> ?c" "th_state (thr st n) = THREAD_READY" using ready_state(1) [OF i(2), of n] wait(2) run by auto
    have T: "thr st' t = (if t = ?c then (thr st ?c)\<lparr>saved_ctx := [F_sigwait sigs], th_state := THREAD_BLOCKED, waited_signals := sigs, waiting_for_signal := True\<rparr>
      else if t = n then (thr st n)\<lparr>entries := None, th_state := THREAD_RUNNING, in_ready_queue := False\<rparr> else thr st t)" for t
      using st'(6-8) by simp
    note z = mem_part_zombie [OF sigwait_step_mem [OF st'(1)]]
    have "join_inv st'" by (rule join_inv_step [OF i(4) st'(4)]) (use run n i(6) in \<open>auto simp: T split: if_splits\<close>)
    then have "switch_inv st'"
      by (intro block_outside [OF u st'(2) sigwait_step_sig_inv [OF i(2,3) st'(1)] _ st'(4,5) wait(2) z])
        (use mem_part_inv [OF sigwait_step_mem [OF st'(1)]] i(6,8) n in \<open>auto simp: T st'(3) ctx_defs\<close>)
    then show ?thesis using st'(1) by (simp add: sound_def result_inv_def)
  qed
qed

lemma sigwait_sound:
  assumes u: "user_inv {} st"
  shows "sound {} (thread_sigwait [] sigs p st)"
  using sigwait_step_sound [of "block st"] u
  by (simp add: thread_sigwait_def sound_def result_inv_def)

lemma send_sound:
  assumes u: "user_inv {} st" and t: "set_option t \<subseteq> live st"
  shows "sound {} (thread_signal_send t sig st)"
proof (cases "\<exists>x. t = Some x \<and> 1 \<le> sig \<and> sig \<le> 32")
  case False
  then have "thread_signal_send t sig st = Some (set_errno EINVAL st, Ret (-1) No_out)"
    using send_invalid [of sig t st] by (cases t) (auto simp: thread_signal_send_def)
  with u show ?thesis by (simp add: sound_def result_inv_def)
next
  case True
  then obtain x where x: "t = Some x" "1 \<le> sig" "sig \<le> 32" "x \<in> live st" using t by auto
  note i = user_invD [OF u]
  from send_inv [OF i(2,3), of t sig] t obtain st' r where st': "thread_signal_send t sig st = Some (st', Ret r No_out)"
    "sched_inv st'" "sig_inv st'" by auto
  have ok: "sig_ok (thr st x)" using i(3) x(4) by (simp add: sig_inv_def)
  have "user_inv {} st'"
  proof (cases "th_state (thr st x) = THREAD_BLOCKED \<and> waiting_for_signal (thr st x) \<and>
      waited_signals (thr st x) AND thread_signal_bit sig \<noteq> 0")
    case True
    then have w: "th_state (thr st x) = THREAD_BLOCKED" "waiting_for_signal (thr st x)" by simp_all
    from send_wakes [OF i(2) x(4) _ x(2,3) w] True ok st'(1) x(1) have s: "current_thread st' = current_thread st" "live st' = live st"
      "queues st' = (queues st)(ReadyQ := ready_insert st x)"
      "thr st' = (thr st)(x := (thr st x)\<lparr>entries := Some ReadyQ, th_state := THREAD_READY, in_ready_queue := True,
        pending_signals := pending_signals (thr st x) OR thread_signal_bit sig, waited_signals := 0, waiting_for_signal := False\<rparr>)"
      by (auto simp: sig_ok_def)
    note z = mem_part_zombie [OF send_mem [OF st'(1)]]
    have nj: "waiting_for (thr st x) = None"
    proof (rule ccontr)
      assume "waiting_for (thr st x) \<noteq> None"
      then obtain v where "waiting_for (thr st x) = Some v" by auto
      then have "join_link st v x" using join_inv_waits [OF i(4) x(4)] by blast
      then show False using w by (auto simp: join_link_def split: if_splits)
    qed
    have "join_inv st'" by (rule join_inv_step [OF i(4) s(2)]) (use nj w in \<open>auto simp: s(4)\<close>)
    then show ?thesis
      by (intro user_inv_same [OF u st'(2,3) send_mem [OF st'(1)] s(1) _ z])
        (use w in \<open>auto simp: s active_def\<close>)
  next
    case False
    from send_pending_only [OF x(2,3) False] st'(1) x(1)
    have e: "st' = unblock (add_pending sig x (block st))" by simp
    have u': "user_inv {} (block st)" using u by simp
    have "live st' = live st" by (simp add: e upd_thread_def)
    then have "sig_ok (thr st' x)" using st'(3) x(4) by (simp add: sig_inv_def)
    then have "sig_ok ((thr st x)\<lparr>pending_signals := pending_signals (thr st x) OR thread_signal_bit sig\<rparr>)"
      by (simp add: e upd_thread_def)
    then have "user_inv {} (add_pending sig x (block st))"
      by (intro user_inv_upd [OF u']) (simp_all add: sched_part_def stack_part_def)
    then show ?thesis by (simp add: e)
  qed
  then show ?thesis using st'(1) by (simp add: sound_def result_inv_def)
qed

end
