(* ===== verification/Exit_Join_Invariant.thy ===== *)
theory Exit_Join_Invariant
  imports System_Invariant
begin

text \<open>
  Joining, termination and the exit of the process keep the invariant of \<open>System_Invariant\<close>.
\<close>

section \<open>Joining\<close>

text \<open>The invariant without its join part, and the join part for all threads but one.\<close>

definition user_parts :: "tid set \<Rightarrow> sys \<Rightarrow> bool" where
  "user_parts R st \<longleftrightarrow>
     (let S = active st - {current_thread st}
      in sched_inv st \<and> sig_inv st \<and> gc_ok st \<and> main_thread \<notin> set (zombie_queue st) \<and> ctxs_ok S st \<and>
         mem_inv (R \<union> pending S st) st \<and> R \<inter> pending S st = {} \<and> waiting_for (thr st (current_thread st)) = None)"

definition join_except :: "tid \<Rightarrow> sys \<Rightarrow> bool" where
  "join_except t st \<longleftrightarrow>
     (\<forall>v \<in> live st - {t}. \<forall>j. joined_by (thr st v) = Some j \<longrightarrow> join_link st v j \<and> j \<noteq> t \<or> join_done st v) \<and>
     (\<forall>j \<in> live st - {t}. \<forall>v. waiting_for (thr st j) = Some v \<longrightarrow> v \<noteq> t \<and> v \<in> live st \<and> joined_by (thr st v) = Some j)"

lemma user_inv_iff: "user_inv R st \<longleftrightarrow> join_inv st \<and> user_parts R st"
  by (auto simp: user_inv_def user_parts_def base_inv_def Let_def)

lemma join_mask [simp]:
  "user_parts R (block st) = user_parts R st" "user_parts R (unblock st) = user_parts R st"
  "join_except t (block st) = join_except t st" "join_except t (unblock st) = join_except t st"
proof -
  have *: "user_parts R st' = user_parts R st" "join_except t st' = join_except t st"
    if "sched_inv st' = sched_inv st" "mem_part st' = mem_part st" "thr st' = thr st"
    "current_thread st' = current_thread st" "queues st' = queues st" "live st' = live st" for st'
    using that(1,3-) mem_part_inv [OF that(2)] mem_part_zombie [OF that(2)]
    by (simp_all add: user_parts_def Let_def sig_inv_def join_except_def join_link_def join_done_def gc_ok_def
        active_def ctxs_ok_def pending_def)
  show "user_parts R (block st) = user_parts R st" "user_parts R (unblock st) = user_parts R st"
    "join_except t (block st) = join_except t st" "join_except t (unblock st) = join_except t st"
    by (rule *; simp)+
qed

lemma reap_user:
  assumes u: "user_parts R st" and j: "join_except t st"
    and t: "t \<in> live st" "t \<noteq> main_thread" "th_state (thr st t) = THREAD_TERMINATED"
  shows "\<exists>st'. reap t st = Some st' \<and> user_inv R st'"
proof -
  let ?c = "current_thread st" and ?S = "active st - {current_thread st}"
  have i: "sched_inv st" "sig_inv st" "gc_ok st" "main_thread \<notin> set (zombie_queue st)" "ctxs_ok ?S st"
    "mem_inv (R \<union> pending ?S st) st" "R \<inter> pending ?S st = {}" "waiting_for (thr st ?c) = None"
    using u by (simp_all add: user_parts_def Let_def)
  have tc: "t \<noteq> ?c" using t(3) sched_inv_current(1) [OF i(1)] by auto
  have c: "flight_inv {} (Some ?c) st" "?c \<in> live st" using i(1) by (simp_all add: sched_inv_def)
  from reap_ok [OF c(1) i(6,3) t(1,2) tc t(3)] obtain st' where st': "reap t st = Some st'"
    "flight_inv {} (Some ?c) st'" "mem_inv (R \<union> pending ?S st) st'" "gc_ok st'" "live st' = live st - {t}"
    "\<forall>u. u \<noteq> t \<longrightarrow> thr st' u = thr st u" "current_thread st' = ?c"
    "queues st' = (queues st)(ZombieQ := remove1 t (zombie_queue st))" by blast
  have o: "thr st' x = thr st x" if "x \<in> ?S" for x using that st'(6) t(3) by (auto simp: active_def)
  have a: "active st' = active st" using st'(5,6) t(3) by (auto simp: active_def)
  have S: "ctxs_ok ?S st' = ctxs_ok ?S st" "pending ?S st' = pending ?S st"
    by (rule ctxs_ok_cong pending_cong; simp add: o)+
  have "sched_inv st'" using st'(2,5,7) c(2) tc by (simp add: sched_inv_def)
  moreover have "sig_inv st'" using i(2) st'(5,6) by (simp add: sig_inv_def)
  moreover have "main_thread \<notin> set (zombie_queue st')" using i(4) st'(8) notin_set_remove1 [of main_thread "zombie_queue st" t] by simp
  ultimately have "user_parts R st'" using i st' S a tc by (simp add: user_parts_def Let_def)
  moreover have "join_inv st'"
    unfolding join_inv_def
  proof (intro conjI ballI allI impI)
    fix v k assume v: "v \<in> live st'" "joined_by (thr st' v) = Some k"
    then have vt: "v \<in> live st - {t}" "v \<noteq> t" "thr st' v = thr st v" using st'(5,6) by simp_all
    with v(2) have "joined_by (thr st v) = Some k" by simp
    with j vt(1) have "join_link st v k \<and> k \<noteq> t \<or> join_done st v" unfolding join_except_def by blast
    then show "join_link st' v k \<or> join_done st' v"
    proof
      assume "join_link st v k \<and> k \<noteq> t"
      then have "join_link st' v k" using st'(5,6) vt(3) by (simp add: join_link_def)
      then show ?thesis ..
    next
      assume "join_done st v"
      then have "join_done st' v" using st'(5,6) vt(3) by (auto simp: join_done_def)
      then show ?thesis ..
    qed
  next
    fix k v assume k: "k \<in> live st'" "waiting_for (thr st' k) = Some v"
    then have kt: "k \<in> live st - {t}" "thr st' k = thr st k" using st'(5,6) by simp_all
    with k(2) have "waiting_for (thr st k) = Some v" by simp
    with j kt(1) have "v \<noteq> t" "v \<in> live st" "joined_by (thr st v) = Some k" unfolding join_except_def by blast+
    then show "v \<in> live st'" "joined_by (thr st' v) = Some k" using st'(5,6) by simp_all
  qed
  ultimately show ?thesis using st'(1) by (auto simp: user_inv_iff)
qed

text \<open>Neither a joiner nor a joined thread: the target of a join that finds it terminated.\<close>

lemma join_except_free:
  assumes "join_inv st" "t \<in> live st" "joined_by (thr st t) = None" "th_state (thr st t) = THREAD_TERMINATED"
  shows "join_except t st"
  unfolding join_except_def
proof (intro conjI ballI allI impI)
  fix v j assume v: "v \<in> live st - {t}" "joined_by (thr st v) = Some j"
  then have "join_link st v j \<or> join_done st v" using join_inv_cases [OF assms(1)] by blast
  moreover have "j \<noteq> t" if "join_link st v j" using that assms(4) by (auto simp: join_link_def split: if_splits)
  ultimately show "join_link st v j \<and> j \<noteq> t \<or> join_done st v" by blast
next
  fix j v assume "j \<in> live st - {t}" "waiting_for (thr st j) = Some v"
  then have "v \<in> live st \<and> joined_by (thr st v) = Some j" using assms(1) by (auto simp: join_inv_def)
  then show "v \<noteq> t" "v \<in> live st" "joined_by (thr st v) = Some j" using assms(3) by auto
qed

lemma reap_main [simp]: "reap main_thread st = Some st"
  by (simp add: reap_def)

text \<open>The end of a join whose target has terminated.\<close>

lemma join_finish_sound:
  assumes "user_parts {} st" "join_except t st" "t = main_thread \<Longrightarrow> join_inv st"
    and t: "t \<in> live st" "th_state (thr st t) = THREAD_TERMINATED"
  shows "sound {} (join_finish t want st)"
proof -
  let ?b = "block (unblock st)"
  have "\<exists>st'. reap t ?b = Some st' \<and> user_inv {} st'"
  proof (cases "t = main_thread")
    case True
    have "user_inv {} st" using assms(1,3) True by (simp add: user_inv_iff)
    then show ?thesis using True by simp
  next
    case False
    then show ?thesis using reap_user [of "{}" ?b t] assms by simp
  qed
  then show ?thesis
    by (cases "stack_overflow (thr st t)") (auto simp: join_finish_def Let_def sound_def result_inv_def)
qed

lemma join_terminated_sound:
  assumes u: "user_inv {} st" and t: "t \<in> live st" "joined_by (thr st t) = None" "t \<noteq> current_thread st"
    "th_state (thr st t) = THREAD_TERMINATED"
  shows "sound {} (thread_join [] (Some t) want st)"
proof -
  have "\<exists>st'. reap t (block st) = Some st' \<and> user_inv {} st'"
  proof (cases "t = main_thread")
    case False
    then show ?thesis using reap_user [of "{}" "block st" t] u join_except_free [OF user_invD(4) [OF u] t(1,2,4)] t
      by (simp add: user_inv_iff)
  qed (simp add: u)
  then show ?thesis by (auto simp: join_terminated_eq [OF t(2-4)] sound_def result_inv_def)
qed

text \<open>The joiner runs again: its target has terminated and waits outside the zombie queue.\<close>

lemma join_resumed:
  assumes sw: "switch_inv st" and k: "saved_ctx (thr st (current_thread st)) = [F_join t want]"
  shows "t \<in> live st" "th_state (thr st t) = THREAD_TERMINATED" "joined_by (thr st t) = Some (current_thread st)"
    "t \<noteq> current_thread st" "waiting_for (thr st (current_thread st)) = Some t"
proof -
  let ?c = "current_thread st"
  note i = switch_invD [OF sw]
  have c: "?c \<in> active st" "?c \<in> live st" using current_active [OF i(2)] by (auto simp: active_def)
  show w: "waiting_for (thr st ?c) = Some t" using i(6) c(1) k by (auto simp: ctxs_ok_def join_target_def)
  have l: "t \<in> live st \<and> joined_by (thr st t) = Some ?c \<and> join_link st t ?c" using join_inv_waits [OF i(4) c(2) w] .
  then show "t \<in> live st" "joined_by (thr st t) = Some ?c" "t \<noteq> ?c" by (auto simp: join_link_def)
  show "th_state (thr st t) = THREAD_TERMINATED"
    using l sched_inv_current(1) [OF i(2)] by (auto simp: join_link_def split: if_splits)
qed

lemma join_resume_sound:
  assumes sw: "switch_inv st" and k: "saved_ctx (thr st (current_thread st)) = [F_join t want]"
  shows "sound {} (join_resume t want st)"
proof -
  let ?c = "current_thread st"
  let ?f = "\<lambda>x. x\<lparr>waiting_for := None :: tid option, th_state := THREAD_RUNNING\<rparr>"
  let ?g = "\<lambda>x. x\<lparr>waiting_for := None :: tid option\<rparr>"
  let ?s = "upd_thread ?c ?g st"
  note i = switch_invD [OF sw] and t = join_resumed [OF assms]
  have "?f (thr st ?c) = ?g (thr st ?c)" by (rule thread.equality) (simp_all add: sched_inv_current(1) [OF i(2)])
  then have eq: "upd_thread ?c ?f st = ?s" by (rule upd_thread_cong)
  obtain S where S: "active st = insert ?c S" "?c \<notin> S" using current_active [OF i(2)] by (meson mk_disjoint_insert)
  have a: "active ?s = active st" by (auto simp: active_def upd_thread_def)
  have cx: "ctxs_ok S ?s = ctxs_ok S st" "pending S ?s = pending S st"
    by (rule ctxs_ok_cong pending_cong; use S(2) in \<open>auto simp: upd_thread_def\<close>)+
  have m: "mem_part ?s = mem_part st" by (simp add: mem_part_upd_thread stack_part_def)
  have "ctxs_ok S st" "mem_inv (pending S st) st" using i(6,7) S k by (auto simp: ctxs_ok_insert creating_def)
  moreover have "sig_inv ?s" using i(3) by (auto simp: sig_inv_def sig_ok_def upd_thread_def)
  ultimately have p: "user_parts {} ?s"
    using i(1,2) S a cx mem_part_inv [OF m] by (simp add: user_parts_def base_inv_def sched_inv_upd_private sched_part_def gc_ok_def)
      (simp add: upd_thread_def)
  have J: "join_link ?s v j \<and> j \<noteq> t \<or> join_done ?s v" if v: "v \<in> live st" "v \<noteq> t" "joined_by (thr st v) = Some j" for v j
    using join_inv_cases [OF i(4) v(1,3)]
  proof
    assume l: "join_link st v j"
    then have "j \<noteq> ?c" "j \<noteq> t" using t v(2) by (auto simp: join_link_def split: if_splits)
    with l show ?thesis by (auto simp: join_link_def upd_thread_def)
  next
    assume "join_done st v"
    then have "join_done ?s v" by (auto simp: join_done_def upd_thread_def)
    then show ?thesis ..
  qed
  have W: "v \<noteq> t \<and> v \<in> live st \<and> joined_by (thr st v) = Some j" if "j \<in> live st" "waiting_for (thr ?s j) = Some v" for j v
  proof -
    from that(2) have j: "j \<noteq> ?c" "waiting_for (thr st j) = Some v" by (auto simp: upd_thread_def split: if_splits)
    with join_inv_waits [OF i(4) that(1)] t show ?thesis by auto
  qed
  have x: "joined_by (thr ?s v) = joined_by (thr st v)" "th_state (thr ?s v) = th_state (thr st v)" "live ?s = live st" for v
    by (simp_all add: upd_thread_def)
  have "join_except t ?s" using J W unfolding join_except_def x by blast
  moreover have "join_inv ?s" if "t = main_thread"
  proof -
    have "join_done ?s t" using W t that by (auto simp: join_done_def x)
    then show ?thesis using J W unfolding join_inv_def x by blast
  qed
  ultimately show ?thesis using join_finish_sound [of ?s t want] p t by (simp add: join_resume_def eq x)
qed

lemma register_mem:
  assumes "mem_inv R st" "t \<in> live st" "head_joiner (thr st t) = Some r"
  shows "mem_inv R (join_register c t r ext st)"
proof -
  let ?s = "join_register c t r ext st"
  have m: "stack_part (thr ?s x) = stack_part (thr st x)" for x by (auto simp: join_register_thr Let_def stack_part_def)
  have e: "os_mmap ?s = os_mmap st" "os_malloc ?s = os_malloc st" "stack_pool ?s = stack_pool st" "mapped ?s = mapped st"
    "deferred_stacks ?s = deferred_stacks st" "thread_pool ?s = thread_pool st" "allocated ?s = allocated st"
    "head_ref_chunks ?s = head_ref_chunks st" "head_ref_chunks_ptr ?s = head_ref_chunks_ptr st"
    "head_ref_active_chunk ?s = head_ref_active_chunk st" "head_ref_active_index ?s = head_ref_active_index st"
    by (simp_all add: join_register_def upd_thread_def Let_def)
  have "stacks_ok ?s = stacks_ok st" by (rule stacks_ok_cong) (simp_all add: e m)
  moreover have "structs_ok R ?s = structs_ok R st" by (rule structs_ok_cong) (simp_all add: e)
  moreover have "slots_ok ?s" using assms
    by (auto simp: mem_inv_def slots_ok_def slot_used_def e join_register_thr Let_def split: if_splits)
  ultimately show ?thesis using assms(1) by (simp add: mem_inv_def)
qed

lemma join_block_mem: "join_block ks t want st = Some (st', r) \<Longrightarrow> mem_part st' = mem_part st"
  by (auto simp: join_block_def Let_def mem_part_upd_thread stack_part_def mem_part_ops split: option.splits
      dest!: mem_part_ops(1))

lemma join_blocking_sound:
  assumes u: "user_inv {} st"
    and t: "t \<in> live st" "joined_by (thr st t) = None" "t \<noteq> current_thread st" "th_state (thr st t) \<noteq> THREAD_TERMINATED"
    and r: "head_joiner (thr st t) = Some r" "head_joiner (thr st (current_thread st)) = Some r'"
      "\<not> (head_cells st r = t \<and> r' = r)"
    and q: "ready_queue st = n # ns"
  shows "sound {} (thread_join [] (Some t) want st)"
proof -
  let ?c = "current_thread st" and ?s = "registered t r st"
  note i = user_invD [OF u]
  have jb: "thread_join [] (Some t) want st = join_block [] t want ?s" using join_goes_blocking [OF t(2-4) r] .
  from join_block_switch [of ?s n ns "[]" t want] i(2) q obtain st' where st': "join_block [] t want ?s = Some (st', Switched)"
    "sched_inv st'" "current_thread st' = n" "n \<noteq> ?c" "live st' = live st" "queues st' = (queues st)(ReadyQ := ns)"
    "\<forall>u. u \<noteq> ?c \<longrightarrow> u \<noteq> n \<longrightarrow> thr st' u = thr ?s u"
    "thr st' ?c = (thr ?s ?c)\<lparr>saved_ctx := [F_join t want], waiting_for := Some t, th_state := THREAD_BLOCKED\<rparr>"
    "thr st' n = (thr ?s n)\<lparr>entries := None, th_state := THREAD_RUNNING, in_ready_queue := False\<rparr>" by auto
  from join_blocks [OF i(2,4,3,6) t r q, of "[]" want] jb st'(1) have ji: "join_inv st'" by simp
  have n: "th_state (thr st n) = THREAD_READY" using ready_state(1) [OF i(2), of n] q by simp
  have T: "thr st' x = (if x = ?c then (thr ?s ?c)\<lparr>saved_ctx := [F_join t want], waiting_for := Some t, th_state := THREAD_BLOCKED\<rparr>
      else if x = n then (thr ?s n)\<lparr>entries := None, th_state := THREAD_RUNNING, in_ready_queue := False\<rparr> else thr ?s x)" for x
    using st'(7-9) by simp
  have S: "saved_ctx (thr ?s x) = saved_ctx (thr st x)" "waiting_for (thr ?s x) = waiting_for (thr st x)"
    "th_state (thr ?s x) = th_state (thr st x)" "sig_ok (thr ?s x) = sig_ok (thr st x)"
    "waiting_for_signal (thr ?s x) = waiting_for_signal (thr st x)" for x
    by (simp_all add: join_register_thr Let_def sig_ok_def)
  have sg: "sig_ok (thr st x)" if "x \<in> live st" for x using i(3) that by (simp add: sig_inv_def)
  have "sig_inv st'" unfolding sig_inv_def
  proof
    fix x assume "x \<in> live st'"
    then have ok: "sig_ok (thr ?s x)" using sg st'(5) S by simp
    have "\<not> waiting_for_signal (thr ?s x)" if "x = n \<or> x = ?c"
      using ok that n current_not_sigwaiting [OF i(2,3)] S by (auto simp: sig_ok_def)
    with ok show "sig_ok (thr st' x)" by (auto simp: T sig_ok_def)
  qed
  moreover have "mem_inv (pending (active st - {?c}) st) ?s"
    using i(8) t(1) r(1) mem_part_inv [of "block st" st] by (intro register_mem) simp_all
  then have "mem_inv ({} \<union> pending (active st - {?c}) st) st'" using mem_part_inv [OF join_block_mem [OF st'(1)]] by simp
  moreover have "zombie_initialized st' = zombie_initialized st"
    using mem_part_zombie [OF join_block_mem [OF st'(1)]] by (simp add: join_register_def upd_thread_def block_eq Let_def)
  moreover have o: "saved_ctx (thr st' x) = saved_ctx (thr st x) \<and> waiting_for (thr st' x) = waiting_for (thr st x) \<and>
      (th_state (thr st' x) = th_state (thr st x) \<or> x = n)" if "x \<noteq> ?c" for x using that by (simp add: T S)
  moreover have "th_state (thr st' ?c) = THREAD_BLOCKED" "saved_ctx (thr st' ?c) = [F_join t want]" "waiting_for (thr st' ?c) = Some t"
    by (simp_all add: T)
  ultimately have "switch_inv st'"
    using block_outside [OF u st'(2) _ ji st'(5,6) q _ _ o st'(3,4)] by (simp add: ctx_defs)
  then show ?thesis using jb st'(1) by (simp add: sound_def result_inv_def)
qed

text \<open>A join that is not doomed: some thread is ready to run while the caller waits.\<close>

fun join_safe :: "sys \<Rightarrow> call \<Rightarrow> bool" where
  "join_safe st (C_join (Some t) want) \<longleftrightarrow> ready_queue st \<noteq> [] \<or> t = current_thread st \<or>
     joined_by (thr st t) \<noteq> None \<or> th_state (thr st t) = THREAD_TERMINATED"
| "join_safe st _ \<longleftrightarrow> True"

lemma join_sound:
  assumes u: "user_inv {} st" and t: "set_option h \<subseteq> live st" and s: "join_safe st (C_join h want)"
  shows "sound {} (thread_join [] h want st)"
proof (cases h)
  case None
  then show ?thesis using u by (simp add: join_null sound_def result_inv_def)
next
  case (Some t)
  then have tl: "t \<in> live st" using t by simp
  let ?c = "current_thread st"
  consider (twice) j where "joined_by (thr st t) = Some j" | (self) "joined_by (thr st t) = None" "t = ?c"
    | (dead) "joined_by (thr st t) = None" "t \<noteq> ?c" "th_state (thr st t) = THREAD_TERMINATED"
    | (alive) "joined_by (thr st t) = None" "t \<noteq> ?c" "th_state (thr st t) \<noteq> THREAD_TERMINATED"
    by (cases "joined_by (thr st t)") blast+
  then show ?thesis
  proof cases
    case twice
    then show ?thesis using u Some by (simp add: join_twice sound_def result_inv_def)
  next
    case self
    then show ?thesis using u Some join_self [of st "[]" want] by (simp add: sound_def result_inv_def)
  next
    case dead
    then show ?thesis using join_terminated_sound [OF u tl] Some by simp
  next
    case alive
    then obtain n ns where q: "ready_queue st = n # ns" using s Some by (cases "ready_queue st") auto
    show ?thesis
    proof (cases "head_joiner (thr st t) = None \<or> head_joiner (thr st ?c) = None")
      case True
      then show ?thesis using join_no_slot [OF alive True, of "[]" want] u Some by (simp add: sound_def result_inv_def)
    next
      case False
      then obtain r r' where r: "head_joiner (thr st t) = Some r" "head_joiner (thr st ?c) = Some r'" by auto
      show ?thesis
      proof (cases "head_cells st r = t \<and> r' = r")
        case True
        then show ?thesis using join_chain_deadlock [OF alive r(1), of "[]" want] r u Some by (simp add: sound_def result_inv_def)
      next
        case False
        then show ?thesis using join_blocking_sound [OF u tl alive r False q] Some by simp
      qed
    qed
  qed
qed

section \<open>Termination\<close>

lemma defer_mem:
  assumes "mem_inv R st" "t \<in> live st"
  shows "mem_inv R (defer_stack_reclaim t st)"
proof -
  let ?s = "defer_stack_reclaim t st"
  have e: "os_mmap ?s = os_mmap st" "os_malloc ?s = os_malloc st" "thread_pool ?s = thread_pool st" "allocated ?s = allocated st"
    "head_ref_chunks ?s = head_ref_chunks st" "head_ref_chunks_ptr ?s = head_ref_chunks_ptr st"
    "head_ref_active_chunk ?s = head_ref_active_chunk st" "head_ref_active_index ?s = head_ref_active_index st"
    by (simp_all add: defer_stack_reclaim_def upd_thread_def split: option.splits)
  obtain sm sb where th: "thr ?s = (thr st)(t := (thr st t)\<lparr>stack_map := sm, stack_base := sb\<rparr>)" using defer_thr by blast
  have "structs_ok R ?s = structs_ok R st" by (rule structs_ok_cong) (simp_all add: e)
  moreover have "slots_ok ?s" by (rule slots_ok_cong [of _ st]) (use assms in \<open>simp_all add: e th mem_inv_def\<close>)
  ultimately show ?thesis using assms defer_ok [of st t] by (simp add: mem_inv_def)
qed

lemma exit_mem:
  assumes m: "mem_inv R st" and c: "current_thread st \<in> live st"
    and r: "rest st' = (rest (exit_defer (current_thread st) (exit_marked rv st)))\<lparr>zombie_initialized := z\<rparr>"
  shows "mem_inv R st'"
proof -
  let ?u = "exit_marked rv st"
  let ?d = "exit_defer (current_thread st) ?u"
  have "mem_part ?u = mem_part st" by (simp add: exit_marked_def mem_part_upd_thread stack_part_def)
  then have "mem_inv R ?u" using m mem_part_inv by blast
  moreover have "current_thread st \<in> live ?u" using c by (simp add: exit_marked_def upd_thread_def)
  ultimately have "mem_inv R ?d" using defer_mem by (simp add: exit_defer_def)
  moreover have "mem_inv R (?d\<lparr>zombie_initialized := z\<rparr>) = mem_inv R ?d"
    by (simp add: mem_inv_def stacks_ok_def stack_owned_def deferred_maps_def pool_ok_def pool_maps_def in_use_def stacks_of_def
        structs_ok_def blocks_def slots_ok_def slot_used_def os_sane_def)
  moreover have "rest (?d\<lparr>zombie_initialized := z\<rparr>) = (rest ?d)\<lparr>zombie_initialized := z\<rparr>" by (simp add: rest_def)
  ultimately show ?thesis using mem_inv_cong [of st' "?d\<lparr>zombie_initialized := z\<rparr>"] r by simp
qed

lemma exit_switch_sound:
  assumes u: "user_inv {} st" and q: "exit_ready st = n # ns"
  shows "\<exists>st'. thread_exit rv st = Some (st', Switched) \<and> switch_inv st'"
proof -
  let ?c = "current_thread st" and ?S = "active st - {current_thread st}"
  note i = user_invD [OF u]
  from exit_fields [OF i(2,5,4) q, of rv] obtain st' z where st': "thread_exit rv st = Some (st', Switched)" "sched_inv st'" "gc_ok st'"
    "current_thread st' = n" "live st' = live st" "n \<noteq> ?c" "n \<in> live st"
    "zombie_queue st' = (if becomes_zombie st then zombie_queue st @ [?c] else zombie_queue st)"
    and v: "\<And>x. exit_view rv n st (thr st' x) x"
    and z: "rest st' = (rest (exit_defer ?c (exit_marked rv st)))\<lparr>zombie_initialized := z\<rparr>" by blast
  have c: "?c \<in> live st" "th_state (thr st ?c) = THREAD_RUNNING" using i(2) sched_inv_current(1) [OF i(2)] by (simp_all add: sched_inv_def)
  have n: "joined_by (thr st ?c) = Some n \<or> th_state (thr st n) = THREAD_READY"
  proof (cases "n \<in> set (ready_queue st)")
    case True
    then show ?thesis using ready_state(1) [OF i(2)] by simp
  next
    case False
    have "n \<in> set (exit_ready st)" using q by simp
    with False show ?thesis by (auto simp: exit_ready_def split: option.splits)
  qed
  have jn: "th_state (thr st j) = THREAD_BLOCKED \<and> \<not> waiting_for_signal (thr st j)" if "joined_by (thr st ?c) = Some j" for j
    using join_inv_link [OF i(4) c(1) that] c(2) by (auto simp: join_link_def)
  have "sig_inv st'" unfolding sig_inv_def
  proof
    fix x assume "x \<in> live st'"
    then have ok: "sig_ok (thr st x)" using i(3) st'(5) by (simp add: sig_inv_def)
    have "\<not> waiting_for_signal (thr st x)" if "x = ?c \<or> x = n \<or> joined_by (thr st ?c) = Some x"
      using that ok n jn c(2) by (auto simp: sig_ok_def)
    with ok v [of x] show "sig_ok (thr st' x)" by (auto simp: exit_view_def sig_ok_def split: if_splits)
  qed
  moreover have "join_inv st'" using exit_join_inv [OF i(2,5,4) q i(6) st'(1)] .
  moreover have "main_thread \<notin> set (zombie_queue st')" using i(1) st'(8) by (auto simp: base_inv_def becomes_zombie_def)
  ultimately have "base_inv st'" using st'(2,3) by (simp add: base_inv_def)
  moreover have a: "active st' = ?S"
  proof -
    have "th_state (thr st' x) = THREAD_TERMINATED \<longleftrightarrow> x = ?c \<or> th_state (thr st x) = THREAD_TERMINATED" for x
      using v [of x] n jn [of x] jn [of n] by (auto simp: exit_view_def split: if_splits)
    then show ?thesis by (auto simp: active_def st'(5))
  qed
  moreover have "ctxs_ok ?S st' = ctxs_ok ?S st" "pending ?S st' = pending ?S st"
    by (rule ctxs_ok_cong pending_cong; use v in \<open>simp add: exit_view_def\<close>)+
  moreover have "mem_inv (pending ?S st) st'" using exit_mem [OF _ c(1) z] i(8) by simp
  ultimately show ?thesis using i(7) st'(1) by (simp add: switch_inv_def)
qed

section \<open>Process exit\<close>

lemma exit_invI:
  assumes "queues_ok st" "gc_ok st" "structs_ok R st" "main_thread \<notin> set (zombie_queue st)" "set (zombie_queue st) \<subseteq> live st"
  shows "exit_inv st"
  using assms by (auto simp: exit_inv_def structs_ok_def)

text \<open>The final clean-up frees the zombies with their stacks, and then the pooled stacks.\<close>

lemma final_cleanup_ok:
  assumes e: "exit_inv st"
  shows "\<exists>st'. do_final_cleanup st = Some st' \<and> exit_inv st' \<and> zombie_queue st' = [] \<and> stack_pool st' = [] \<and>
    allocated st' = allocated st - set (zombie_queue st) \<and> block_part st' = block_part st \<and>
    deferred_stacks st' = deferred_stacks st \<and>
    mapped st' = mapped st - stacks_of (set (zombie_queue st)) st - se_map ` set (stack_pool st)"
proof -
  have a: "queues_ok st" "gc_ok st" "set (zombie_queue st) \<subseteq> allocated st" using e by (simp_all add: exit_inv_def)
  from free_zombies_ok [OF a] obtain s where s: "free_zombies st = Some s" "queues s = (queues st)(ZombieQ := [])"
    "allocated s = allocated st - set (zombie_queue st)" "mapped s = mapped st - stacks_of (set (zombie_queue st)) st"
    "stack_pool s = stack_pool st" "queues_ok s" "block_part s = block_part st" "deferred_stacks s = deferred_stacks st" by blast
  have r: "thr (release_stacks es x) = thr x" "queues (release_stacks es x) = queues x" "allocated (release_stacks es x) = allocated x"
    "block_part (release_stacks es x) = block_part x" "deferred_stacks (release_stacks es x) = deferred_stacks x" for es and x :: sys
    by (induction es arbitrary: x) (simp_all add: sys_munmap_def valgrind_deregister_def block_part_def)
  let ?f = "stack_pool_free_all s"
  have f: "queues ?f = queues s" "thr ?f = thr s" "allocated ?f = allocated s" "block_part ?f = block_part s" "stack_pool ?f = []"
    "mapped ?f = mapped s - se_map ` set (stack_pool s)" "deferred_stacks ?f = deferred_stacks s"
    using r by (simp_all add: stack_pool_free_all_def release_stacks_sel block_part_def)
  have b: "blocks ?f = blocks st" using f(4) s(7) by (simp add: blocks_def block_part_def)
  have "queues_ok ?f" using s(6) queues_ok_cong [of ?f s] f by simp
  then have "exit_inv ?f" using e s f b by (auto simp: exit_inv_def gc_ok_def)
  then show ?thesis using s f by (simp add: do_final_cleanup_def)
qed

lemma free_blocks_ok:
  "distinct as \<Longrightarrow> set as \<subseteq> allocated st \<Longrightarrow>
   free_blocks as st = Some (st\<lparr>allocated := allocated st - set as\<rparr>)"
proof (induction as arbitrary: st)
  case (Cons a as)
  then have "c_free a st = Some (st\<lparr>allocated := allocated st - {a}\<rparr>)" by (simp add: c_free_def)
  moreover have "set as \<subseteq> allocated (st\<lparr>allocated := allocated st - {a}\<rparr>)" using Cons.prems by auto
  moreover have "allocated st - {a} - set as = allocated st - set (a # as)" by auto
  ultimately show ?case using Cons.IH [of "st\<lparr>allocated := allocated st - {a}\<rparr>"] Cons.prems by simp
qed simp

lemma reclaim_frame:
  assumes "\<And>e s. f (stack_pool_push e s) = f s" "\<And>d s. f (s\<lparr>deferred_stacks := d\<rparr>) = f s"
  shows "f (reclaim_deferred_stacks_all st) = f st"
proof -
  have "f (reclaim_deferred_stacks_batch n st) = f st" for n
  proof (induction n arbitrary: st)
    case (Suc n)
    then show ?case using assms by (subst reclaim_deferred_stacks_batch.simps) (simp add: Let_def)
  qed (subst reclaim_deferred_stacks_batch.simps, simp)
  then show ?thesis by (simp add: reclaim_deferred_stacks_all_def)
qed

lemma reclaim_all_sel [simp]:
  "allocated (reclaim_deferred_stacks_all st) = allocated st" "queues (reclaim_deferred_stacks_all st) = queues st"
  "thr (reclaim_deferred_stacks_all st) = thr st" "thread_pool (reclaim_deferred_stacks_all st) = thread_pool st"
  "head_ref_chunks (reclaim_deferred_stacks_all st) = head_ref_chunks st"
  "head_ref_chunks_ptr (reclaim_deferred_stacks_all st) = head_ref_chunks_ptr st"
  "head_ref_active_chunk (reclaim_deferred_stacks_all st) = head_ref_active_chunk st"
  "head_ref_active_index (reclaim_deferred_stacks_all st) = head_ref_active_index st"
  "zombie_initialized (reclaim_deferred_stacks_all st) = zombie_initialized st"
  "live (reclaim_deferred_stacks_all st) = live st" "current_thread (reclaim_deferred_stacks_all st) = current_thread st"
  "sched_policy (reclaim_deferred_stacks_all st) = sched_policy st" "os_malloc (reclaim_deferred_stacks_all st) = os_malloc st"
  "next_thread_id (reclaim_deferred_stacks_all st) = next_thread_id st"
  by (rule reclaim_frame; simp)+

lemma pool_free_all_ok:
  assumes e: "exit_inv st"
  shows "\<exists>st'. thread_pool_free_all st = Some st' \<and> exit_inv st' \<and> blocks st' = [] \<and>
    allocated st' = allocated st - set (blocks st) \<and> queues st' = queues st \<and> thr st' = thr st \<and>
    stack_pool st' = stack_pool (reclaim_deferred_stacks_all st) \<and> mapped st' = mapped (reclaim_deferred_stacks_all st) \<and>
    deferred_stacks st' = deferred_stacks (reclaim_deferred_stacks_all st)"
proof -
  let ?r = "reclaim_deferred_stacks_all st"
  have d: "distinct (thread_pool st)" "set (thread_pool st) \<subseteq> allocated st" "distinct (head_ref_chunks st)"
    "set (head_ref_chunks st) \<subseteq> allocated st - set (thread_pool st)"
    using e by (auto simp: exit_inv_def blocks_def)
  let ?s1 = "?r\<lparr>allocated := allocated st - set (thread_pool st), thread_pool := []\<rparr>"
  let ?s2 = "?s1\<lparr>allocated := allocated st - set (thread_pool st) - set (head_ref_chunks st)\<rparr>"
  let ?clear = "\<lambda>s. s\<lparr>head_ref_chunks_ptr := None, head_ref_chunks := [], head_ref_chunks_cap := 0,
    head_ref_active_chunk := None, head_ref_active_index := 0\<rparr>"
  have 1: "free_blocks (thread_pool st) ?r = Some (?r\<lparr>allocated := allocated st - set (thread_pool st)\<rparr>)"
    using free_blocks_ok [of "thread_pool st" ?r] d by simp
  have 2: "free_blocks (head_ref_chunks st) ?s1 = Some ?s2" using free_blocks_ok [of "head_ref_chunks st" ?s1] d by simp
  have zb: "exit_inv s" if "queues s = queues st" "thr s = thr st" "zombie_initialized s = zombie_initialized st" "blocks s = []"
    "allocated s = allocated st - set (blocks st)" for s
    using e that queues_ok_cong [of s st] by (auto simp: exit_inv_def gc_ok_def)
  show ?thesis
  proof (cases "head_ref_chunks_ptr st")
    case None
    have "thread_pool_free_all st = Some (?clear ?s2)" using 1 2 None by (simp add: thread_pool_free_all_def)
    then show ?thesis using None by (auto simp: blocks_def intro!: zb)
  next
    case (Some p)
    have "c_free p ?s2 = Some (?s2\<lparr>allocated := allocated ?s2 - {p}\<rparr>)"
      using e Some by (auto simp: c_free_def exit_inv_def blocks_def)
    then have "thread_pool_free_all st = Some (?clear (?s2\<lparr>allocated := allocated ?s2 - {p}\<rparr>))"
      using 1 2 Some by (simp add: thread_pool_free_all_def)
    then show ?thesis using Some by (auto simp: blocks_def intro!: zb)
  qed
qed

lemma exit_handlers_ok: "exit_inv st \<Longrightarrow> \<exists>st'. run_exit_handlers hs st = Some st' \<and> exit_inv st'"
proof (induction hs arbitrary: st)
  case (Cons h hs)
  then show ?case using final_cleanup_ok [of st] pool_free_all_ok [of st] by (cases h) fastforce+
qed simp

lemma user_exit_inv:
  assumes u: "user_inv R st" shows "exit_inv st"
proof -
  note i = user_invD [OF u]
  have "set (zombie_queue st) \<subseteq> live st"
    using i(2) by (auto simp: sched_inv_def flight_inv_def queues_ok_mem)
  then show ?thesis using i(1,5,8) sched_inv_queues_ok [OF i(2)]
    by (intro exit_invI) (auto simp: base_inv_def mem_inv_def)
qed

text \<open>The last thread exits: nothing else can run, and the process ends with the clean-up.\<close>

lemma exit_last_sound:
  assumes u: "user_inv {} st" and q: "exit_ready st = []"
  shows "\<exists>st'. thread_exit rv st = Some (st', Exited) \<and> exit_inv st'"
proof -
  let ?c = "current_thread st"
  note i = user_invD [OF u]
  from exit_stages [OF i(2,5,4), of rv] obtain s z where s: "thread_exit rv st = exit_switch s" "flight_inv {} None s" "gc_ok s"
    "live s = live st" "ready_queue s = []"
    "zombie_queue s = (if ?c \<noteq> main_thread \<and> joined_by (thr st ?c) = None then zombie_queue st @ [?c] else zombie_queue st)"
    and z: "rest s = (rest (exit_defer ?c (exit_marked rv st)))\<lparr>zombie_initialized := z\<rparr>"
    using q unfolding exit_marked_def by auto
  have "?c \<in> live st" using i(2) by (simp add: sched_inv_def)
  from exit_mem [OF i(8) this z] have "mem_inv (pending (active st - {?c}) st) s" by simp
  moreover have "set (zombie_queue s) \<subseteq> live s" "queues_ok s" using s(2) by (auto simp: flight_inv_def queues_ok_mem)
  moreover have "main_thread \<notin> set (zombie_queue s)" using i(1) s(6) by (auto simp: base_inv_def)
  ultimately have "exit_inv s" using s(3) by (intro exit_invI) (auto simp: mem_inv_def)
  from final_cleanup_ok [OF this] obtain s' where "do_final_cleanup s = Some s'" "exit_inv s'" by blast
  then show ?thesis using s(1) pick_next_empty [OF s(5)] by (simp add: exit_switch_def thread_switch_to_cleanup_def)
qed

lemma exit_sound:
  assumes "user_inv {} st" shows "sound {} (thread_exit rv st)"
  using exit_switch_sound [OF assms, of _ _ rv] exit_last_sound [OF assms, of rv]
  by (cases "exit_ready st") (auto simp: sound_def result_inv_def)

end
