(* ===== verification/Create_Invariant.thy ===== *)
theory Create_Invariant
  imports Exit_Join_Invariant
begin

text \<open>
  Creating a thread keeps the invariant of \<open>System_Invariant\<close>, on every branch of the search for memory.
\<close>

section \<open>Creation\<close>

text \<open>The fields of a thread outside the memory part.\<close>

definition thread_part :: "thread \<Rightarrow> _" where
  "thread_part x = (sched_part x, joined_by x, waiting_for x, saved_ctx x,
     pending_signals x, blocked_signals x, waited_signals x, waiting_for_signal x)"

lemma thread_part_sel:
  assumes "thread_part x = thread_part y"
  shows "sched_part x = sched_part y" "joined_by x = joined_by y" "waiting_for x = waiting_for y" "saved_ctx x = saved_ctx y"
    "waiting_for_signal x = waiting_for_signal y" "th_state x = th_state y" "entries x = entries y" "sig_ok x = sig_ok y"
  using assms by (auto simp: thread_part_def sched_part_def sig_ok_def)

lemma user_inv_mem_step:
  assumes u: "user_inv R st"
    and e: "queues st' = queues st" "current_thread st' = current_thread st" "live st' = live st"
      "sched_policy st' = sched_policy st" "zombie_initialized st' = zombie_initialized st"
    and p: "\<And>t. t \<in> live st \<Longrightarrow> thread_part (thr st' t) = thread_part (thr st t)"
      "\<And>t. t \<notin> live st \<Longrightarrow> entries (thr st' t) = None"
    and m: "mem_inv (R' \<union> pending (active st - {current_thread st}) st) st'"
    and R': "R' \<inter> pending (active st - {current_thread st}) st = {}"
  shows "user_inv R' st'"
proof -
  let ?S = "active st - {current_thread st}"
  note i = user_invD [OF u]
  have c: "current_thread st \<in> live st" using i(2) by (simp add: sched_inv_def)
  note q = thread_part_sel [OF p(1)]
  have en: "entries (thr st t) = None" if "t \<notin> live st" for t
    using i(2) that by (auto simp: sched_inv_def flight_inv_def)
  have qo: "queues_ok st' = queues_ok st"
    by (rule queues_ok_cong) (use e(1) p(2) en q(7) in metis)+
  have rl: "t \<in> live st" if "t \<in> set (ready_queue st)" for t using sched_inv_ready_live [OF i(2) that] .
  have "sched_inv st'"
  proof -
    have "prio st' t = prio st t" if "t \<in> live st" for t using sched_part_eqD(5) [OF q(1) [OF that]] .
    moreover have fl: "flight_inv {} (Some (current_thread st)) st" using i(2) by (simp add: sched_inv_def)
    then have "sched_policy st = THREAD_SCHED_PRIO \<Longrightarrow> desc_sorted (prio st) (ready_queue st)" by (simp add: flight_inv_def prio_ok_def)
    ultimately have "prio_ok st'" using flight_prioI [OF fl e(4)] e(1) rl by simp
    moreover have "thread_wf b (thr st' t) = thread_wf b (thr st t)" if "t \<in> live st" for b t using sched_part_wf(1) [OF q(1) [OF that]] .
    moreover have "t \<in> live st" if "entries (thr st' t) \<noteq> None" for t by (rule ccontr) (use p(2) that in simp)
    moreover have "\<forall>t \<in> live st. thread_wf (Some (current_thread st) = Some t) (thr st t)" "main_thread \<in> live st"
      using fl by (simp_all add: flight_inv_def)
    ultimately show ?thesis unfolding sched_inv_def flight_inv_def e(2,3) qo
      using sched_inv_queues_ok [OF i(2)] c by blast
  qed
  moreover have "sig_inv st'" using i(3) q(8) e(3) by (simp add: sig_inv_def)
  moreover have "join_inv st'"
  proof -
    have l: "join_link st' t j = join_link st t j" if "t \<in> live st" for t j
      using q [OF that] q [of j] by (auto simp: join_link_def e(3))
    have d: "join_done st' t = join_done st t" if "t \<in> live st" for t using q [OF that] q(3) by (auto simp: join_done_def e(3))
    have w: "joined_by (thr st' t) = joined_by (thr st t)" "waiting_for (thr st' t) = waiting_for (thr st t)" if "t \<in> live st" for t
      using q(2,3) [OF that] by simp_all
    show ?thesis unfolding join_inv_def e(3)
    proof (intro conjI ballI allI impI)
      fix t j assume "t \<in> live st" "joined_by (thr st' t) = Some j"
      then show "join_link st' t j \<or> join_done st' t" using l d w(1) join_inv_cases [OF i(4)] by auto
    next
      fix j t assume "j \<in> live st" "waiting_for (thr st' j) = Some t"
      then have "waiting_for (thr st j) = Some t" using w(2) by simp
      from join_inv_waits [OF i(4) \<open>j \<in> live st\<close> this] show "t \<in> live st" "joined_by (thr st' t) = Some j" using w(1) by auto
    qed
  qed
  ultimately have b: "base_inv st'" using i(1) e by (simp add: base_inv_def gc_ok_def)
  have a: "active st' = active st" using q(6) by (auto simp: active_def e(3))
  have lv: "t \<in> live st" if "t \<in> ?S" for t using that by (simp add: active_def)
  have "ctxs_ok ?S st' = ctxs_ok ?S st" "pending ?S st' = pending ?S st"
    by (rule ctxs_ok_cong pending_cong; simp add: q lv)+
  then show ?thesis using b a e i m R' q(3) [OF c] by (intro user_invI [where S = ?S]) simp_all
qed

lemma mem_inv_upd [simp]:
  "mem_inv R (st\<lparr>errno := e\<rparr>) = mem_inv R st" "mem_inv R (st\<lparr>scheduler_initialized := b\<rparr>) = mem_inv R st"
  "mem_inv R (st\<lparr>atexit_handlers := h\<rparr>) = mem_inv R st" "mem_inv R (st\<lparr>cleanup_registered := b\<rparr>) = mem_inv R st"
  by (rule mem_part_inv, simp add: mem_part_def)+

lemma init_frame:
  "mem_part (fst (init_prem us st)) = mem_part st" "mem_part (init_stack_overflow_detection st) = mem_part st"
  "thr (fst (init_prem us st)) = thr st" "thr (init_stack_overflow_detection st) = thr st"
  "queues (fst (init_prem us st)) = queues st" "queues (init_stack_overflow_detection st) = queues st"
  "current_thread (fst (init_prem us st)) = current_thread st" "current_thread (init_stack_overflow_detection st) = current_thread st"
  "live (fst (init_prem us st)) = live st" "live (init_stack_overflow_detection st) = live st"
  "sched_policy (fst (init_prem us st)) = sched_policy st" "sched_policy (init_stack_overflow_detection st) = sched_policy st"
  "zombie_initialized (fst (init_prem us st)) = zombie_initialized st" "zombie_initialized (init_stack_overflow_detection st) = zombie_initialized st"
  "next_thread_id (fst (init_prem us st)) = next_thread_id st" "next_thread_id (init_stack_overflow_detection st) = next_thread_id st"
  by (simp_all add: init_prem_def init_stack_overflow_detection_def preem_mask_init_def mem_part_def Let_def)

text \<open>A join-chain slot for one thread.\<close>

lemma slot_for:
  assumes m: "mem_inv R st"
  shows "\<exists>ref st'. thread_head_ref_alloc who st = Some (ref, st') \<and> same_but_slots st st' \<and>
    (\<forall>h. h = thr st who \<longrightarrow> mem_inv R (st'\<lparr>thr := (thr st)(who := h\<lparr>head_joiner := ref\<rparr>)\<rparr>))"
proof -
  have ok: "structs_ok R st" "slots_ok st" "stacks_ok st" using m by (simp_all add: mem_inv_def)
  from head_ref_alloc_ok [OF ok(1,2), of who] obtain ref st' where r: "thread_head_ref_alloc who st = Some (ref, st')"
    "structs_ok R st'" "slots_ok st'" "same_but_slots st st'"
    "case ref of None \<Rightarrow> head_cells st' = head_cells st
     | Some ref \<Rightarrow> head_cells st' = (head_cells st)(ref := who) \<and> slot_used st' ref \<and> (\<forall>t \<in> live st. head_joiner (thr st t) \<noteq> Some ref)"
    by blast
  let ?s = "st'\<lparr>thr := (thr st)(who := (thr st who)\<lparr>head_joiner := ref\<rparr>)\<rparr>"
  have th: "thr st' = thr st" "live st' = live st" using r(4) by (simp_all add: same_but_slots_def)
  have "structs_ok R ?s" using r(2) structs_ok_cong [of ?s st' R] by simp
  moreover have "stacks_ok ?s" using ok(3) r(4) by (subst stacks_ok_cong [of _ st]) (auto simp: same_but_slots_def stack_part_def)
  moreover have "slots_ok ?s" using r(3,5) th by (auto simp: slots_ok_def slot_used_def split: option.splits)
  ultimately show ?thesis using r(1,4) by (auto simp: mem_inv_def)
qed

lemma first_create_ok:
  assumes u: "user_inv {} st"
  shows "\<exists>ok st'. first_create st = Some (ok, st') \<and> user_inv {} st' \<and> next_thread_id st' = next_thread_id st"
proof (cases "scheduler_initialized st")
  case True
  then show ?thesis using u by (auto simp: first_create_def)
next
  case False
  let ?S = "active st - {current_thread st}"
  let ?s0 = "(thread_cleanup_register st)\<lparr>atexit_handlers := H_pool_free_all # atexit_handlers (thread_cleanup_register st)\<rparr>"
  have s0: "mem_part ?s0 = mem_part st" "thr ?s0 = thr st" "queues ?s0 = queues st" "current_thread ?s0 = current_thread st" "live ?s0 = live st"
    "sched_policy ?s0 = sched_policy st" "next_thread_id ?s0 = next_thread_id st"
    by (simp_all add: thread_cleanup_register_def mem_part_def)
  have "mem_inv (pending ?S st) ?s0" using user_invD(8) [OF u] mem_part_inv [OF s0(1)] by simp
  from slot_for [OF this, of main_thread] obtain ref s1 where s1: "thread_head_ref_alloc main_thread ?s0 = Some (ref, s1)" "same_but_slots ?s0 s1"
    "mem_inv (pending ?S st) (s1\<lparr>thr := (thr st)(main_thread := (thr st main_thread)\<lparr>head_joiner := ref\<rparr>)\<rparr>)" using s0(2) by auto
  have t1: "thr s1 = thr st" using s1(2) s0(2) by (simp add: same_but_slots_def)
  let ?s2 = "upd_thread main_thread (\<lambda>x. x\<lparr>head_joiner := ref\<rparr>) s1"
  have s2: "mem_inv (pending ?S st) ?s2" using s1(3) by (simp add: upd_thread_def t1)
  have fin: "user_inv {} st'" if "mem_part st' = mem_part ?s2" "thr st' = thr ?s2" "queues st' = queues s1" "current_thread st' = current_thread s1"
    "sched_policy st' = sched_policy s1" for st'
  proof (rule user_inv_mem_step [OF u])
    show "mem_inv ({} \<union> pending ?S st) st'" using mem_part_inv [OF that(1)] s2 by simp
    show "thread_part (thr st' t) = thread_part (thr st t)" if "t \<in> live st" for t
      using \<open>thr st' = thr ?s2\<close> by (simp add: upd_thread_def t1 thread_part_def sched_part_def)
    show "entries (thr st' t) = None" if "t \<notin> live st" for t
      using \<open>thr st' = thr ?s2\<close> that user_invD(2) [OF u] by (auto simp: upd_thread_def t1 sched_inv_def flight_inv_def)
    show "live st' = live st" "zombie_initialized st' = zombie_initialized st"
      using that(1) s1(2) s0(5) mem_part_zombie [OF s0(1)] by (simp_all add: mem_part_def same_but_slots_def upd_thread_def)
  qed (use that s1(2) s0 in \<open>simp_all add: same_but_slots_def\<close>)
  have n: "next_thread_id s1 = next_thread_id st" using s1(2) s0(7) by (simp add: same_but_slots_def)
  show ?thesis
  proof (cases ref)
    case None
    have "user_inv {} (set_errno ENOMEM ?s2)" by (rule fin) (simp_all add: upd_thread_def)
    moreover have "first_create st = Some (False, set_errno ENOMEM ?s2)" using False s1(1) None by (simp add: first_create_def Let_def)
    ultimately show ?thesis using n by (auto simp: upd_thread_def)
  next
    case (Some r)
    let ?s3 = "if enable_preemption ?s2 then fst (init_prem 100 ?s2) else ?s2"
    let ?s4 = "(if enable_overflow_detection ?s3 then init_stack_overflow_detection ?s3 else ?s3)\<lparr>scheduler_initialized := True\<rparr>"
    have "first_create st = Some (True, ?s4)" using False s1(1) Some by (simp add: first_create_def Let_def)
    moreover have "mem_part (x\<lparr>scheduler_initialized := True\<rparr>) = mem_part x" for x by (simp add: mem_part_def)
    then have "user_inv {} ?s4" by (intro fin) (simp_all add: init_frame, simp_all add: upd_thread_def)
    moreover have "next_thread_id ?s4 = next_thread_id st" using n by (simp add: init_frame) (simp add: upd_thread_def)
    ultimately show ?thesis by blast
  qed
qed

lemma alloc_user:
  assumes u: "user_inv {} st" and al: "thread_alloc st = (r, st')"
  shows "case r of None \<Rightarrow> user_inv {} st' | Some t \<Rightarrow> user_inv {t} st' \<and> t \<notin> live st' \<and> t \<noteq> main_thread"
proof -
  let ?P = "pending (active st - {current_thread st}) st"
  note i = user_invD [OF u] and sel = thread_alloc_sel [OF al]
  have m: "stacks_ok st" "structs_ok ?P st" "slots_ok st" using i(8) by (simp_all add: mem_inv_def)
  have "stacks_ok st'" "slots_ok st'" using m sel stacks_ok_cong [of st' st] slots_ok_cong [of st' st] by simp_all
  moreover have "entries (thr st t) = None" if "t \<notin> live st" for t using i(2) that by (auto simp: sched_inv_def flight_inv_def)
  ultimately have *: "user_inv R' st'" if "structs_ok (R' \<union> ?P) st'" "R' \<inter> ?P = {}" for R'
    using that sel by (intro user_inv_mem_step [OF u]) (simp_all add: mem_inv_def)
  show ?thesis
  proof (cases r)
    case None
    then have "structs_ok ?P st'" using thread_alloc_none [of st st'] al m(2) structs_ok_cong [of st' st ?P] by simp
    then show ?thesis using None * [of "{}"] by simp
  next
    case (Some t)
    then show ?thesis using * [of "{t}"] thread_alloc_ok [OF m(2), of t st'] al sel by simp
  qed
qed

lemma stacks_ok_pool:
  assumes ok: "stacks_ok st" and p: "pool_ok s" "in_use s = in_use st" "deferred_stacks s = deferred_stacks st" "live s = live st"
    and t: "\<And>t. t \<in> live st \<Longrightarrow> stack_part (thr s t) = stack_part (thr st t)"
  shows "stacks_ok s"
proof -
  have sp: "stack_map (thr s t) = stack_map (thr st t)" "entry_of m (thr s t) = entry_of m (thr st t)" if "t \<in> live st" for t m
    using t [OF that] by (simp_all add: stack_part_def entry_of_def)
  have "stacks_of (live st) s = stacks_of (live st) st" by (rule stacks_of_cong) (simp add: sp)
  moreover have "stack_owned s t m = stack_owned st t m" if "t \<in> live st" for t m
    using that sp p by (auto simp: stack_owned_def deferred_maps_def)
  ultimately show ?thesis using ok p sp by (simp add: stacks_ok_def deferred_maps_def)
qed

lemma release_struct:
  assumes s: "structs_ok (insert t P) st" "slots_ok st" and t: "t \<notin> live st" "t \<notin> P" "t \<noteq> main_thread"
  shows "\<exists>st'. thread_obj_release t st = Some st' \<and> structs_ok P st' \<and> slots_ok st' \<and> live st' = live st \<and>
    thr st' = (thr st)(t := (thr st t)\<lparr>head_joiner := None\<rparr>) \<and> queues st' = queues st \<and>
    current_thread st' = current_thread st \<and> sched_policy st' = sched_policy st \<and> zombie_initialized st' = zombie_initialized st \<and>
    stack_pool st' = stack_pool st \<and> mapped st' = mapped st \<and> os_mmap st' = os_mmap st \<and> os_malloc st' = os_malloc st \<and>
    deferred_stacks st' = deferred_stacks st"
proof -
  let ?u = "upd_thread t (\<lambda>x. x\<lparr>head_joiner := None\<rparr>) st"
  have "structs_ok (insert t P) ?u" using s(1) structs_ok_cong [of ?u st "insert t P"] by (simp add: upd_thread_def)
  from thread_free_ok [OF this _ t(3)] obtain st' where st': "thread_free t ?u = Some st'" "structs_ok (insert t P - {t}) st'"
    "live st' = live ?u - {t}"
    "st' = ?u\<lparr>thread_pool := thread_pool ?u @ [t], live := live ?u - {t}\<rparr> \<or> st' = ?u\<lparr>allocated := allocated ?u - {t}, live := live ?u - {t}\<rparr>"
    by (auto simp: upd_thread_def)
  have P: "insert t P - {t} = P" "live ?u - {t} = live st" using t by (simp_all add: upd_thread_def)
  have "slots_ok st'" by (rule slots_ok_cong [OF _ _ _ _ _ s(2)]) (use st'(4) t(1) P(2) in \<open>auto simp: upd_thread_def\<close>)
  moreover have "live st' = live st" "thr st' = (thr st)(t := (thr st t)\<lparr>head_joiner := None\<rparr>)" "queues st' = queues st"
    "current_thread st' = current_thread st" "sched_policy st' = sched_policy st" "zombie_initialized st' = zombie_initialized st"
    "stack_pool st' = stack_pool st" "mapped st' = mapped st" "os_mmap st' = os_mmap st" "os_malloc st' = os_malloc st"
    "deferred_stacks st' = deferred_stacks st"
    using st'(4) P(2) by (elim disjE; simp add: upd_thread_def)+
  moreover have "thread_obj_release t st = Some st'" using st'(1) t(3) by (simp add: thread_obj_release_def)
  ultimately show ?thesis using st'(2) P(1) by simp
qed

lemma create_gives_up:
  assumes u: "user_inv {t} st" and t: "t \<notin> live st" "t \<noteq> main_thread"
  shows "\<exists>st'. thread_obj_release t st = Some st' \<and> user_inv {} st'"
proof -
  let ?P = "pending (active st - {current_thread st}) st"
  note i = user_invD [OF u]
  have m: "stacks_ok st" "structs_ok (insert t ?P) st" "slots_ok st" "t \<notin> ?P" using i(8,9) by (simp_all add: mem_inv_def)
  from release_struct [OF m(2,3) t(1) m(4) t(2)] obtain st' where st': "thread_obj_release t st = Some st'" "structs_ok ?P st'" "slots_ok st'"
    "live st' = live st" "thr st' = (thr st)(t := (thr st t)\<lparr>head_joiner := None\<rparr>)" "queues st' = queues st"
    "current_thread st' = current_thread st" "sched_policy st' = sched_policy st" "zombie_initialized st' = zombie_initialized st"
    "stack_pool st' = stack_pool st" "mapped st' = mapped st" "os_mmap st' = os_mmap st" "os_malloc st' = os_malloc st"
    "deferred_stacks st' = deferred_stacks st" by blast
  have "stacks_ok st'" using m(1) st'(5,10-14,4) by (subst stacks_ok_cong [of _ st]) (auto simp: stack_part_def)
  moreover have "entries (thr st x) = None" if "x \<notin> live st" for x using i(2) that by (auto simp: sched_inv_def flight_inv_def)
  ultimately have "user_inv {} st'" using st' t(1)
    by (intro user_inv_mem_step [OF u]) (auto simp: mem_inv_def)
  then show ?thesis using st'(1) by blast
qed

lemma alloc_fail_user:
  assumes u: "user_inv R st" and al: "stack_pool_alloc st = (None, st')"
  shows "user_inv R st'"
proof -
  let ?P = "R \<union> pending (active st - {current_thread st}) st"
  note i = user_invD [OF u] and sel = alloc_sel [OF al]
  have m: "stacks_ok st" "structs_ok ?P st" "slots_ok st" using i(8) by (simp_all add: mem_inv_def)
  have "pool_ok st'" "in_use st' = in_use st" using pool_ok_alloc_fail [OF _ al] m(1) by (simp_all add: stacks_ok_def)
  then have "stacks_ok st'" using sel by (intro stacks_ok_pool [OF m(1)]) simp_all
  moreover have "structs_ok ?P st'" using m(2) sel structs_ok_cong [of st' st ?P] by simp
  moreover have "slots_ok st'" by (rule slots_ok_cong [OF _ _ _ _ _ m(3)]) (use sel in simp_all)
  moreover have "entries (thr st x) = None" if "x \<notin> live st" for x using i(2) that by (auto simp: sched_inv_def flight_inv_def)
  ultimately show ?thesis using sel i(9) by (intro user_inv_mem_step [OF u]) (simp_all add: mem_inv_def)
qed

lemma reclaim_user:
  assumes u: "user_inv R st"
  shows "user_inv R (reclaim_deferred_stacks_all st)"
proof -
  let ?P = "R \<union> pending (active st - {current_thread st}) st" and ?r = "reclaim_deferred_stacks_all st"
  note i = user_invD [OF u]
  have m: "stacks_ok st" "structs_ok ?P st" "slots_ok st" using i(8) by (simp_all add: mem_inv_def)
  have "os_mmap ?r = os_mmap st"
    by (rule reclaim_frame; simp add: stack_pool_push_def sys_munmap_def valgrind_deregister_def)
  then have "structs_ok ?P ?r" using m(2) structs_ok_cong [of ?r st ?P] by simp
  moreover have "slots_ok ?r" by (rule slots_ok_cong [OF _ _ _ _ _ m(3)]) simp_all
  moreover have "stacks_ok ?r" using reclaim_all_ok [OF m(1)] by simp
  moreover have "entries (thr st x) = None" if "x \<notin> live st" for x using i(2) that by (auto simp: sched_inv_def flight_inv_def)
  ultimately show ?thesis using i(9) by (intro user_inv_mem_step [OF u]) (simp_all add: mem_inv_def)
qed

lemma flight_overwrite:
  assumes inv: "flight_inv {} c st" and t: "t \<notin> live st" "entries g = None"
  shows "flight_inv {} c (st\<lparr>thr := (thr st)(t := g)\<rparr>)"
proof -
  let ?s = "st\<lparr>thr := (thr st)(t := g)\<rparr>"
  have en: "entries (thr st t) = None" using inv t(1) by (auto simp: flight_inv_def)
  have rl: "x \<noteq> t" if "x \<in> set (ready_queue st)" for x using inv that en by (auto simp: flight_inv_def queues_ok_mem)
  have "queues_ok ?s" using inv queues_ok_cong [of ?s st] en t(2) by (simp add: flight_inv_def)
  moreover have "prio_ok ?s" by (rule flight_prioI [OF inv]) (use rl inv in \<open>auto simp: flight_inv_def prio_ok_def\<close>)
  ultimately show ?thesis using inv t by (auto simp: flight_inv_def)
qed

lemma next_id_block: "next_thread_id (block st) = next_thread_id st"
  by (simp add: block_eq)

text \<open>The new thread joins the others: it is ready, nobody waits for it, and it starts at its entry.\<close>

lemma user_inv_adopt:
  assumes u: "user_inv {t} st" and t: "t \<notin> live st"
    and e: "current_thread st' = current_thread st" "live st' = insert t (live st)" "zombie_queue st' = zombie_queue st"
      "zombie_initialized st' = zombie_initialized st"
    and s': "sched_inv st'"
    and o: "\<And>x. x \<noteq> t \<Longrightarrow> thr st' x = thr st x"
    and new: "saved_ctx (thr st' t) = [F_entry]" "joined_by (thr st' t) = None" "waiting_for (thr st' t) = None"
      "th_state (thr st' t) = THREAD_READY" "sig_ok (thr st' t)"
    and m: "mem_inv (pending (active st - {current_thread st}) st) st'"
  shows "user_inv {} st'"
proof -
  let ?c = "current_thread st" and ?S = "active st - {current_thread st}"
  note i = user_invD [OF u]
  have c: "?c \<noteq> t" using i(2) t by (auto simp: sched_inv_def)
  have ol: "thr st' x = thr st x" if "x \<in> live st" for x using that o t by (cases "x = t") simp_all
  have "sig_inv st'" using i(3) new(5) ol by (auto simp: sig_inv_def e(2))
  moreover have "join_inv st'" unfolding join_inv_def
  proof (intro conjI ballI allI impI)
    fix v j assume v: "v \<in> live st'" "joined_by (thr st' v) = Some j"
    then have vt: "v \<noteq> t" "v \<in> live st" using new(2) e(2) by auto
    then have vj: "joined_by (thr st v) = Some j" using v(2) ol by simp
    from join_inv_cases [OF i(4) vt(2) vj] show "join_link st' v j \<or> join_done st' v"
    proof
      assume l: "join_link st v j"
      then have "j \<noteq> t" using t by (auto simp: join_link_def)
      with l have "join_link st' v j" using vt(1) o by (simp add: join_link_def e(2))
      then show ?thesis ..
    next
      assume "join_done st v"
      then have "join_done st' v" using vt(1) o new(3) ol by (auto simp: join_done_def e(2))
      then show ?thesis ..
    qed
  next
    fix j v assume j: "j \<in> live st'" "waiting_for (thr st' j) = Some v"
    then have jt: "j \<noteq> t" "j \<in> live st" using new(3) e(2) by auto
    then have jw: "waiting_for (thr st j) = Some v" using j(2) ol by simp
    from join_inv_waits [OF i(4) jt(2) jw] have "v \<in> live st" "joined_by (thr st v) = Some j" by simp_all
    then show "v \<in> live st'" "joined_by (thr st' v) = Some j" using ol e(2) by auto
  qed
  ultimately have b: "base_inv st'" using i(1) s' e by (simp add: base_inv_def gc_ok_def)
  have a: "active st' = insert t (active st)" using ol new(4) by (auto simp: active_def e(2))
  have tS: "t \<notin> ?S" using t by (simp add: active_def)
  have "ctxs_ok ?S st' = ctxs_ok ?S st" "pending ?S st' = pending ?S st"
    by (rule ctxs_ok_cong pending_cong; simp add: ol active_def)+
  then have "ctxs_ok (insert t ?S) st'" "pending (insert t ?S) st' = pending ?S st"
    using i(7) tS new(1,3) by (simp_all add: ctxs_ok_insert ctx_defs)
  moreover have "insert t ?S = active st' - {current_thread st'}" using a c e(1) by auto
  ultimately show ?thesis using b m i(6) o c e(1) by (intro user_invI [where S = "insert t ?S"]) simp_all
qed

text \<open>The only undefined case of a creation is the overflow of the thread counter.\<close>

definition sound_unless :: "bool \<Rightarrow> tid set \<Rightarrow> result \<Rightarrow> bool" where
  "sound_unless b R res \<longleftrightarrow> sound R res \<or> b \<and> res = None"

lemma create_with_stack_sound:
  assumes u: "user_inv {t} st" and t: "t \<notin> live st" "t \<noteq> main_thread"
    and al: "stack_pool_alloc st = (Some e, s1)"
  shows "sound_unless (INT_MAX \<le> next_thread_id st) {} (create_with_stack t func a e s1)"
proof -
  let ?P = "pending (active st - {current_thread st}) st"
  note i = user_invD [OF u] and sel = alloc_sel [OF al]
  have m: "stacks_ok st" "structs_ok (insert t ?P) st" "slots_ok st" "t \<notin> ?P" using i(8,9) by (simp_all add: mem_inv_def)
  have en: "entries (thr st x) = None" if "x \<notin> live st" for x using i(2) that by (auto simp: sched_inv_def flight_inv_def)
  have al': "pool_ok s1" "entry_ok e" "se_map e \<notin> in_use st" "in_use s1 = insert (se_map e) (in_use st)"
    using pool_ok_alloc [OF _ al] m(1) by (simp_all add: stacks_ok_def)
  let ?h = "init_thread func a e (thr st t)"
  let ?s2 = "upd_thread t (init_thread func a e) s1"
  have s2: "structs_ok (insert t ?P) ?s2" "slots_ok ?s2"
  proof -
    show "structs_ok (insert t ?P) ?s2" using m(2) sel structs_ok_cong [of ?s2 st "insert t ?P"] by (simp add: upd_thread_def)
    show "slots_ok ?s2" by (rule slots_ok_cong [OF _ _ _ _ _ m(3)]) (use sel t(1) in \<open>auto simp: upd_thread_def\<close>)
  qed
  from head_ref_alloc_ok [OF s2, of t] obtain ref s3 where s3: "thread_head_ref_alloc t ?s2 = Some (ref, s3)" "structs_ok (insert t ?P) s3"
    "slots_ok s3" "same_but_slots ?s2 s3" "\<And>r. ref = Some r \<Longrightarrow> slot_used s3 r" by (fastforce split: option.splits)
  have f3: "thr s3 = (thr st)(t := ?h)" "live s3 = live st" "queues s3 = queues st" "current_thread s3 = current_thread st"
    "sched_policy s3 = sched_policy st" "deferred_stacks s3 = deferred_stacks st" "stack_pool s3 = stack_pool s1" "mapped s3 = mapped s1"
    "os_mmap s3 = os_mmap s1" "os_malloc s3 = os_malloc s1" "next_thread_id s3 = next_thread_id st" "zombie_initialized s3 = zombie_initialized st"
    using s3(4) sel by (simp_all add: same_but_slots_def upd_thread_def)
  let ?s4 = "upd_thread t (\<lambda>x. x\<lparr>head_joiner := ref\<rparr>) s3"
  show ?thesis
  proof (cases ref)
    case None
    have "structs_ok (insert t ?P) ?s4" using s3(2) structs_ok_cong [of ?s4 s3 "insert t ?P"] by (simp add: upd_thread_def)
    moreover have "slots_ok ?s4" by (rule slots_ok_cong [OF _ _ _ _ _ s3(3)]) (use f3 t(1) in \<open>auto simp: upd_thread_def\<close>)
    ultimately obtain s5 where s5: "thread_obj_release t ?s4 = Some s5" "structs_ok ?P s5" "slots_ok s5" "live s5 = live st"
      "\<And>x. x \<noteq> t \<Longrightarrow> thr s5 x = thr st x" "\<And>x. x \<notin> live st \<Longrightarrow> entries (thr s5 x) = None" "queues s5 = queues st" "current_thread s5 = current_thread st"
      "sched_policy s5 = sched_policy st" "zombie_initialized s5 = zombie_initialized st" "stack_pool s5 = stack_pool s1" "mapped s5 = mapped s1"
      "os_mmap s5 = os_mmap s1" "os_malloc s5 = os_malloc s1" "deferred_stacks s5 = deferred_stacks st"
      using release_struct [of t ?P ?s4] t m(4) f3 en by (auto simp: upd_thread_def init_thread_def)
    have ol: "thr s5 x = thr st x" if "x \<in> live st" for x using that s5(5) t(1) by (cases "x = t") simp_all
    let ?s6 = "stack_pool_push e s5"
    have "pool_ok s5" "in_use s5 = in_use s1" using al'(1) pool_ok_cong [of s5 s1] s5(11-14) by simp_all
    then have p6: "pool_ok ?s6" "in_use ?s6 = in_use st" using pool_ok_push [of s5 e] al' by auto
    have "stacks_ok ?s6" by (rule stacks_ok_pool [OF m(1) p6]) (simp_all add: s5 ol)
    moreover have "structs_ok ?P ?s6" "slots_ok ?s6"
      using s5(2,3) structs_ok_cong [of ?s6 s5 ?P] slots_ok_cong [of ?s6 s5]
      by (simp_all add: stack_pool_push_def sys_munmap_def valgrind_deregister_def)
    ultimately have "user_inv {} ?s6" by (intro user_inv_mem_step [OF u]) (simp_all add: mem_inv_def s5 ol)
    then show ?thesis using s3(1) s5(1) None
      by (simp add: create_with_stack_def Let_def sound_unless_def sound_def result_inv_def)
  next
    case over: (Some r)
    show ?thesis
    proof (cases "next_thread_id st < INT_MAX")
      case False
      then have "create_with_stack t func a e s1 = None"
        using s3(1) over f3(11) by (simp add: create_with_stack_def Let_def upd_thread_def)
      then show ?thesis using False by (simp add: sound_unless_def)
    next
    case n: True
    note Some = over
    let ?s5 = "upd_thread t (\<lambda>x. x\<lparr>saved_ctx := [F_entry]\<rparr>) (?s4\<lparr>live := insert t (live ?s4)\<rparr>)"
    let ?s6 = "(upd_thread t (\<lambda>x. x\<lparr>th_id := next_thread_id st\<rparr>) (block ?s5))\<lparr>next_thread_id := next_thread_id st + 1\<rparr>"
    let ?g = "?h\<lparr>head_joiner := ref, saved_ctx := [F_entry], th_id := next_thread_id st\<rparr>"
    have t6: "thr ?s6 = (thr st)(t := ?g)" "live ?s6 = insert t (live st)" "queues ?s6 = queues st" "current_thread ?s6 = current_thread st"
      "sched_policy ?s6 = sched_policy st" using f3 by (simp_all add: upd_thread_def)
    have g: "unlinked ?g" "th_state ?g = THREAD_READY" using en [OF t(1)]
      by (simp_all add: unlinked_def init_thread_def THREAD_DEFAULT_PRIORITY_def THREAD_MIN_PRIORITY_def THREAD_MAX_PRIORITY_def)
    let ?o = "st\<lparr>thr := (thr st)(t := ?g)\<rparr>"
    have "flight_inv {} (Some (current_thread st)) st" using i(2) by (simp add: sched_inv_def)
    from flight_overwrite [OF this t(1), of ?g] g(1) have "flight_inv {} (Some (current_thread st)) ?o" by (simp add: unlinked_def)
    from flight_adopt [OF this, of t] g(1) have "flight_inv {t} (Some (current_thread st)) (?o\<lparr>live := insert t (live ?o)\<rparr>)" by simp
    then have "flight_inv {t} (Some (current_thread st)) ?s6"
      by (subst flight_cong [of _ "?o\<lparr>live := insert t (live ?o)\<rparr>"]) (simp_all add: t6)
    moreover have "current_thread st \<noteq> t" using i(2) t(1) by (auto simp: sched_inv_def)
    ultimately obtain s7 where s7: "thread_scheduler_enqueue t ?s6 = Some s7"
      "flight_inv {} (Some (current_thread st)) s7" "queues s7 = (queues ?s6)(ReadyQ := ready_insert ?s6 t)" "live s7 = live ?s6"
      "current_thread s7 = current_thread ?s6" "thr s7 = (thr ?s6)(t := (thr ?s6 t)\<lparr>in_ready_queue := True, entries := Some ReadyQ\<rparr>)"
      using flight_enqueue [of "{t}" "Some (current_thread st)" ?s6 t] g(2) t6(1) by auto
    let ?s8 = "unblock s7"
    have cw: "create_with_stack t func a e s1 = Some (?s8, Ret 0 (Out_thread t))"
      using s3(1) s7(1) Some n f3(11) by (simp add: create_with_stack_def Let_def upd_thread_def next_id_block)
    have m8: "mem_part ?s8 = mem_part ?s6" using mem_part_ops(2) [OF s7(1)] by simp
    have th8: "thr ?s8 = (thr st)(t := ?g\<lparr>in_ready_queue := True, entries := Some ReadyQ\<rparr>)" using s7(6) t6(1) by simp
    have "user_inv {} ?s8"
    proof (rule user_inv_adopt [OF u t(1)])
      show "sched_inv ?s8" using s7(2,4,5) t6 i(2) by (simp add: sched_inv_def)
      have "stacks_ok ?s6"
        by (rule stacks_adopt [OF m(1) al t(1)])
          (use f3 t(1) in \<open>auto simp: upd_thread_def block_eq init_thread_def entry_of_def stack_part_def\<close>)
      moreover have "structs_ok ?P ?s6" using s3(2) f3(2) t(1) m(4)
        by (simp add: structs_ok_def blocks_def upd_thread_def block_eq os_sane_def)
      moreover have "slots_ok ?s6" using s3(3,5) Some f3(1,2) t(1)
        by (auto simp: slots_ok_def slot_used_def upd_thread_def block_eq init_thread_def)
      ultimately show "mem_inv ?P ?s8" using mem_part_inv [OF m8] by (simp add: mem_inv_def)
    qed (use s7 t6 th8 f3(12) mem_part_zombie [OF m8] in \<open>simp_all add: init_thread_def sig_ok_def upd_thread_def block_eq\<close>)
    then show ?thesis using cw by (simp add: sound_unless_def sound_def result_inv_def)
    qed
  qed
qed

lemma creating_fresh:
  assumes "user_inv R st" "t \<in> R"
  shows "t \<notin> live st" "t \<noteq> main_thread"
  using user_invD(8) [OF assms(1)] assms(2) by (auto simp: mem_inv_def structs_ok_def)

lemma create_loop_sound:
  assumes "user_inv {t} st"
  shows "sound_unless (INT_MAX \<le> next_thread_id st) {} (create_loop [] t func a n st)"
  using assms
proof (induction "4097 - n" arbitrary: n st rule: less_induct)
  case less
  note fresh = creating_fresh [OF less.prems]
  obtain r s1 where al: "stack_pool_alloc st = (r, s1)" by fastforce
  show ?case
  proof (cases r)
    case (Some e)
    then show ?thesis using create_with_stack_sound [OF less.prems fresh] al
      by (subst create_loop.simps) simp
  next
    case None
    let ?s2 = "reclaim_deferred_stacks_all s1"
    have u: "user_inv {t} ?s2" using reclaim_user alloc_fail_user [OF less.prems] al None by blast
    have n2: "next_thread_id ?s2 = next_thread_id st" using alloc_sel [OF al] by simp
    show ?thesis
    proof (cases "thread_ready_queue_empty ?s2 \<or> n \<ge> 4096")
      case True
      from create_gives_up [OF u creating_fresh [OF u]] obtain s3 where "thread_obj_release t ?s2 = Some s3" "user_inv {} s3" by auto
      then show ?thesis using al None True by (subst create_loop.simps) (auto simp: sound_unless_def sound_def result_inv_def)
    next
      case False
      let ?ks = "[F_create t func a (n + 1)]"
      have "sound {t} (thread_yield ?ks ?s2)" by (rule yield_sound [OF u]) (simp_all add: below_yield_def)
      then obtain s3 r3 where y: "thread_yield ?ks ?s2 = Some (s3, r3)" "result_inv {t} r3 s3" by (auto simp: sound_def)
      have c: "calm_call {[F_yield]} ?ks ?s2 s3 r3" using yield_calm [OF user_invD(2) [OF u] y(1)] .
      then have n3: "next_thread_id s3 = next_thread_id st" using n2 rest_sel(17) [of s3 ?s2] by (simp add: calm_call_def calm_def)
      have eq: "create_loop [] t func a n st = (case r3 of Ret _ _ \<Rightarrow> create_loop [] t func a (n + 1) s3 | _ \<Rightarrow> Some (s3, r3))"
        using al None False y(1) by (subst create_loop.simps) simp
      show ?thesis
      proof (cases r3)
        case (Ret i v)
        then have "sound_unless (INT_MAX \<le> next_thread_id s3) {} (create_loop [] t func a (n + 1) s3)"
          using y(2) False by (intro less.hyps) (auto simp: result_inv_def)
        then show ?thesis using eq Ret n3 by simp
      qed (use c y(2) eq in \<open>simp_all add: calm_call_def sound_unless_def sound_def result_inv_def\<close>)
    qed
  qed
qed

lemma create_sound:
  assumes u: "user_inv {} st" and n: "next_thread_id st < INT_MAX"
  shows "sound {} (thread_create [] newthread func a st)"
proof (cases "\<exists>f. func = Some f \<and> newthread")
  case False
  then show ?thesis using u by (cases func) (auto simp: thread_create_def sound_def result_inv_def)
next
  case True
  then obtain f where f: "func = Some f" "newthread" by blast
  from first_create_ok [OF u] obtain ok s1 where s1: "first_create st = Some (ok, s1)" "user_inv {} s1" "next_thread_id s1 = next_thread_id st" by blast
  obtain r s2 where al: "thread_alloc s1 = (r, s2)" by fastforce
  note au = alloc_user [OF s1(2) al] and sel = thread_alloc_sel [OF al]
  let ?s3 = "if stack_pool_empty s2 \<and> deferred_stacks s2 \<noteq> [] then reclaim_deferred_stacks_all s2 else s2"
  show ?thesis
  proof (cases ok)
    case False
    then show ?thesis using s1 f by (simp add: thread_create_def sound_def result_inv_def)
  next
    case True
    show ?thesis
    proof (cases r)
      case None
      then show ?thesis using au True s1(1) al f by (simp add: thread_create_def sound_def result_inv_def)
    next
      case (Some t)
      then have "user_inv {t} ?s3" using au reclaim_user by simp
      moreover have "next_thread_id ?s3 = next_thread_id st" using s1(3) sel by simp
      ultimately have "sound {} (create_loop [] t f a 0 ?s3)"
        using create_loop_sound [of t ?s3 f a 0] n unfolding sound_unless_def by linarith
      then show ?thesis using Some True s1(1) al f by (simp add: thread_create_def Let_def)
    qed
  qed
qed

end
