(* ===== verification/Reachability.thy ===== *)
theory Reachability
  imports Create_Invariant
begin

text \<open>
  Every step of the library keeps the invariant, so it holds in all reachable states; calls,
  resumptions and exit handlers are defined there.
\<close>

section \<open>Steps\<close>

text \<open>A call that a program may make: its handles are live, it does not overflow a counter, and it
  is not a doomed join.\<close>

definition lib_call :: "sys \<Rightarrow> call \<Rightarrow> bool" where
  "lib_call st c \<longleftrightarrow> call_ok st c \<and> join_safe st c"

lemma exec_call_sound:
  assumes u: "user_inv {} st" and ok: "lib_call st c"
  shows "sound {} (exec_call c st)"
proof (cases c)
  case (C_process_exit)
  then show ?thesis using user_exit_inv [OF u] by (simp add: sound_def result_inv_def)
qed (use ok in \<open>simp_all add: lib_call_def on_objects_def u create_sound exit_sound join_sound yield_sound below_yield_def yield_to_sound
    set_priority_sound init_destroy_sound mutex_lock_sound mutex_unlock_sound sem_wait_sound sem_post_sound
    cond_wait_sound cond_signal_sound cond_broadcast_sound send_sound sigwait_sound\<close>)

lemma tick_sound:
  assumes u: "user_inv {} st" shows "sound {} (deliver_sigvtalrm st)"
proof (cases "handler_vtalrm st \<and> preemptible st")
  case False
  then show ?thesis using u by (auto simp: deliver_sigvtalrm_def sound_def result_inv_def)
next
  case True
  let ?u = "st\<lparr>sigmask := insert SIGVTALRM (sigmask st)\<rparr>"
  have "sound {} (thread_yield [F_handler (sigmask st)] ?u)" by (rule yield_sound) (simp_all add: u below_yield_def)
  then obtain s r where "thread_yield [F_handler (sigmask st)] ?u = Some (s, r)" "result_inv {} r s" by (auto simp: sound_def)
  then show ?thesis using True
    by (cases r) (simp_all add: deliver_sigvtalrm_def preemption_handler_def Let_def sound_def result_inv_def)
qed

lemma marked_inv:
  assumes u: "user_inv {} st"
  defines "m \<equiv> st\<lparr>sigmask := sigmask st \<union> {SIGSEGV, SIGVTALRM}\<rparr>"
  shows "user_inv {} (upd_thread (current_thread m) (\<lambda>x. x\<lparr>stack_overflow := True\<rparr>) m)"
proof (rule user_inv_upd)
  show "user_inv {} m" using u by (simp add: m_def)
  show "sig_ok ((thr m (current_thread m))\<lparr>stack_overflow := True\<rparr>)" if "current_thread m \<in> live m"
    using that user_invD(3) [OF u] by (simp add: m_def sig_inv_def sig_ok_def)
qed (simp_all add: sched_part_def stack_part_def)

lemma fault_sound:
  assumes u: "user_inv {} st" shows "sound {} (deliver_sigsegv a st)"
proof -
  have k: "sound {} (Some (s, Killed))" for s by (simp add: sound_def result_inv_def)
  show ?thesis using exit_sound [OF marked_inv [OF u], of 0] by (simp add: deliver_sigsegv_def sigsegv_handler_def Let_def k)
qed

lemma then_unwind_sound: "sound R res \<Longrightarrow> sound R (then_unwind [] res)"
proof -
  assume "sound R res"
  then obtain st r where "res = Some (st, r)" "result_inv R r st" by (auto simp: sound_def)
  then show ?thesis by (cases r) (simp_all add: sound_def then_unwind_def)
qed

lemma resume_sound:
  assumes sw: "switch_inv st"
  shows "sound_unless (INT_MAX \<le> next_thread_id st) {} (resume_current st)"
proof -
  let ?c = "current_thread st"
  define ks where "ks = saved_ctx (thr st ?c)"
  have "?c \<in> active st" using current_active [OF switch_invD(2) [OF sw]] .
  then have ok: "ctx_ok ks" using switch_invD(6) [OF sw] by (simp add: ctxs_ok_def ks_def)
  have res: "resume_current st = resume ks st" by (simp add: resume_current_def ks_def)
  show ?thesis
  proof (cases "\<exists>t w. ks = [F_join t w]")
    case True
    then obtain t w where k: "ks = [F_join t w]" by blast
    from join_resume_sound [OF sw k [unfolded ks_def]] show ?thesis
      using res k by (simp add: then_unwind_sound sound_unless_def)
  next
    case nj: False
    then have "join_target ks = None" using ok by (auto simp: ctx_ok_def join_target_def split: list.splits frame.splits)
    from switch_to_user(1) [OF sw ks_def [symmetric] this] have u: "user_inv (creating ks) st" .
    have ret: "sound R (Some (s, Ret i v))" if "user_inv R s" for R s i v using that by (simp add: sound_def result_inv_def)
    obtain k ks' where k: "ks = k # ks'" using ok by (cases ks) (auto simp: ctx_ok_def)
    show ?thesis
    proof (cases k)
      case F_yield
      then consider "ks' = []" | n f a j where "ks' = [F_create n f a j]" | old where "ks' = [F_handler old]"
        using ok k by (auto simp: ctx_ok_def below_yield_def)
      then show ?thesis
      proof cases
        case 1
        then show ?thesis using u res k F_yield by (simp add: sound_unless_def ret)
      next
        case 2
        then have "user_inv {n} (unblock st)" using u k F_yield by simp
        from create_loop_sound [OF this, of f a j] show ?thesis
          using res k F_yield 2 then_unwind_sound [of "{}" "create_loop [] n f a j (unblock st)"]
          by (auto simp: sound_unless_def then_unwind_def unblock_eq)
      next
        case 3
        then show ?thesis using u res k F_yield by (simp add: sound_unless_def ret)
      qed
    next
      case F_mutex_lock
      then show ?thesis using u res k ok by (auto simp: ctx_ok_def sound_unless_def ret)
    next
      case (F_cond_wait m)
      then show ?thesis using u res k ok cond_relock_sound [of "unblock st" 0 m]
        by (simp add: ctx_ok_def sound_unless_def cond_wait_resume_def then_unwind_sound)
    next
      case (F_sigwait sigs)
      then show ?thesis using u res k ok sigwait_step_sound [of st sigs] by (simp add: ctx_ok_def sound_unless_def then_unwind_sound)
    next
      case (F_join t w)
      then show ?thesis using nj k ok by (simp add: ctx_ok_def)
    qed (use u res k ok in \<open>simp_all add: ctx_ok_def sound_unless_def thread_entry_def ret\<close>)
  qed
qed

section \<open>Reachable states\<close>

fun mode_inv :: "sys \<times> mode \<Rightarrow> bool" where
  "mode_inv (st, User) \<longleftrightarrow> user_inv {} st"
| "mode_inv (st, Switching) \<longleftrightarrow> switch_inv st"
| "mode_inv (st, Exiting) \<longleftrightarrow> exit_inv st"
| "mode_inv (st, Halted) \<longleftrightarrow> True"

lemma result_mode: "result_inv {} r st \<Longrightarrow> mode_inv (st, mode_of r)"
  by (cases r) (simp_all add: result_inv_def)

lemma soundD: "sound R res \<Longrightarrow> res = Some (st, r) \<Longrightarrow> result_inv R r st"
  by (auto simp: sound_def)

lemma initial_inv:
  assumes "os_sane env"
  shows "user_inv {} (initial_sys env mem)"
proof -
  let ?s = "initial_sys env mem"
  have sel: "thr ?s main_thread = main_thread_init" "live ?s = {main_thread}" "current_thread ?s = main_thread" "queues ?s = (\<lambda>_. [])"
    "\<And>t. entries (thr ?s t) = None" by (simp_all add: initial_sys_def main_thread_init_def)
  have "sched_inv ?s"
    by (simp add: sched_inv_def flight_inv_def sel queues_ok_def prio_ok_def thread_wf_def)
      (simp add: main_thread_init_def THREAD_DEFAULT_PRIORITY_def THREAD_MIN_PRIORITY_def THREAD_MAX_PRIORITY_def)
  moreover have "sig_inv ?s" by (simp add: sig_inv_def sel sig_ok_def) (simp add: main_thread_init_def)
  moreover have "join_inv ?s" by (simp add: join_inv_def sel) (simp add: main_thread_init_def)
  moreover have "gc_ok ?s" by (simp add: gc_ok_def sel)
  moreover have a: "{} = active ?s - {current_thread ?s}" by (auto simp: active_def sel)
  moreover have "os_sane ?s" using assms by (simp add: os_sane_def initial_sys_def)
  then have "mem_inv {} ?s"
    by (simp add: mem_inv_def stacks_ok_def pool_ok_def pool_maps_def in_use_def stacks_of_def structs_ok_def blocks_def slots_ok_def
        deferred_maps_def stack_owned_def sel)
      (simp add: initial_sys_def main_thread_init_def)
  ultimately show ?thesis
    by (intro user_invI [OF _ a]) (simp_all add: base_inv_def ctxs_ok_def pending_def disjoint_family_on_def sel main_thread_init_def)
qed

lemma step_inv:
  assumes "mode_inv s" "sys_step lib_call s s'"
  shows "mode_inv s'"
  using assms(2,1)
proof cases
  case (call st c st' r)
  then show ?thesis using assms(1) soundD [OF exec_call_sound [of st c]] by (auto intro: result_mode)
next
  case (tick st st' r)
  then show ?thesis using assms(1) soundD [OF tick_sound [of st]] by (auto intro: result_mode)
next
  case (fault a st st' r)
  then show ?thesis using assms(1) soundD [OF fault_sound [of st a]] by (auto intro: result_mode)
next
  case (switch st st' r)
  then show ?thesis using assms(1) resume_sound [of st] soundD [of "{}" "resume_current st"]
    by (auto simp: sound_unless_def intro: result_mode)
qed simp

lemma reachable_inv:
  assumes "reachable lib_call s0 s" "mode_inv (s0, User)"
  shows "mode_inv s"
  using assms by (induction rule: reachable.induct) (auto intro: step_inv)

text \<open>No call, no resumption and no exit handler of a reachable state is undefined.\<close>

lemma reachable_defined:
  assumes r: "reachable lib_call (initial_sys env mem) (st, m)" and env: "os_sane env"
  shows "m = User \<Longrightarrow> lib_call st c \<Longrightarrow> exec_call c st \<noteq> None"
    "m = User \<Longrightarrow> deliver_sigvtalrm st \<noteq> None" "m = User \<Longrightarrow> deliver_sigsegv a st \<noteq> None"
    "m = Switching \<Longrightarrow> next_thread_id st < INT_MAX \<Longrightarrow> resume_current st \<noteq> None"
    "m = Exiting \<Longrightarrow> process_exit st \<noteq> None"
proof -
  have i: "mode_inv (st, m)" using reachable_inv [OF r] initial_inv [OF env] by simp
  show "m = User \<Longrightarrow> lib_call st c \<Longrightarrow> exec_call c st \<noteq> None" using i exec_call_sound [of st c] by (auto simp: sound_def)
  show "m = User \<Longrightarrow> deliver_sigvtalrm st \<noteq> None" using i tick_sound [of st] by (auto simp: sound_def)
  show "m = User \<Longrightarrow> deliver_sigsegv a st \<noteq> None" using i fault_sound [of st a] by (auto simp: sound_def)
  show "m = Switching \<Longrightarrow> next_thread_id st < INT_MAX \<Longrightarrow> resume_current st \<noteq> None"
    using i resume_sound [of st] by (auto simp: sound_unless_def sound_def)
  show "m = Exiting \<Longrightarrow> process_exit st \<noteq> None"
    using i exit_handlers_ok [of st "atexit_handlers st"] by (auto simp: process_exit_def)
qed

end
