(* ===== verification/Shutdown.thy ===== *)
theory Shutdown
  imports Reachability
begin

text \<open>
  What the exit handlers leave behind: every thread structure and stack that does not belong to a
  thread that is still running, ready or blocked is released.
\<close>

section \<open>Stacks in use\<close>

text \<open>Pushing a stack takes it out of use, whether the pool keeps it or not.\<close>

lemma push_in_use: "in_use (stack_pool_push e st) = in_use st - {se_map e}"
  by (auto simp: stack_pool_push_def in_use_def pool_maps_def sys_munmap_def valgrind_deregister_def)

lemma fold_push_in_use: "in_use (fold stack_pool_push es st) = in_use st - se_map ` set es"
  by (induction es arbitrary: st) (auto simp: push_in_use)

lemma reclaim_in_use:
  assumes "length (deferred_stacks st) \<le> MAX_DEFERRED_STACKS"
  shows "in_use (reclaim_deferred_stacks_all st) = in_use st - deferred_maps st"
    "deferred_stacks (reclaim_deferred_stacks_all st) = []"
proof -
  have "in_use (st\<lparr>deferred_stacks := []\<rparr>) = in_use st" by (simp add: in_use_def pool_maps_def)
  then show "in_use (reclaim_deferred_stacks_all st) = in_use st - deferred_maps st"
    "deferred_stacks (reclaim_deferred_stacks_all st) = []"
    using assms by (simp_all add: reclaim_deferred_stacks_all_def reclaim_batch_eq fold_push_in_use deferred_maps_def)
qed

section \<open>The exit handlers\<close>

text \<open>The handlers in the order in which \<open>exit\<close> runs them once the library has been initialised.\<close>

abbreviation registered_handlers :: "exit_handler list" where
  "registered_handlers \<equiv> [H_pool_free_all, H_final_cleanup]"

lemma handlers_release:
  assumes e: "exit_inv st" and d: "length (deferred_stacks st) \<le> MAX_DEFERRED_STACKS"
  shows "\<exists>st'. run_exit_handlers registered_handlers st = Some st' \<and> blocks st' = [] \<and> stack_pool st' = [] \<and>
    deferred_stacks st' = [] \<and> zombie_queue st' = [] \<and>
    allocated st' = allocated st - set (blocks st) - set (zombie_queue st) \<and>
    mapped st' = in_use st - deferred_maps st - stacks_of (set (zombie_queue st)) st"
proof -
  let ?r = "reclaim_deferred_stacks_all st"
  from pool_free_all_ok [OF e] obtain s1 where s1: "thread_pool_free_all st = Some s1" "exit_inv s1" "blocks s1 = []"
    "allocated s1 = allocated st - set (blocks st)" "queues s1 = queues st" "thr s1 = thr st" "stack_pool s1 = stack_pool ?r"
    "mapped s1 = mapped ?r" "deferred_stacks s1 = deferred_stacks ?r" by blast
  from final_cleanup_ok [OF s1(2)] obtain s2 where s2: "do_final_cleanup s1 = Some s2" "zombie_queue s2 = []" "stack_pool s2 = []"
    "allocated s2 = allocated s1 - set (zombie_queue s1)" "block_part s2 = block_part s1" "deferred_stacks s2 = deferred_stacks s1"
    "mapped s2 = mapped s1 - stacks_of (set (zombie_queue s1)) s1 - se_map ` set (stack_pool s1)" by blast
  have "blocks s2 = blocks s1" using s2(5) by (simp add: blocks_def block_part_def)
  moreover have "mapped s2 = in_use ?r - stacks_of (set (zombie_queue st)) st"
    using s2(7) s1(5-8) by (auto simp: in_use_def pool_maps_def stacks_of_def)
  ultimately show ?thesis using s1 s2 reclaim_in_use [OF d] by simp
qed

text \<open>What remains belongs to threads that have not terminated or wait to be reaped by their joiner.\<close>

lemma process_exit_releases:
  assumes e: "exit_inv st" and m: "mem_inv R st" and z: "set (zombie_queue st) \<subseteq> live st"
    and h: "atexit_handlers st = registered_handlers"
  shows "\<exists>st'. process_exit st = Some st' \<and> blocks st' = [] \<and> stack_pool st' = [] \<and> deferred_stacks st' = [] \<and>
    zombie_queue st' = [] \<and> allocated st' = (live st - set (zombie_queue st) - {main_thread}) \<union> R \<and>
    mapped st' = stacks_of (live st - set (zombie_queue st)) st"
proof -
  have sk: "stacks_ok st" and st: "structs_ok R st" using m by (simp_all add: mem_inv_def)
  have own: "in_use st = deferred_maps st \<union> stacks_of (live st) st" using sk by (simp add: stacks_ok_def)
  have dj: "m \<notin> deferred_maps st" "\<forall>u \<in> live st. u \<noteq> t \<longrightarrow> stack_map (thr st u) \<noteq> Some m"
    if "t \<in> live st" "stack_map (thr st t) = Some m" for t m
    using stacks_ok_owned [OF sk that] by (simp_all add: stack_owned_def)
  have "in_use st - deferred_maps st - stacks_of (set (zombie_queue st)) st = stacks_of (live st - set (zombie_queue st)) st"
  proof (intro set_eqI iffI)
    fix x assume "x \<in> stacks_of (live st - set (zombie_queue st)) st"
    then obtain t where t: "t \<in> live st" "t \<notin> set (zombie_queue st)" "stack_map (thr st t) = Some x" by (auto simp: stacks_of_def)
    have "x \<notin> stacks_of (set (zombie_queue st)) st" using dj(2) [OF t(1,3)] t(2) z by (auto simp: stacks_of_def)
    then show "x \<in> in_use st - deferred_maps st - stacks_of (set (zombie_queue st)) st"
      using own t dj(1) [OF t(1,3)] by (auto simp: stacks_of_def)
  qed (use own in \<open>auto simp: stacks_of_def\<close>)
  moreover have "set (blocks st) \<subseteq> allocated st" "main_thread \<notin> allocated st" "live st \<subseteq> insert main_thread (allocated st)"
    "R \<subseteq> allocated st" "live st \<inter> set (blocks st) = {}" "R \<inter> set (blocks st) = {}" "live st \<inter> R = {}"
    "allocated st \<subseteq> set (blocks st) \<union> live st \<union> R" using st by (simp_all add: structs_ok_def)
  then have "allocated st - set (blocks st) - set (zombie_queue st) = (live st - set (zombie_queue st) - {main_thread}) \<union> R"
    using z by blast
  moreover have "length (deferred_stacks st) \<le> MAX_DEFERRED_STACKS" using sk by (simp add: stacks_ok_def)
  ultimately show ?thesis using handlers_release [OF e] h by (auto simp: process_exit_def)
qed

section \<open>The last thread exits\<close>

lemma free_zombies_from_handlers:
  "free_zombies_from t st = Some st' \<Longrightarrow> atexit_handlers st' = atexit_handlers st"
proof (rule free_zombies_from.raw_induct [where P = "\<lambda>_ st st'. atexit_handlers st' = atexit_handlers st"])
  fix f :: "tid option \<Rightarrow> sys \<Rightarrow> sys option" and t st st'
  assume ih: "\<And>t st st'. f t st = Some st' \<Longrightarrow> atexit_handlers st' = atexit_handlers st"
    and e: "(case t of None \<Rightarrow> Some st
      | Some t \<Rightarrow> let nxt = tailq_next ZombieQ t st in do {
          st \<leftarrow> tailq_remove ZombieQ t st;
          let st = (case stack_map (thr st t) of None \<Rightarrow> st | Some m \<Rightarrow> sys_munmap m st);
          st \<leftarrow> free_thread t st;
          f nxt st }) = Some st'"
  show "atexit_handlers st' = atexit_handlers st"
    using e by (auto simp: Let_def tailq_remove_Some free_thread_def c_free_def sys_munmap_def dest!: ih
        split: option.splits if_splits bind_splits)
qed

lemma final_cleanup_handlers:
  assumes "do_final_cleanup st = Some st'"
  shows "atexit_handlers st' = atexit_handlers st"
proof -
  have "atexit_handlers (release_stacks es s) = atexit_handlers s" for es and s :: sys
    by (induction es arbitrary: s) (simp_all add: sys_munmap_def valgrind_deregister_def)
  with assms free_zombies_from_handlers show ?thesis
    by (auto simp: do_final_cleanup_def free_zombies_def stack_pool_free_all_def split: if_splits bind_splits)
qed

text \<open>The clean-up runs twice, once on the clean-up stack and once among the exit handlers; between the
  two the deferred stacks, the one of the exiting thread included, go to the pool.\<close>

lemma cleanup_then_handlers:
  assumes e: "exit_inv st" and m: "mem_inv R st" and h: "atexit_handlers st = registered_handlers"
    and z: "live st \<subseteq> insert main_thread (set (zombie_queue st))" "R = {}"
  shows "\<exists>s st'. do_final_cleanup st = Some s \<and> process_exit s = Some st' \<and> allocated st' = {} \<and> mapped st' = {}"
proof -
  have sk: "stacks_ok st" and sr: "structs_ok {} st" using m z(2) by (simp_all add: mem_inv_def)
  have own: "in_use st = deferred_maps st \<union> stacks_of (live st) st" "stack_map (thr st main_thread) = None"
    and d: "length (deferred_stacks st) \<le> MAX_DEFERRED_STACKS" using sk by (simp_all add: stacks_ok_def)
  from final_cleanup_ok [OF e] obtain s where s: "do_final_cleanup st = Some s" "exit_inv s" "zombie_queue s = []" "stack_pool s = []"
    "allocated s = allocated st - set (zombie_queue st)" "block_part s = block_part st" "deferred_stacks s = deferred_stacks st"
    "mapped s = mapped st - stacks_of (set (zombie_queue st)) st - se_map ` set (stack_pool st)" by blast
  from handlers_release [OF s(2)] d s(7) obtain st' where st': "run_exit_handlers registered_handlers s = Some st'"
    "allocated st' = allocated s - set (blocks s) - set (zombie_queue s)"
    "mapped st' = in_use s - deferred_maps s - stacks_of (set (zombie_queue s)) s" by auto
  have "stacks_of (live st) st \<subseteq> stacks_of (set (zombie_queue st)) st" using z(1) own(2) by (auto simp: stacks_of_def)
  moreover have "in_use s = in_use st - stacks_of (set (zombie_queue st)) st" "deferred_maps s = deferred_maps st"
    using s by (auto simp: in_use_def pool_maps_def deferred_maps_def)
  ultimately have "mapped st' = {}" using st'(3) own(1) by auto
  moreover have "set (blocks s) = set (blocks st)" using s(6) by (simp add: blocks_def block_part_def)
  then have "allocated st' = {}" using st'(2) s(3,5) z(1) sr by (auto simp: structs_ok_def)
  moreover have "process_exit s = Some st'" using st'(1) final_cleanup_handlers [OF s(1)] h by (simp add: process_exit_def)
  ultimately show ?thesis using s(1) by blast
qed

lemma last_exit_releases:
  assumes u: "user_inv {} st" and q: "exit_ready st = []" and a: "active st = {current_thread st}"
    and z: "live st \<subseteq> {main_thread, current_thread st} \<union> set (zombie_queue st)" and h: "atexit_handlers st = registered_handlers"
  shows "\<exists>s st'. thread_exit rv st = Some (s, Exited) \<and> process_exit s = Some st' \<and> allocated st' = {} \<and> mapped st' = {}"
proof -
  let ?c = "current_thread st"
  note i = user_invD [OF u]
  have "ready_insert st j \<noteq> []" for j using set_ready_insert [of st j] by fastforce
  then have nj: "joined_by (thr st ?c) = None" using q by (cases "joined_by (thr st ?c)") (simp_all add: exit_ready_def)
  from exit_stages [OF i(2,5,4), of rv] obtain s y where s: "thread_exit rv st = exit_switch s" "flight_inv {} None s" "gc_ok s"
    "live s = live st" "ready_queue s = []"
    "zombie_queue s = (if ?c \<noteq> main_thread \<and> joined_by (thr st ?c) = None then zombie_queue st @ [?c] else zombie_queue st)"
    and y: "rest s = (rest (exit_defer ?c (exit_marked rv st)))\<lparr>zombie_initialized := y\<rparr>"
    using q unfolding exit_marked_def by auto
  have c: "?c \<in> live st" using i(2) by (simp add: sched_inv_def)
  have "pending (active st - {?c}) st = {}" using a by (simp add: pending_def)
  then have m: "mem_inv {} s" using exit_mem [OF i(8) c y] by simp
  have "set (zombie_queue s) \<subseteq> live s" "queues_ok s" using s(2) by (auto simp: flight_inv_def queues_ok_mem)
  moreover have "main_thread \<notin> set (zombie_queue s)" using i(1) s(6) by (auto simp: base_inv_def)
  ultimately have e: "exit_inv s" using s(3) m by (intro exit_invI [of s "{}"]) (auto simp: mem_inv_def)
  have "rest s = rest ((exit_defer ?c (exit_marked rv st))\<lparr>zombie_initialized := y\<rparr>)" using y by (simp add: rest_def)
  from rest_sel(21) [OF this] have "atexit_handlers s = registered_handlers"
    using h by (simp add: exit_defer_def exit_marked_def defer_stack_reclaim_def upd_thread_def block_eq split: option.splits)
  moreover have "live s \<subseteq> insert main_thread (set (zombie_queue s))" using z s(4,6) nj by auto
  ultimately show ?thesis using cleanup_then_handlers [OF e m] s(1) pick_next_empty [OF s(5)]
    by (fastforce simp: exit_switch_def thread_switch_to_cleanup_def)
qed

end
