(* ===== verification/Masking.thy ===== *)
theory Masking
  imports Reachability
begin

text \<open>
  Under the FIFO policy no thread is linked into or unlinked from a queue while a timer signal could
  arrive, until \<open>exit\<close> runs its handlers: every operation that does so runs with the signal blocked,
  and so does a context switch.  Only the initialisation of the queue of a mutex, semaphore or
  condition may be interrupted.  This needs no assumption on the calls.
\<close>

section \<open>Shielded states\<close>

text \<open>\<open>shielded b\<close>: so far every queue update was protected but for the initialisation of objects, and
  the mask operations work once the timer runs; with \<open>b\<close> the signal cannot arrive now.\<close>

definition shielded :: "bool \<Rightarrow> sys \<Rightarrow> bool" where
  "shielded b st \<longleftrightarrow> sched_policy st = THREAD_SCHED_FIFO \<and> \<not> unmasked st \<and> (\<forall>q \<in> bare_inits st. wait_queue q) \<and>
     (timer_us st \<noteq> None \<longrightarrow> enable_preemption st \<and> SIGVTALRM \<in> sigvtalrm_mask st) \<and> (b \<longrightarrow> \<not> preemptible st)"

abbreviation quiet :: "sys \<Rightarrow> bool" where "quiet \<equiv> shielded False"
abbreviation masked :: "sys \<Rightarrow> bool" where "masked \<equiv> shielded True"

text \<open>What an operation may end with: control is given away only with the signal blocked.\<close>

definition keeps_quiet :: "result \<Rightarrow> bool" where
  "keeps_quiet res \<longleftrightarrow> (\<forall>st r. res = Some (st, r) \<longrightarrow> quiet st \<and> (r = Switched \<longrightarrow> masked st))"

named_theorems mask_rules "operations that run with the signal blocked"

lemma masked_quiet: "masked st \<Longrightarrow> quiet st"
  by (simp add: shielded_def)

lemma masked_block: "quiet st \<Longrightarrow> masked (block st)"
  by (auto simp: shielded_def preemptible_def block_eq)

lemma quiet_unblock [simp]: "quiet (unblock st) = quiet st"
  by (simp add: shielded_def unblock_eq)

lemma shielded_upd [simp]:
  "shielded b (upd_thread t f st) = shielded b st" "shielded b (st\<lparr>errno := e\<rparr>) = shielded b st"
  "shielded b (st\<lparr>current_thread := c\<rparr>) = shielded b st" "shielded b (st\<lparr>m_locked := l\<rparr>) = shielded b st"
  "shielded b (st\<lparr>s_count := n\<rparr>) = shielded b st"
  "shielded b (st\<lparr>live := lv\<rparr>) = shielded b st" "shielded b (st\<lparr>next_thread_id := i\<rparr>) = shielded b st"
  "shielded b (st\<lparr>thread_pool := p\<rparr>) = shielded b st" "shielded b (st\<lparr>deferred_stacks := d\<rparr>) = shielded b st"
  "shielded b (st\<lparr>scheduler_initialized := i'\<rparr>) = shielded b st" "shielded b (st\<lparr>zombie_initialized := z\<rparr>) = shielded b st"
  "shielded b (st\<lparr>atexit_handlers := h\<rparr>) = shielded b st" "quiet (st\<lparr>sigmask := m\<rparr>) = quiet st"
  "shielded b (st\<lparr>handler_segv := s\<rparr>) = shielded b st" "shielded b (fast_swap_context t ks st) = shielded b st"
  by (simp_all add: shielded_def preemptible_def upd_thread_def fast_swap_context_def)

lemma shielded_swap [simp]: "shielded b (swap_thread p n ks st) = shielded b st"
  by (simp add: shielded_def preemptible_def swap_thread_eq)

text \<open>The queue primitives.\<close>

lemma shielded_init [simp]: "wait_queue q \<Longrightarrow> shielded b (tailq_init q st) = shielded b st"
  by (simp add: shielded_def preemptible_def tailq_init_def)

lemma masked_init [simp]: "masked st \<Longrightarrow> masked (tailq_init q st)"
  by (auto simp: shielded_def preemptible_def tailq_init_def)

lemma masked_link [mask_rules]: "tailq_link q t xs st = Some st' \<Longrightarrow> masked st \<Longrightarrow> masked st'"
  by (auto simp: tailq_link_Some shielded_def preemptible_def)

lemma masked_remove [mask_rules]: "tailq_remove q t st = Some st' \<Longrightarrow> masked st \<Longrightarrow> masked st'"
  by (auto simp: tailq_remove_Some shielded_def preemptible_def)

lemma masked_insert_tail [mask_rules]: "tailq_insert_tail q t st = Some st' \<Longrightarrow> masked st \<Longrightarrow> masked st'"
  by (simp add: tailq_insert_tail_def masked_link)

lemma masked_enqueue [mask_rules]: "thread_scheduler_enqueue t st = Some st' \<Longrightarrow> masked st \<Longrightarrow> masked st'"
  using enqueue_frame [of t st st'] by (auto simp: shielded_def preemptible_def)

lemma masked_pick [mask_rules]: "thread_scheduler_pick_next st = Some (n, st') \<Longrightarrow> masked st \<Longrightarrow> masked st'"
  using pick_frame [of st n st'] by (auto simp: shielded_def preemptible_def)

lemma masked_revive [mask_rules]: "revive q st = Some st' \<Longrightarrow> masked st \<Longrightarrow> masked st'"
  by (auto simp: revive_def split: option.splits dest!: mask_rules)

section \<open>Composition\<close>

named_theorems mask_intros "rules for the parts of an operation"

lemma keeps_Ret [mask_intros]: "quiet st \<Longrightarrow> keeps_quiet (Some (st, Ret i v))"
  by (simp add: keeps_quiet_def)

lemma keeps_end [mask_intros]: "masked st \<Longrightarrow> keeps_quiet (Some (st, r))"
  by (simp add: keeps_quiet_def masked_quiet)

lemma keeps_None [mask_intros]: "keeps_quiet None"
  by (simp add: keeps_quiet_def)

lemma keeps_if [mask_intros]: "(b \<Longrightarrow> keeps_quiet x) \<Longrightarrow> (\<not> b \<Longrightarrow> keeps_quiet y) \<Longrightarrow> keeps_quiet (if b then x else y)"
  by simp

lemma keeps_case_option [mask_intros]:
  "(x = None \<Longrightarrow> keeps_quiet a) \<Longrightarrow> (\<And>y. x = Some y \<Longrightarrow> keeps_quiet (f y)) \<Longrightarrow> keeps_quiet (case x of None \<Rightarrow> a | Some y \<Rightarrow> f y)"
  by (cases x) simp_all

definition keeps_masked :: "sys option \<Rightarrow> bool" where
  "keeps_masked m \<longleftrightarrow> (\<forall>st. m = Some st \<longrightarrow> masked st)"

lemma keeps_bind [mask_intros]:
  "keeps_masked m \<Longrightarrow> (\<And>st. masked st \<Longrightarrow> keeps_quiet (f st)) \<Longrightarrow> keeps_quiet (m \<bind> f)"
  by (cases m) (simp_all add: keeps_masked_def keeps_quiet_def)

lemma keeps_pick [mask_intros]:
  "masked st \<Longrightarrow> (\<And>n st. masked st \<Longrightarrow> keeps_quiet (f n st)) \<Longrightarrow> keeps_quiet (thread_scheduler_pick_next st \<bind> (\<lambda>(n, st). f n st))"
  by (cases "thread_scheduler_pick_next st") (auto simp: keeps_quiet_def dest!: mask_rules)

lemma masked_step [mask_intros]:
  "masked st \<Longrightarrow> keeps_masked (Some st)"
  "masked st \<Longrightarrow> keeps_masked (thread_scheduler_enqueue t st)"
  "masked st \<Longrightarrow> keeps_masked (tailq_insert_tail q t st)"
  "masked st \<Longrightarrow> keeps_masked (tailq_remove q t st)"
  "masked st \<Longrightarrow> keeps_masked (revive q st)"
  by (auto simp: keeps_masked_def dest!: mask_rules)

lemma masked_if [mask_intros]:
  "(b \<Longrightarrow> keeps_masked x) \<Longrightarrow> (\<not> b \<Longrightarrow> keeps_masked y) \<Longrightarrow> keeps_masked (if b then x else y)"
  by simp

lemma masked_bind [mask_intros]:
  "keeps_masked m \<Longrightarrow> (\<And>st. masked st \<Longrightarrow> keeps_masked (f st)) \<Longrightarrow> keeps_masked (m \<bind> f)"
  by (cases m) (simp_all add: keeps_masked_def)

lemma masked_case_option [mask_intros]:
  "(x = None \<Longrightarrow> keeps_masked a) \<Longrightarrow> (\<And>y. x = Some y \<Longrightarrow> keeps_masked (f y)) \<Longrightarrow> keeps_masked (case x of None \<Rightarrow> a | Some y \<Rightarrow> f y)"
  by (cases x) simp_all

section \<open>Yielding\<close>

lemma fifo_block: "quiet st \<Longrightarrow> sched_policy (block st) \<noteq> THREAD_SCHED_PRIO" "masked st \<Longrightarrow> sched_policy st \<noteq> THREAD_SCHED_PRIO"
  by (simp_all add: shielded_def)

lemma yield_quiet:
  assumes "quiet st" shows "keeps_quiet (thread_yield ks st)"
  unfolding thread_yield_def Let_def
  by (intro mask_intros) (use assms fifo_block in \<open>simp_all add: masked_block masked_quiet\<close>)

lemma yield_to_quiet:
  assumes "quiet st" shows "keeps_quiet (thread_yield_to ks t st)"
  unfolding thread_yield_to_def Let_def
  by (intro mask_intros yield_quiet) (use assms in \<open>simp_all add: masked_block masked_quiet\<close>)

lemma set_priority_quiet:
  assumes "quiet st" shows "keeps_quiet (thread_set_priority ks t p st)"
  unfolding thread_set_priority_def Let_def
  by (intro mask_intros yield_to_quiet) (use assms in \<open>simp_all add: masked_block masked_quiet\<close>)

section \<open>Synchronisation objects\<close>

lemma mutex_quiet:
  assumes "quiet st"
  shows "keeps_quiet (thread_mutex_init m st)" "keeps_quiet (thread_mutex_destroy m st)"
    "keeps_quiet (thread_mutex_lock ks m st)" "keeps_quiet (thread_mutex_unlock m st)"
  unfolding thread_mutex_init_def thread_mutex_destroy_def thread_mutex_lock_def thread_mutex_unlock_def Let_def
  by ((intro mask_intros)?; use assms in \<open>simp_all add: masked_block masked_quiet\<close>)+

lemma sem_quiet:
  assumes "quiet st"
  shows "keeps_quiet (thread_sem_init s n st)" "keeps_quiet (thread_sem_destroy s st)"
    "keeps_quiet (thread_sem_wait ks s st)" "keeps_quiet (thread_sem_post s st)"
  unfolding thread_sem_init_def thread_sem_destroy_def thread_sem_wait_def thread_sem_post_def Let_def
  by ((intro mask_intros)?; use assms in \<open>simp_all add: masked_block masked_quiet\<close>)+

lemma signal_quiet:
  "quiet st \<Longrightarrow> keeps_quiet (thread_signal_send t s st)" "masked st \<Longrightarrow> keeps_quiet (sigwait_step ks sigs st)"
  "quiet st \<Longrightarrow> keeps_quiet (thread_sigwait ks sigs p st)"
proof -
  show "quiet st \<Longrightarrow> keeps_quiet (thread_signal_send t s st)"
    unfolding thread_signal_send_def Let_def by (intro mask_intros) (simp_all add: masked_block masked_quiet)
  show sw: "masked st \<Longrightarrow> keeps_quiet (sigwait_step ks sigs st)" for st
    unfolding sigwait_step_def Let_def by (intro mask_intros) (simp_all add: masked_quiet)
  show "quiet st \<Longrightarrow> keeps_quiet (thread_sigwait ks sigs p st)"
    unfolding thread_sigwait_def by (intro mask_intros sw) (simp_all add: masked_block masked_quiet)
qed

text \<open>A library call inside an operation: its result goes on unless it gives control away.\<close>

lemma keeps_call:
  assumes "keeps_quiet res" "\<And>st i v. quiet st \<Longrightarrow> keeps_quiet (f st (Ret i v))"
    "\<And>st r. (\<forall>i v. r \<noteq> Ret i v) \<Longrightarrow> f st r = Some (st, r)"
  shows "keeps_quiet (res \<bind> (\<lambda>(st, r). f st r))"
proof (cases res)
  case (Some x)
  obtain st r where x: "x = (st, r)" by (cases x)
  show ?thesis using assms Some x by (cases r) (simp_all add: keeps_quiet_def)
qed (simp add: keeps_quiet_def)

lemma cond_quiet:
  assumes "quiet st"
  shows "keeps_quiet (thread_cond_init c st)" "keeps_quiet (thread_cond_destroy c st)" "keeps_quiet (cond_relock ret ks m st)"
    "keeps_quiet (cond_wait_resume ks m st)" "keeps_quiet (thread_cond_signal c st)"
proof -
  have r: "keeps_quiet (cond_relock ret ks m st)" if "quiet st" for st ret
    unfolding cond_relock_def by (rule keeps_call [OF mutex_quiet(3) [OF that]]) (auto simp: keeps_quiet_def split: outcome.splits)
  show "keeps_quiet (cond_relock ret ks m st)" using r assms .
  show "keeps_quiet (cond_wait_resume ks m st)" unfolding cond_wait_resume_def using assms by (intro r) simp
  show "keeps_quiet (thread_cond_init c st)" "keeps_quiet (thread_cond_destroy c st)" "keeps_quiet (thread_cond_signal c st)"
    unfolding thread_cond_init_def thread_cond_destroy_def thread_cond_signal_def Let_def
    by ((intro mask_intros)?; use assms in \<open>simp_all add: masked_block masked_quiet\<close>)+
qed

lemma revive_all_masked [mask_intros]: "masked st \<Longrightarrow> keeps_masked (revive_all q st)"
proof -
  have "masked st \<longrightarrow> masked st'" if "revive_all q st = Some st'" for st'
  proof (rule revive_all.raw_induct [OF _ that, where P = "\<lambda>q st st'. masked st \<longrightarrow> masked st'"])
    fix f :: "qid \<Rightarrow> sys \<Rightarrow> sys option" and q st st'
    assume "\<And>q st st'. f q st = Some st' \<Longrightarrow> masked st \<longrightarrow> masked st'"
      and "(if queues st q \<noteq> [] then do { st \<leftarrow> revive q st; f q st } else Some st) = Some st'"
    then show "masked st \<longrightarrow> masked st'" by (auto split: if_splits dest: masked_revive)
  qed
  then show "masked st \<Longrightarrow> keeps_masked (revive_all q st)" by (simp add: keeps_masked_def)
qed

lemma cond_release_masked [mask_intros]: "masked st \<Longrightarrow> keeps_masked (cond_release m st)"
  unfolding cond_release_def by (intro mask_intros) simp_all

lemma cond_broadcast_quiet: "quiet st \<Longrightarrow> keeps_quiet (thread_cond_broadcast c st)"
  unfolding thread_cond_broadcast_def Let_def by (intro mask_intros) (simp_all add: masked_block masked_quiet)

lemma cond_wait_quiet:
  assumes "quiet st" shows "keeps_quiet (thread_cond_wait ks c m st)"
proof (cases "c = None \<or> m = None")
  case True
  then show ?thesis using assms by (cases c; cases m) (simp_all add: thread_cond_wait_def keeps_quiet_def)
next
  case False
  then obtain x y where "c = Some x" "m = Some y" by auto
  then have "thread_cond_wait ks c m st = thread_cond_wait ks (Some x) (Some y) st" by simp
  then show ?thesis unfolding thread_cond_wait_def Let_def prod.case option.case
    by (simp only:) (intro mask_intros cond_quiet(3); use assms in \<open>simp_all add: masked_block masked_quiet\<close>)
qed

section \<open>Memory\<close>

lemma shielded_os [simp]:
  "shielded b (st\<lparr>malloc_calls := k\<rparr>) = shielded b st" "shielded b (st\<lparr>allocated := A\<rparr>) = shielded b st"
  "shielded b (st\<lparr>mmap_calls := k\<rparr>) = shielded b st" "shielded b (st\<lparr>mprotect_calls := k\<rparr>) = shielded b st"
  "shielded b (st\<lparr>mapped := M\<rparr>) = shielded b st" "shielded b (st\<lparr>guarded := G\<rparr>) = shielded b st"
  "shielded b (st\<lparr>madvised := D\<rparr>) = shielded b st" "shielded b (st\<lparr>deregistered := V\<rparr>) = shielded b st"
  "shielded b (st\<lparr>stack_pool := P\<rparr>) = shielded b st" "shielded b (st\<lparr>head_ref_chunks_ptr := p\<rparr>) = shielded b st"
  "shielded b (st\<lparr>head_ref_chunks := c\<rparr>) = shielded b st" "shielded b (st\<lparr>head_ref_chunks_cap := n\<rparr>) = shielded b st"
  "shielded b (st\<lparr>head_ref_active_chunk := a\<rparr>) = shielded b st" "shielded b (st\<lparr>head_ref_active_index := i\<rparr>) = shielded b st"
  "shielded b (st\<lparr>head_cells := hc\<rparr>) = shielded b st" "shielded b (st\<lparr>cleanup_registered := r\<rparr>) = shielded b st"
  by (simp_all add: shielded_def preemptible_def)

lemma shielded_push [simp]: "shielded b (stack_pool_push e st) = shielded b st"
  by (simp add: stack_pool_push_def sys_munmap_def valgrind_deregister_def Let_def)

lemma shielded_reclaim [simp]: "shielded b (reclaim_deferred_stacks_all st) = shielded b st"
  by (rule reclaim_frame) simp_all

lemma shielded_stack_alloc: "stack_pool_alloc st = (r, st') \<Longrightarrow> shielded b st' = shielded b st"
  by (auto simp: stack_pool_alloc_def sys_mmap_def sys_mprotect_none_def sys_munmap_def Let_def split: if_splits option.splits prod.splits)

lemma shielded_malloc: "c_malloc st = (r, st') \<Longrightarrow> shielded b st' = shielded b st"
  by (auto simp: c_malloc_def Let_def split: option.splits)

lemma shielded_thread_alloc: "thread_alloc st = (r, st') \<Longrightarrow> shielded b st' = shielded b st"
  by (auto simp: thread_alloc_def shielded_malloc split: if_splits)

lemma shielded_free: "c_free a st = Some st' \<Longrightarrow> shielded b st' = shielded b st"
  by (auto simp: c_free_def split: if_splits)

lemma shielded_thread_free: "thread_free t st = Some st' \<Longrightarrow> shielded b st' = shielded b st"
  by (auto simp: thread_free_def free_thread_def c_free_def split: if_splits)

lemma shielded_release: "thread_obj_release t st = Some st' \<Longrightarrow> shielded b st' = shielded b st"
  by (auto simp: thread_obj_release_def shielded_thread_free split: if_splits)

lemma shielded_realloc: "c_realloc p st = Some (r, st') \<Longrightarrow> shielded b st' = shielded b st"
  by (auto simp: c_realloc_def Let_def split: if_splits option.splits)

lemma shielded_grow:
  assumes "head_ref_grow st = Some (r, st')" shows "shielded b st' = shielded b st"
proof (cases "c_malloc st")
  case (Pair c s)
  note s = shielded_malloc [OF Pair, of b]
  show ?thesis
  proof (cases "c = None \<or> length (head_ref_chunks s) < head_ref_chunks_cap s")
    case True
    then show ?thesis using assms Pair s by (cases c) (auto simp: head_ref_grow_def)
  next
    case False
    with assms Pair obtain p u where u: "c_realloc (head_ref_chunks_ptr s) s = Some (p, u)"
      by (auto simp: head_ref_grow_def Let_def)
    from shielded_realloc [OF u, of b] show ?thesis using assms Pair s u False
      by (cases p) (auto simp: head_ref_grow_def Let_def dest: shielded_free [of _ _ _ b])
  qed
qed

lemma shielded_take [simp]: "shielded b (snd (take_slot t c st)) = shielded b st"
  by (simp add: take_slot_def Let_def)

lemma shielded_slot:
  assumes "thread_head_ref_alloc t st = Some (r, st')" shows "shielded b st' = shielded b st"
proof (cases "head_ref_active_chunk st = None \<or> head_ref_active_index st \<ge> HEAD_REF_CHUNK_SIZE")
  case True
  with assms obtain c s where g: "head_ref_grow st = Some (c, s)" by (auto simp: head_ref_alloc_cases)
  have "(r, st') = (case c of None \<Rightarrow> (None, s) | Some c \<Rightarrow> take_slot t c s)"
    using assms True g by (cases c) (simp_all add: head_ref_alloc_cases)
  then have "shielded b st' = shielded b s" using shielded_take [of b t _ s] by (cases c) (simp, metis option.simps(5) snd_conv)
  then show ?thesis using shielded_grow [OF g] by simp
next
  case False
  then have "(r, st') = take_slot t (the (head_ref_active_chunk st)) st" using assms by (auto simp: head_ref_alloc_cases)
  then show ?thesis using shielded_take [of b t _ st] by (metis snd_conv)
qed

section \<open>Creation\<close>

lemma quiet_init:
  "quiet st \<Longrightarrow> enable_preemption st \<Longrightarrow> quiet (fst (init_prem us st))"
  "quiet (init_stack_overflow_detection st) = quiet st"
  by (simp_all add: init_prem_def preem_mask_init_def init_stack_overflow_detection_def shielded_def)

lemma first_create_quiet:
  assumes "quiet st" "first_create st = Some (ok, st')" shows "quiet st'"
  using assms
  by (auto simp: first_create_def thread_cleanup_register_def Let_def quiet_init split: if_splits dest!: shielded_slot [of _ _ _ _ False])

lemma create_with_stack_quiet:
  assumes "quiet st" shows "keeps_quiet (create_with_stack t f a e st)"
proof (cases "thread_head_ref_alloc t (upd_thread t (init_thread f a e) st)")
  case None
  then show ?thesis by (simp add: create_with_stack_def Let_def keeps_quiet_def)
next
  case (Some p)
  obtain ref s where p: "p = (ref, s)" by (cases p)
  have s: "quiet s" using shielded_slot [of t _ ref s False] Some p assms by simp
  have rel: "keeps_quiet (thread_obj_release t s1 \<bind> (\<lambda>st. Some (set_errno ENOMEM (stack_pool_push e st), Ret (-1) No_out)))" if "quiet s1" for s1
    using that by (auto simp: keeps_quiet_def dest!: shielded_release [of _ _ _ False])
  show ?thesis unfolding create_with_stack_def Let_def Some p bind.simps prod.case
    by (intro mask_intros rel; use s in \<open>simp_all add: masked_block masked_quiet\<close>)
qed

lemma create_loop_quiet: "quiet st \<Longrightarrow> keeps_quiet (create_loop ks t f a n st)"
proof (induction "4097 - n" arbitrary: n st rule: less_induct)
  case less
  obtain r s where al: "stack_pool_alloc st = (r, s)" by fastforce
  have s: "quiet s" using shielded_stack_alloc [OF al, of False] less.prems by simp
  show ?case
  proof (cases r)
    case (Some e)
    then show ?thesis using al create_with_stack_quiet [OF s] by (subst create_loop.simps) simp
  next
    case None
    let ?s = "reclaim_deferred_stacks_all s"
    have q: "quiet ?s" using s by simp
    show ?thesis
    proof (cases "thread_ready_queue_empty ?s \<or> n \<ge> 4096")
      case True
      then show ?thesis using al None q
        by (subst create_loop.simps) (auto simp: keeps_quiet_def Let_def dest!: shielded_release [of _ _ _ False])
    next
      case False
      have "keeps_quiet (thread_yield (F_create t f a (n + 1) # ks) ?s \<bind> (\<lambda>(st, r). case r of
          Ret _ _ \<Rightarrow> create_loop ks t f a (n + 1) st | _ \<Rightarrow> Some (st, r)))"
        by (rule keeps_call [OF yield_quiet [OF q]]) (use less.hyps [of "n + 1"] False in \<open>auto split: outcome.splits\<close>)
      then show ?thesis using al None False by (subst create_loop.simps) (simp add: Let_def)
    qed
  qed
qed

lemma create_quiet: "quiet st \<Longrightarrow> keeps_quiet (thread_create ks p f a st)"
proof -
  assume q: "quiet st"
  have "keeps_quiet (case thread_alloc s of (None, st) \<Rightarrow> Some (set_errno ENOMEM st, Ret (-1) No_out)
      | (Some newth, st) \<Rightarrow> (let st = (if stack_pool_empty st \<and> deferred_stacks st \<noteq> [] then reclaim_deferred_stacks_all st else st)
          in create_loop ks newth func a 0 st))"
    if "quiet s" for s func
    using that by (cases "thread_alloc s"; cases "fst (thread_alloc s)")
      (auto simp: keeps_quiet_def [of "Some _"] Let_def intro!: create_loop_quiet dest!: shielded_thread_alloc [of _ _ _ False])
  then show ?thesis using q first_create_quiet [OF q]
    by (cases f; cases "first_create st") (auto simp: thread_create_def keeps_quiet_def [of "Some _"] keeps_quiet_def [of None])
qed

section \<open>Exit and join\<close>

lemma zombie_add_masked [mask_intros]: "masked st \<Longrightarrow> keeps_masked (thread_zombie_add t st)"
  unfolding thread_zombie_add_def zombie_init_def Let_def by (intro mask_intros) simp

lemma zombie_remove_masked [mask_intros]: "masked st \<Longrightarrow> keeps_masked (thread_zombie_remove t st)"
  unfolding thread_zombie_remove_def by (intro mask_intros) simp_all

lemma free_thread_masked [mask_intros]: "masked st \<Longrightarrow> keeps_masked (free_thread t st)"
  by (auto simp: keeps_masked_def free_thread_def c_free_def split: if_splits)

lemma shielded_munmap [simp]: "shielded b (sys_munmap m st) = shielded b st"
  by (simp add: sys_munmap_def)

lemma release_masked [mask_intros]: "masked st \<Longrightarrow> keeps_masked (thread_obj_release t st)"
  using shielded_release [of t st _ True] by (auto simp: keeps_masked_def)

lemma free_zombies_masked: "masked st \<Longrightarrow> keeps_masked (free_zombies_from t st)"
proof -
  have "masked st \<longrightarrow> masked st'" if "free_zombies_from t st = Some st'" for st'
  proof (rule free_zombies_from.raw_induct [OF _ that, where P = "\<lambda>t st st'. masked st \<longrightarrow> masked st'"])
    fix f :: "tid option \<Rightarrow> sys \<Rightarrow> sys option" and t st st'
    assume ih: "\<And>t st st'. f t st = Some st' \<Longrightarrow> masked st \<longrightarrow> masked st'"
      and e: "(case t of None \<Rightarrow> Some st
        | Some t \<Rightarrow> let nxt = tailq_next ZombieQ t st in do {
            st \<leftarrow> tailq_remove ZombieQ t st;
            let st = (case stack_map (thr st t) of None \<Rightarrow> st | Some m \<Rightarrow> sys_munmap m st);
            st \<leftarrow> free_thread t st;
            f nxt st }) = Some st'"
    have f: "masked st \<Longrightarrow> keeps_masked (f t st)" for t st using ih by (auto simp: keeps_masked_def)
    have "keeps_masked (Some st')" if "masked st"
      unfolding e [symmetric] Let_def by (intro mask_intros f) (use that in \<open>simp_all split: option.splits\<close>)
    then show "masked st \<longrightarrow> masked st'" by (simp add: keeps_masked_def)
  qed
  then show "masked st \<Longrightarrow> keeps_masked (free_zombies_from t st)" by (simp add: keeps_masked_def)
qed

lemma cleanup_masked [mask_intros]: "masked st \<Longrightarrow> keeps_masked (do_final_cleanup st)"
proof -
  have r: "shielded b (release_stacks es s) = shielded b s" for b es and s :: sys
    by (induction es arbitrary: s) (simp_all add: valgrind_deregister_def)
  show "masked st \<Longrightarrow> keeps_masked (do_final_cleanup st)"
    unfolding do_final_cleanup_def free_zombies_def
    by (intro mask_intros free_zombies_masked) (simp_all add: stack_pool_free_all_def r)
qed

lemma shielded_defer [simp]: "shielded b (defer_stack_reclaim t st) = shielded b st"
  by (simp add: defer_stack_reclaim_def split: option.splits)

lemma exit_parts_masked [mask_intros]:
  "masked st \<Longrightarrow> keeps_masked (exit_bury t st)" "masked st \<Longrightarrow> keeps_masked (exit_wake t st)" "masked st \<Longrightarrow> keeps_quiet (exit_switch st)"
  unfolding exit_bury_def exit_wake_def exit_switch_def thread_switch_to_cleanup_def Let_def
  by (intro mask_intros; simp_all)+

lemma exit_quiet: "quiet st \<Longrightarrow> keeps_quiet (thread_exit rv st)"
  unfolding thread_exit_def Let_def by (intro mask_intros) (simp_all add: masked_block)

lemma reap_masked [mask_intros]: "masked st \<Longrightarrow> keeps_masked (reap t st)"
  unfolding reap_def Let_def by (intro mask_intros) (simp_all split: option.splits)

lemma join_finish_quiet: "quiet st \<Longrightarrow> keeps_quiet (join_finish t w st)"
  unfolding join_finish_def Let_def by (intro mask_intros) (simp_all add: masked_block masked_quiet)

lemma join_resume_quiet: "quiet st \<Longrightarrow> keeps_quiet (join_resume t w st)"
  unfolding join_resume_def by (intro join_finish_quiet) simp

lemma shielded_register [simp]: "shielded b (join_register c t r e st) = shielded b st"
  by (simp add: join_register_def Let_def)

lemma join_block_quiet: "masked st \<Longrightarrow> keeps_quiet (join_block ks t w st)"
  unfolding join_block_def Let_def by (intro mask_intros) (simp_all add: masked_quiet)

lemma join_quiet:
  assumes "quiet st" shows "keeps_quiet (thread_join ks t w st)"
proof -
  have sl: "keeps_quiet (case (x, y) of (Some tref, Some cref) \<Rightarrow> f tref cref | _ \<Rightarrow> Some (set_errno EINVAL (unblock (block st)), Ret (-1) No_out))"
    if "\<And>tref cref. keeps_quiet (f tref cref)" for x y :: "cell option" and f
    using that assms masked_quiet [OF masked_block [OF assms]] by (auto simp: keeps_quiet_def [of "Some _"] split: option.splits)
  show ?thesis unfolding thread_join_def Let_def
    by (intro mask_intros join_finish_quiet join_block_quiet sl) (use assms in \<open>simp_all add: masked_block masked_quiet\<close>)
qed

section \<open>Steps\<close>

lemma keeps_objects: "keeps_quiet res \<Longrightarrow> keeps_quiet (on_objects qs st res)"
  by (simp add: on_objects_def keeps_None)

lemma exec_call_quiet: "quiet st \<Longrightarrow> keeps_quiet (exec_call c st)"
proof (cases c)
  case C_process_exit
  then show "quiet st \<Longrightarrow> keeps_quiet (exec_call c st)" by (simp add: keeps_quiet_def)
qed (simp_all add: create_quiet exit_quiet join_quiet yield_quiet yield_to_quiet set_priority_quiet mutex_quiet sem_quiet cond_quiet
    cond_wait_quiet cond_broadcast_quiet signal_quiet keeps_objects)

lemma tick_quiet: "quiet st \<Longrightarrow> keeps_quiet (deliver_sigvtalrm st)"
  unfolding deliver_sigvtalrm_def preemption_handler_def Let_def
  by (intro keeps_if keeps_Ret keeps_call yield_quiet) (auto simp: keeps_quiet_def split: outcome.splits)

lemma fault_quiet: "quiet st \<Longrightarrow> keeps_quiet (deliver_sigsegv a st)"
proof -
  assume q: "quiet st"
  have k: "keeps_quiet (Some (s, Killed))" if "quiet s" for s using that by (simp add: keeps_quiet_def)
  show ?thesis unfolding deliver_sigsegv_def sigsegv_handler_def Let_def
    by (intro keeps_if k exit_quiet) (use q in simp_all)
qed

lemma unwind_quiet: "quiet st \<Longrightarrow> keeps_quiet (unwind ks i v st)"
proof (induction ks arbitrary: i v st)
  case (Cons k ks)
  have n: "keeps_quiet None" by (simp add: keeps_quiet_def)
  show ?case
  proof (cases k)
    case (F_create newth func funcarg n)
    show ?thesis unfolding F_create unwind.simps
      by (rule keeps_call [OF create_loop_quiet [OF Cons.prems]]) (auto simp: Cons.IH split: outcome.splits)
  qed (use Cons n in simp_all)
qed (simp add: keeps_quiet_def)

lemma then_unwind_quiet: "keeps_quiet res \<Longrightarrow> keeps_quiet (then_unwind ks res)"
  unfolding then_unwind_def by (rule keeps_call) (auto simp: unwind_quiet split: outcome.splits)

lemma resume_quiet: "masked st \<Longrightarrow> keeps_quiet (resume ks st)"
proof (induction ks st rule: resume.induct)
  case (1 ks st)
  then show ?case by (simp add: keeps_quiet_def thread_entry_def masked_quiet)
qed (simp_all add: keeps_quiet_def [of None] masked_quiet unwind_quiet then_unwind_quiet join_resume_quiet cond_quiet signal_quiet)

definition mode_quiet :: "sys \<times> mode \<Rightarrow> bool" where
  "mode_quiet s \<longleftrightarrow> (case s of (st, User) \<Rightarrow> quiet st | (st, Switching) \<Rightarrow> masked st | _ \<Rightarrow> True)"

lemma keeps_mode: "keeps_quiet res \<Longrightarrow> res = Some (st, r) \<Longrightarrow> mode_quiet (st, mode_of r)"
  by (cases r) (simp_all add: keeps_quiet_def mode_quiet_def)

lemma step_quiet:
  assumes "mode_quiet s" "sys_step ok s s'" shows "mode_quiet s'"
  using assms(2,1)
proof cases
  case (call st c st' r)
  then show ?thesis using assms(1) keeps_mode [OF exec_call_quiet] by (auto simp: mode_quiet_def [of "(st, User)"])
next
  case (tick st st' r)
  then show ?thesis using assms(1) keeps_mode [OF tick_quiet] by (auto simp: mode_quiet_def [of "(st, User)"])
next
  case (fault a st st' r)
  then show ?thesis using assms(1) keeps_mode [OF fault_quiet] by (auto simp: mode_quiet_def [of "(st, User)"])
next
  case (switch st st' r)
  then show ?thesis using assms(1) keeps_mode [OF resume_quiet] by (auto simp: mode_quiet_def [of "(st, Switching)"] resume_current_def)
qed (simp add: mode_quiet_def)

lemma reachable_quiet:
  assumes "reachable ok (initial_sys env mem) s" "sched_policy env = THREAD_SCHED_FIFO"
  shows "mode_quiet s"
  using assms(1)
proof induction
  case start
  then show ?case using assms(2) by (simp add: mode_quiet_def shielded_def initial_sys_def)
qed (blast intro: step_quiet)

end
