(* ===== verification/Retention.thy ===== *)
theory Retention
  imports Reachability
begin

text \<open>
  What one thread may rely on while others run.  Once a thread has terminated, its return value and the
  mark of a stack overflow stay as they are until its structure is released; a thread that has not
  terminated never carries the mark; and a suspended thread keeps its saved context and its pending
  signals until it is switched to.
\<close>

section \<open>What a step may do to the fate of a thread\<close>

definition settled :: "sys \<Rightarrow> sys \<Rightarrow> bool" where
  "settled st st' \<longleftrightarrow> (\<forall>t \<in> live st'.
     if t \<in> live st \<and> th_state (thr st t) = THREAD_TERMINATED
     then th_state (thr st' t) = THREAD_TERMINATED \<and> retval (thr st' t) = retval (thr st t) \<and>
       stack_overflow (thr st' t) = stack_overflow (thr st t)
     else stack_overflow (thr st' t) \<longrightarrow>
       th_state (thr st' t) = THREAD_TERMINATED \<or> t \<in> live st \<and> stack_overflow (thr st t))"

text \<open>A suspended thread keeps its saved context; signals may be added to its pending ones, but
  none is taken away.\<close>

definition kept :: "thread \<Rightarrow> thread \<Rightarrow> bool" where
  [simp]: "kept x y \<longleftrightarrow> saved_ctx y = saved_ctx x \<and> blocked_signals y = blocked_signals x \<and>
     (\<forall>n. bit (pending_signals x) n \<longrightarrow> bit (pending_signals y) n)"

definition undisturbed :: "sys \<Rightarrow> sys \<Rightarrow> bool" where
  "undisturbed st st' \<longleftrightarrow> (\<forall>t \<in> active st - {current_thread st}. t \<in> active st' \<and> kept (thr st t) (thr st' t))"

definition honours :: "sys \<Rightarrow> sys \<Rightarrow> bool" where
  "honours st st' \<longleftrightarrow> settled st st' \<and> undisturbed st st'"

definition honoured :: "sys \<Rightarrow> result \<Rightarrow> bool" where
  "honoured st res \<longleftrightarrow> (\<forall>st' r. res = Some (st', r) \<and> mode_of r \<in> {User, Switching} \<longrightarrow> honours st st')"

lemma honoursI:
  assumes "live st' \<subseteq> live st" "\<And>t. t \<in> live st' \<Longrightarrow> stack_overflow (thr st' t) = stack_overflow (thr st t)"
    and "\<And>t. t \<in> live st' \<Longrightarrow> th_state (thr st t) = THREAD_TERMINATED \<Longrightarrow>
      th_state (thr st' t) = THREAD_TERMINATED \<and> retval (thr st' t) = retval (thr st t)"
    and "\<And>t. t \<in> live st \<Longrightarrow> t \<noteq> current_thread st \<Longrightarrow> th_state (thr st t) \<noteq> THREAD_TERMINATED \<Longrightarrow>
      t \<in> live st' \<and> th_state (thr st' t) \<noteq> THREAD_TERMINATED \<and> kept (thr st t) (thr st' t)"
  shows "honours st st'"
  using assms by (auto simp: honours_def settled_def undisturbed_def active_def)

lemma honours_same: "thr st' = thr st \<Longrightarrow> live st' = live st \<Longrightarrow> honours st st'"
  by (rule honoursI) simp_all

lemma honours_refl [simp]: "honours st st"
  by (rule honours_same) simp_all

lemma honours_mask [simp]:
  "honours (block st) st' = honours st st'" "honours (unblock st) st' = honours st st'"
  "honours st (block st') = honours st st'" "honours st (unblock st') = honours st st'"
  "honours st (st'\<lparr>errno := e\<rparr>) = honours st st'" "honours (st\<lparr>sigmask := m\<rparr>) st' = honours st st'"
  "honours st (st'\<lparr>sigmask := m\<rparr>) = honours st st'" "honours (st\<lparr>errno := e\<rparr>) st' = honours st st'"
  by (simp_all add: honours_def settled_def undisturbed_def active_def)

lemma settled_trans:
  assumes "settled a b" "settled b c" "live b = live a"
  shows "settled a c"
  unfolding settled_def
proof
  fix t assume c: "t \<in> live c"
  show "if t \<in> live a \<and> th_state (thr a t) = THREAD_TERMINATED
     then th_state (thr c t) = THREAD_TERMINATED \<and> retval (thr c t) = retval (thr a t) \<and>
       stack_overflow (thr c t) = stack_overflow (thr a t)
     else stack_overflow (thr c t) \<longrightarrow>
       th_state (thr c t) = THREAD_TERMINATED \<or> t \<in> live a \<and> stack_overflow (thr a t)"
    using c bspec [OF assms(1) [unfolded settled_def], of t] bspec [OF assms(2) [unfolded settled_def], of t] assms(3)
    by (cases "t \<in> live a"; cases "th_state (thr a t) = THREAD_TERMINATED"; cases "th_state (thr b t) = THREAD_TERMINATED") auto
qed

lemma honours_trans:
  assumes "honours a b" "honours b c" "live b = live a" "current_thread b = current_thread a"
  shows "honours a c"
  using assms settled_trans [of a b c] by (auto simp: honours_def undisturbed_def)

text \<open>Inside a call, before control is given away or a structure is released.\<close>

definition within :: "sys \<Rightarrow> sys \<Rightarrow> bool" where
  "within st s \<longleftrightarrow> honours st s \<and> live s = live st \<and> current_thread s = current_thread st"

lemma within_trans: "within a b \<Longrightarrow> honours b c \<Longrightarrow> honours a c"
  using honours_trans by (auto simp: within_def)

lemma honours_calm:
  assumes "sched_inv st" "calm st st'"
  shows "honours st st'"
proof (rule honoursI)
  have r: "rest st' = rest st" using assms(2) by (simp add: calm_def)
  show "live st' \<subseteq> live st" using calm_fields(1) [OF assms(2)] by simp
  show "stack_overflow (thr st' t) = stack_overflow (thr st t)" for t using priv_sel(8) [OF rest_thr [OF r]] .
  show "th_state (thr st' t) = THREAD_TERMINATED \<and> retval (thr st' t) = retval (thr st t)"
    if "t \<in> live st'" "th_state (thr st t) = THREAD_TERMINATED" for t
    using that calm_dead [OF assms, of t] calm_fields(1) [OF assms(2)] priv_sel(1) [OF rest_thr [OF r, of t]] by simp
qed (use calm_fields(1,10) [OF assms(2)] calm_dead [OF assms] priv_sel(9,10) [OF rest_thr [of st' st]] assms(2) in \<open>auto simp: calm_def\<close>)

lemma honoured_calm:
  assumes "sched_inv st" "\<And>st' r. res = Some (st', r) \<Longrightarrow> calm_call F ks st st' r"
  shows "honoured st res"
  using assms honours_calm by (auto simp: honoured_def calm_call_def)

lemma honoured_Some: "honours st st' \<Longrightarrow> honoured st (Some (st', r))"
  by (simp add: honoured_def)

lemma honoured_from_mask [simp]: "honoured (block st) res = honoured st res" "honoured (unblock st) res = honoured st res"
  by (simp_all add: honoured_def)

section \<open>Synchronisation calls and signals\<close>

lemma sync_honoured:
  assumes i: "sched_inv st"
  shows "honoured st (thread_yield ks st)" "honoured st (thread_yield_to ks t st)"
    "set_option t \<subseteq> live st \<Longrightarrow> honoured st (thread_set_priority ks t p st)"
    "honoured st (thread_mutex_lock ks m st)" "honoured st (thread_mutex_unlock m st)"
    "honoured st (thread_sem_wait ks s st)" "honoured st (thread_sem_post s st)"
    "honoured st (thread_cond_wait ks c m st)" "honoured st (cond_relock j ks x st)"
    "honoured st (thread_cond_signal c st)" "honoured st (thread_cond_broadcast c st)"
proof -
  note h = honoured_calm [OF i]
  show "honoured st (thread_yield ks st)" by (rule h) (rule yield_calm [OF i])
  show "honoured st (thread_yield_to ks t st)" by (rule h) (rule yield_to_calm [OF i])
  show "honoured st (thread_set_priority ks t p st)" if "set_option t \<subseteq> live st"
    by (rule h) (rule set_priority_calm [OF i], use that in auto)
  show "honoured st (thread_mutex_lock ks m st)" by (rule h) (rule mutex_lock_calm [OF i])
  show "honoured st (thread_mutex_unlock m st)" by (rule h) (rule mutex_unlock_calm)
  show "honoured st (thread_sem_wait ks s st)" by (rule h) (rule sem_wait_calm [OF i])
  show "honoured st (thread_sem_post s st)" by (rule h) (rule sem_post_calm)
  show "honoured st (thread_cond_wait ks c m st)" by (rule h) (rule cond_wait_calm [OF i])
  show "honoured st (cond_relock j ks x st)" by (rule h) (rule cond_relock_calm [OF i])
  show "honoured st (thread_cond_signal c st)" by (rule h) (rule cond_signal_calm)
  show "honoured st (thread_cond_broadcast c st)" by (rule h) (rule cond_broadcast_calm)
qed

lemma object_honoured:
  "honoured st (thread_mutex_init m st)" "honoured st (thread_mutex_destroy m st)"
  "honoured st (thread_sem_init s n st)" "honoured st (thread_sem_destroy s st)"
  "honoured st (thread_cond_init c st)" "honoured st (thread_cond_destroy c st)"
  by (auto simp: thread_mutex_init_def thread_mutex_destroy_def thread_sem_init_def thread_sem_destroy_def
      thread_cond_init_def thread_cond_destroy_def tailq_init_def Let_def intro!: honoured_Some honours_same split: option.split)

lemma sigwait_step_honoured:
  assumes i: "sched_inv st"
  shows "honoured st (sigwait_step ks sigs st)"
proof -
  let ?c = "current_thread st"
  have run: "th_state (thr st ?c) = THREAD_RUNNING" using sched_inv_current(1) [OF i] .
  let ?a = "and (and (pending_signals (thr st ?c)) sigs) (not (blocked_signals (thr st ?c)))"
  consider (take) "?a \<noteq> 0" | (none) "?a = 0" "ready_queue st = []" | (wait) n ns where "?a = 0" "ready_queue st = n # ns"
    by (cases "ready_queue st") auto
  then show ?thesis
  proof cases
    case take
    show ?thesis using run by (auto simp: sigwait_takes [OF take] upd_thread_def intro!: honoured_Some honoursI split: if_splits)
  next
    case none
    show ?thesis using run by (auto simp: sigwait_deadlock [OF none] upd_thread_def intro!: honoured_Some honoursI split: if_splits)
  next
    case wait
    from sigwait_blocks [OF i wait(2,1), of ks] obtain st' where st': "sigwait_step ks sigs st = Some (st', Switched)" "live st' = live st"
      "\<forall>t. t \<noteq> ?c \<longrightarrow> t \<noteq> n \<longrightarrow> thr st' t = thr st t"
      "thr st' ?c = (thr st ?c)\<lparr>saved_ctx := F_sigwait sigs # ks, th_state := THREAD_BLOCKED, waited_signals := sigs, waiting_for_signal := True\<rparr>"
      "thr st' n = (thr st n)\<lparr>entries := None, th_state := THREAD_RUNNING, in_ready_queue := False\<rparr>" by blast
    have n: "th_state (thr st n) = THREAD_READY" using ready_state(1) [OF i, of n] wait(2) by simp
    have "honours st st'"
    proof (rule honoursI)
      fix t
      show "stack_overflow (thr st' t) = stack_overflow (thr st t)" using st'(3-5) by (cases "t = ?c"; cases "t = n") simp_all
      show "th_state (thr st' t) = THREAD_TERMINATED \<and> retval (thr st' t) = retval (thr st t)" if "th_state (thr st t) = THREAD_TERMINATED"
        using that st'(3) run n by (cases "t = ?c"; cases "t = n") simp_all
      show "t \<in> live st' \<and> th_state (thr st' t) \<noteq> THREAD_TERMINATED \<and> kept (thr st t) (thr st' t)"
        if "t \<in> live st" "t \<noteq> ?c" "th_state (thr st t) \<noteq> THREAD_TERMINATED"
        using that st'(2,3,5) by (cases "t = n") simp_all
    qed (simp add: st'(2))
    then show ?thesis by (simp add: st'(1) honoured_Some)
  qed
qed

lemma enqueue_fate:
  assumes "thread_scheduler_enqueue x s = Some s'"
  shows "stack_overflow (thr s' u) = stack_overflow (thr s u)" "retval (thr s' u) = retval (thr s u)"
    "th_state (thr s' u) = th_state (thr s u)" "live s' = live s" "saved_ctx (thr s' u) = saved_ctx (thr s u)"
    "pending_signals (thr s' u) = pending_signals (thr s u)" "blocked_signals (thr s' u) = blocked_signals (thr s u)"
proof -
  have "thread_scheduler_enqueue x s = Some s' \<Longrightarrow> stack_overflow (thr s' u) = stack_overflow (thr s u) \<and> retval (thr s' u) = retval (thr s u) \<and>
    th_state (thr s' u) = th_state (thr s u) \<and> live s' = live s \<and> saved_ctx (thr s' u) = saved_ctx (thr s u) \<and>
    pending_signals (thr s' u) = pending_signals (thr s u) \<and> blocked_signals (thr s' u) = blocked_signals (thr s u)"
    by (auto simp: thread_scheduler_enqueue_def tailq_insert_tail_def tailq_insert_before_def tailq_link_Some upd_thread_def
        split: if_splits policy.splits option.splits)
  with assms show "stack_overflow (thr s' u) = stack_overflow (thr s u)" "retval (thr s' u) = retval (thr s u)"
    "th_state (thr s' u) = th_state (thr s u)" "live s' = live s" "saved_ctx (thr s' u) = saved_ctx (thr s u)"
    "pending_signals (thr s' u) = pending_signals (thr s u)" "blocked_signals (thr s' u) = blocked_signals (thr s u)" by simp_all
qed

lemma signal_honoured:
  assumes i: "sched_inv st"
  shows "honoured st (thread_sigwait ks sigs p st)" "honoured st (thread_signal_send t sig st)"
proof -
  show "honoured st (thread_sigwait ks sigs p st)"
    using sigwait_step_honoured [of "block st" ks sigs] i by (auto simp: thread_sigwait_def honoured_def)
  show "honoured st (thread_signal_send t sig st)"
  proof (cases "\<exists>x. t = Some x \<and> 1 \<le> sig \<and> sig \<le> 32")
    case False
    then have "thread_signal_send t sig st = Some (set_errno EINVAL st, Ret (-1) No_out)"
      using send_invalid [of sig t st] by (cases t) (auto simp: thread_signal_send_def)
    then show ?thesis by (simp add: honoured_Some)
  next
    case True
    then obtain x where x: "t = Some x" "1 \<le> sig" "sig \<le> 32" by blast
    let ?g = "\<lambda>x. x\<lparr>waiting_for_signal := False, waited_signals := 0, th_state := THREAD_READY\<rparr>"
    show ?thesis
    proof (cases "th_state (thr st x) = THREAD_BLOCKED \<and> waiting_for_signal (thr st x) \<and> and (waited_signals (thr st x)) (thread_signal_bit sig) \<noteq> 0")
      case False
      show ?thesis unfolding x(1) send_pending_only [OF x(2,3) False]
        by (auto simp: upd_thread_def bit_or_iff intro!: honoured_Some honoursI split: if_splits)
    next
      case w: True
      have "honours st st'" if "thread_signal_send t sig st = Some (st', r)" for st' r
      proof -
        from that w x obtain s' where s': "thread_scheduler_enqueue x (upd_thread x ?g (add_pending sig x (block st))) = Some s'" "st' = unblock s'"
          by (auto simp: thread_signal_send_def Let_def upd_thread_def THREAD_SIGNAL_MIN_def THREAD_SIGNAL_MAX_def)
        note f = enqueue_fate [OF s'(1)]
        show ?thesis unfolding s'(2) honours_mask
          by (rule honoursI) (use f w in \<open>auto simp: upd_thread_def bit_or_iff split: if_splits\<close>)
      qed
      then show ?thesis by (simp add: honoured_def)
    qed
  qed
qed

section \<open>Exit and join\<close>

text \<open>The exiting thread settles its fate.  Before it exits, the fault handler may have set the mark
  in the state \<open>s\<close>.\<close>

lemma exit_honoured:
  assumes i: "sched_inv st" "gc_ok st" "join_inv st" and s: "live s = live st" "\<And>t. t \<noteq> current_thread st \<Longrightarrow> thr s t = thr st t"
    "th_state (thr s (current_thread st)) = THREAD_RUNNING" "current_thread s = current_thread st"
    and i': "sched_inv s" "gc_ok s" "join_inv s"
  shows "honoured st (thread_exit rv s)"
proof (cases "exit_ready s")
  case Nil
  from exit_stages [OF i', of rv] obtain u where u: "thread_exit rv s = exit_switch u" "ready_queue u = []" using Nil by auto
  then have "thread_scheduler_pick_next u = Some (None, u)" by (simp add: pick_next_empty)
  then show ?thesis using u(1) by (auto simp: honoured_def exit_switch_def thread_switch_to_cleanup_def)
next
  case (Cons n ns)
  let ?c = "current_thread st"
  from exit_fields [OF i' Cons, of rv] obtain st' where st': "thread_exit rv s = Some (st', Switched)" "live st' = live s"
    "n \<noteq> ?c" "n \<in> live s" and v: "\<And>x. exit_view rv n s (thr st' x) x" using s(4) by auto
  have run: "th_state (thr st ?c) = THREAD_RUNNING" using sched_inv_current(1) [OF i(1)] .
  have n: "th_state (thr s n) \<noteq> THREAD_TERMINATED"
  proof -
    have "n \<in> set (exit_ready s)" using Cons by simp
    then consider "n \<in> set (ready_queue s)" | "joined_by (thr s ?c) = Some n" using s(4) by (auto simp: exit_ready_def split: option.splits)
    then show ?thesis
    proof cases
      case 1
      then show ?thesis using ready_state(1) [OF i'(1)] by simp
    next
      case 2
      have "?c \<in> live s" using i'(1) s(4) by (auto simp: sched_inv_def)
      from join_inv_link [OF i'(3) this 2] s(3) show ?thesis by (simp add: join_link_def)
    qed
  qed
  have j: "th_state (thr s j) \<noteq> THREAD_TERMINATED" if "joined_by (thr s ?c) = Some j" for j
  proof -
    have "?c \<in> live s" using i'(1) s(4) by (auto simp: sched_inv_def)
    from join_inv_link [OF i'(3) this that] s(3) show ?thesis by (simp add: join_link_def)
  qed
  have "settled st st'" unfolding settled_def
  proof
    fix t assume "t \<in> live st'"
    then have tl: "t \<in> live st" using st'(2) s(1) by simp
    show "if t \<in> live st \<and> th_state (thr st t) = THREAD_TERMINATED
       then th_state (thr st' t) = THREAD_TERMINATED \<and> retval (thr st' t) = retval (thr st t) \<and>
         stack_overflow (thr st' t) = stack_overflow (thr st t)
       else stack_overflow (thr st' t) \<longrightarrow>
         th_state (thr st' t) = THREAD_TERMINATED \<or> t \<in> live st \<and> stack_overflow (thr st t)"
    proof (cases "t = ?c")
      case True
      then show ?thesis using v [of t] run s(4) by (simp add: exit_view_def)
    next
      case False
      then show ?thesis using v [of t] s(2) [OF False] s(4) n j [of t] tl by (auto simp: exit_view_def)
    qed
  qed
  moreover have "undisturbed st st'" unfolding undisturbed_def
  proof
    fix t assume "t \<in> active st - {?c}"
    then show "t \<in> active st' \<and> kept (thr st t) (thr st' t)"
      using v [of t] s(1,4) s(2) [of t] st'(2) by (auto simp: exit_view_def active_def)
  qed
  ultimately have "honours st st'" by (simp add: honours_def)
  then show ?thesis using st'(1) by (simp add: honoured_Some)
qed

lemma reap_honours:
  assumes "reap t s = Some s'" and dead: "th_state (thr s t) = THREAD_TERMINATED"
  shows "honours s s'"
proof (cases "t = main_thread")
  case False
  have zr: "live u = live s \<and> (\<forall>x. x \<noteq> t \<longrightarrow> thr u x = thr s x)" if "thread_zombie_remove t s = Some u" for u
    using that by (auto simp: thread_zombie_remove_def tailq_remove_Some upd_thread_def split: if_splits)
  from assms False obtain u where u: "thread_zombie_remove t s = Some u"
    "thread_free t (upd_thread t (\<lambda>x. x\<lparr>head_joiner := None\<rparr>) (give_back_stack t u)) = Some s'" by (auto simp: reap_eq)
  have "live s' = live s - {t} \<and> (\<forall>x. x \<noteq> t \<longrightarrow> thr s' x = thr s x)"
    using u(2) zr [OF u(1)] by (auto simp: thread_free_def free_thread_def c_free_def upd_thread_def split: if_splits)
  then show ?thesis using dead by (auto intro!: honoursI)
qed (use assms in simp)

lemma join_finish_honoured:
  assumes "within st s" "th_state (thr s t) = THREAD_TERMINATED" shows "honoured st (join_finish t want s)"
proof -
  have "honours st s'" if "reap t (block (unblock s)) = Some s'" for s'
    using within_trans [OF assms(1)] reap_honours [OF that] assms(2) by simp
  then show ?thesis by (auto simp: join_finish_def Let_def honoured_def split: if_splits)
qed

lemma join_resume_honoured:
  assumes sw: "switch_inv st" and k: "saved_ctx (thr st (current_thread st)) = [F_join t want]"
  shows "honoured st (join_resume t want st)"
  unfolding join_resume_def
proof (rule join_finish_honoured)
  let ?u = "upd_thread (current_thread st) (\<lambda>x. x\<lparr>waiting_for := None, th_state := THREAD_RUNNING\<rparr>) st"
  have "honours st ?u" using sched_inv_current(1) [OF switch_invD(2) [OF sw]] by (intro honoursI) (auto simp: upd_thread_def)
  then show "within st ?u" by (simp add: within_def) (simp add: upd_thread_def)
  show "th_state (thr ?u t) = THREAD_TERMINATED" using join_resumed(2,4) [OF sw k] by (simp add: upd_thread_def)
qed

lemma join_block_honoured:
  assumes i: "sched_inv s" and s: "within st s"
  shows "honoured st (join_block ks t want s)"
proof (cases "ready_queue s")
  case Nil
  have "honours s (upd_thread (current_thread s) (\<lambda>x. x\<lparr>th_state := THREAD_RUNNING, waiting_for := None\<rparr>) s)"
    using sched_inv_current(1) [OF i] by (intro honoursI) (auto simp: upd_thread_def)
  from within_trans [OF s this] show ?thesis unfolding join_block_empty [OF Nil] by (simp add: honoured_Some)
next
  case (Cons n ns)
  from join_block_switch [OF i Cons, of ks t want] obtain st' where st': "join_block ks t want s = Some (st', Switched)" "live st' = live s"
    "\<forall>u. u \<noteq> current_thread s \<longrightarrow> u \<noteq> n \<longrightarrow> thr st' u = thr s u"
    "thr st' (current_thread s) = (thr s (current_thread s))\<lparr>saved_ctx := F_join t want # ks, waiting_for := Some t, th_state := THREAD_BLOCKED\<rparr>"
    "thr st' n = (thr s n)\<lparr>entries := None, th_state := THREAD_RUNNING, in_ready_queue := False\<rparr>" by blast
  have n: "th_state (thr s n) = THREAD_READY" using ready_state(1) [OF i, of n] Cons by simp
  have "honours s st'"
  proof (rule honoursI)
    fix u
    show "stack_overflow (thr st' u) = stack_overflow (thr s u)" using st'(3-5) by (cases "u = current_thread s"; cases "u = n") simp_all
    show "th_state (thr st' u) = THREAD_TERMINATED \<and> retval (thr st' u) = retval (thr s u)" if "th_state (thr s u) = THREAD_TERMINATED"
      using that st'(3) n sched_inv_current(1) [OF i] by (cases "u = current_thread s"; cases "u = n") simp_all
    show "u \<in> live st' \<and> th_state (thr st' u) \<noteq> THREAD_TERMINATED \<and> kept (thr s u) (thr st' u)"
      if "u \<in> live s" "u \<noteq> current_thread s" "th_state (thr s u) \<noteq> THREAD_TERMINATED"
      using that st'(2,3,5) by (cases "u = n") simp_all
  qed (simp add: st'(2))
  from within_trans [OF s this] show ?thesis by (simp add: st'(1) honoured_Some)
qed

lemma join_honoured:
  assumes i: "sched_inv st"
  shows "honoured st (thread_join ks t want st)"
proof -
  have "honours st (join_register c x r e (block st))" for c x r e
    by (auto simp: join_register_def Let_def upd_thread_def intro!: honoursI split: if_splits)
  then have reg: "within st (join_register c x r e (block st))" for c x r e
    by (simp add: within_def)
  have "honoured st (join_block ks x want (join_register c x r e (block st)))" for c x r e
    by (rule join_block_honoured [OF _ reg]) (simp add: i)
  moreover have "honours st s'" if "reap x (block st) = Some s'" "th_state (thr st x) = THREAD_TERMINATED" for x s'
    using reap_honours [OF that(1)] that(2) by simp
  moreover have "th_state (thr (join_register c x r e (block st)) y) = th_state (thr st y)" for c x r e y
    by (simp add: join_register_thr Let_def)
  ultimately show ?thesis
    by (auto simp: thread_join_def Let_def honoured_def split: option.splits if_splits)
qed

section \<open>Creation\<close>

text \<open>The part of the state that allocation leaves alone.\<close>

definition core :: "sys \<Rightarrow> _" where
  "core st = (thr st, live st, queues st, current_thread st, m_locked st, initialised st)"

lemma core_upd [simp]:
  "core (st\<lparr>malloc_calls := k\<rparr>) = core st" "core (st\<lparr>allocated := A\<rparr>) = core st" "core (st\<lparr>head_ref_chunks_ptr := p\<rparr>) = core st"
  "core (st\<lparr>head_ref_chunks := c\<rparr>) = core st" "core (st\<lparr>head_ref_chunks_cap := n\<rparr>) = core st"
  "core (st\<lparr>head_ref_active_chunk := a\<rparr>) = core st" "core (st\<lparr>head_ref_active_index := i\<rparr>) = core st"
  "core (st\<lparr>head_cells := hc\<rparr>) = core st" "core (st\<lparr>thread_pool := tp\<rparr>) = core st" "core (st\<lparr>errno := er\<rparr>) = core st"
  "core (st\<lparr>atexit_handlers := h\<rparr>) = core st" "core (st\<lparr>cleanup_registered := r\<rparr>) = core st"
  "core (st\<lparr>scheduler_initialized := x\<rparr>) = core st" "core (block st) = core st" "core (unblock st) = core st"
  by (simp_all add: core_def state_eqs)

lemma core_alloc:
  "c_malloc st = (r, st') \<Longrightarrow> core st' = core st" "c_free a st = Some st' \<Longrightarrow> core st' = core st"
  "c_realloc p st = Some (r, st') \<Longrightarrow> core st' = core st" "thread_alloc st = (r, st') \<Longrightarrow> core st' = core st"
proof -
  show m: "c_malloc st = (r, st') \<Longrightarrow> core st' = core st" by (auto simp: c_malloc_def Let_def split: option.splits)
  then show "thread_alloc st = (r, st') \<Longrightarrow> core st' = core st" by (auto simp: thread_alloc_def split: if_splits)
  show "c_free a st = Some st' \<Longrightarrow> core st' = core st" by (auto simp: c_free_def split: if_splits)
  show "c_realloc p st = Some (r, st') \<Longrightarrow> core st' = core st"
    by (auto simp: c_realloc_def Let_def split: if_splits option.splits)
qed

lemma core_pool [simp]:
  "core (stack_pool_push e st) = core st" "core (reclaim_deferred_stacks_all st) = core st"
proof -
  show p: "core (stack_pool_push e st) = core st" for e st
    by (simp add: core_def stack_pool_push_def sys_munmap_def valgrind_deregister_def Let_def)
  show "core (reclaim_deferred_stacks_all st) = core st" by (rule reclaim_frame) (simp_all add: p, simp add: core_def)
qed

lemma core_stack_alloc: "stack_pool_alloc st = (r, st') \<Longrightarrow> core st' = core st"
  using alloc_sel [of st r st'] by (simp add: core_def)

lemma core_grow:
  assumes "head_ref_grow st = Some (r, st')" shows "core st' = core st"
proof (cases "c_malloc st")
  case (Pair c s)
  note s = core_alloc(1) [OF Pair]
  show ?thesis
  proof (cases "c = None \<or> length (head_ref_chunks s) < head_ref_chunks_cap s")
    case True
    then show ?thesis using assms Pair s by (cases c) (auto simp: head_ref_grow_def)
  next
    case False
    with assms Pair obtain p u where u: "c_realloc (head_ref_chunks_ptr s) s = Some (p, u)"
      by (auto simp: head_ref_grow_def Let_def)
    from core_alloc(3) [OF u] show ?thesis using assms Pair s u False
      by (cases p) (auto simp: head_ref_grow_def Let_def core_alloc(2))
  qed
qed

lemma core_slot:
  assumes "thread_head_ref_alloc w st = Some (r, st')" shows "core st' = core st"
  using assms core_grow [of st] by (auto simp: head_ref_alloc_cases take_slot_def Let_def split: option.splits if_splits)

lemma core_init [simp]: "core (fst (init_prem us st)) = core st" "core (init_stack_overflow_detection st) = core st"
  "core (thread_cleanup_register st) = core st"
  by (simp_all add: init_prem_def init_stack_overflow_detection_def preem_mask_init_def thread_cleanup_register_def Let_def)
    (simp_all add: core_def)

lemma core_first:
  assumes "first_create st = Some (ok, st')"
  obtains r s where "core s = core st" "core st' = core (upd_thread main_thread (\<lambda>x. x\<lparr>head_joiner := r\<rparr>) s)" | "core st' = core st"
proof (cases "scheduler_initialized st")
  case True
  then show ?thesis using assms that(2) by (simp add: first_create_def)
next
  case False
  let ?s0 = "(thread_cleanup_register st)\<lparr>atexit_handlers := H_pool_free_all # atexit_handlers (thread_cleanup_register st)\<rparr>"
  from assms False obtain r s where s: "thread_head_ref_alloc main_thread ?s0 = Some (r, s)" by (auto simp: first_create_def Let_def)
  have "core st' = core (upd_thread main_thread (\<lambda>x. x\<lparr>head_joiner := r\<rparr>) s)"
    using assms False s by (auto simp: first_create_def Let_def split: if_splits)
  then show ?thesis using that(1) core_slot [OF s] by simp
qed

lemma core_within: "core st' = core st \<Longrightarrow> within st st'"
  by (auto simp: within_def core_def intro: honours_same)

lemma first_create_within:
  assumes "first_create st = Some (ok, st')"
  shows "within st st'"
proof (rule core_first [OF assms])
  fix r s assume a: "core s = core st" "core st' = core (upd_thread main_thread (\<lambda>x. x\<lparr>head_joiner := r\<rparr>) s)"
  then have e: "thr st' = (thr st)(main_thread := (thr st main_thread)\<lparr>head_joiner := r\<rparr>)" "live st' = live st"
    "current_thread st' = current_thread st" by (simp_all add: core_def upd_thread_def)
  then have "honours st st'" by (intro honoursI) auto
  then show "within st st'" using e by (simp add: within_def)
qed (rule core_within)

lemma release_honours:
  assumes "thread_obj_release t s = Some s'" "t \<notin> live s"
  shows "honours s s'"
proof -
  have "live s' = live s \<and> (\<forall>x \<in> live s. thr s' x = thr s x)"
    using assms by (auto simp: thread_obj_release_def thread_free_def free_thread_def c_free_def upd_thread_def split: if_splits)
  then show ?thesis by (intro honoursI) auto
qed

text \<open>A new thread has no mark; the others are left alone.\<close>

lemma create_with_stack_honoured:
  assumes "t \<notin> live st"
  shows "honoured st (create_with_stack t func a e st)"
proof -
  have "honours st st'" if c: "create_with_stack t func a e st = Some (st', r)" for st' r
  proof -
    let ?s1 = "upd_thread t (init_thread func a e) st"
    from c obtain ref s2 where s2: "thread_head_ref_alloc t ?s1 = Some (ref, s2)" by (auto simp: create_with_stack_def Let_def)
    let ?s3 = "upd_thread t (\<lambda>x. x\<lparr>head_joiner := ref\<rparr>) s2"
    have f: "thr s2 = thr ?s1" "live s2 = live ?s1" "current_thread s2 = current_thread ?s1" using core_slot [OF s2] by (simp_all add: core_def)
    have o: "thr ?s3 x = thr st x" if "x \<in> live st" for x using that f(1) assms by (auto simp: upd_thread_def)
    have l: "live ?s3 = live st" "current_thread ?s3 = current_thread st" using f by (simp_all add: upd_thread_def)
    show ?thesis
    proof (cases "ref = None")
      case True
      then obtain s4 where s4: "thread_obj_release t ?s3 = Some s4" "st' = set_errno ENOMEM (stack_pool_push e s4)"
        using c s2 by (auto simp: create_with_stack_def Let_def)
      have "honours st ?s3" by (rule honoursI) (simp_all add: o l)
      then have "within st ?s3" using l by (simp add: within_def)
      moreover have "honours ?s3 s4" by (rule release_honours [OF s4(1)]) (simp add: l assms)
      ultimately have "honours st s4" by (rule within_trans)
      moreover have "thr st' = thr s4" "live st' = live s4"
        using core_pool(1) [of e s4] by (simp_all add: s4(2) core_def)
      ultimately show ?thesis by (simp add: honours_def settled_def undisturbed_def active_def)
    next
      case False
      let ?g = "\<lambda>s. (upd_thread t (\<lambda>x. x\<lparr>th_id := next_thread_id s\<rparr>) s)\<lparr>next_thread_id := next_thread_id s + 1\<rparr>"
      let ?s4 = "upd_thread t (\<lambda>x. x\<lparr>saved_ctx := [F_entry]\<rparr>) (?s3\<lparr>live := insert t (live ?s3)\<rparr>)"
      from False obtain s5 where s5: "thread_scheduler_enqueue t (?g (block ?s4)) = Some s5" "st' = unblock s5"
        using c s2 by (auto simp: create_with_stack_def Let_def upd_thread_def split: if_splits)
      note q = enqueue_fate [OF s5(1)]
      have "settled st s5" unfolding settled_def using q f assms by (auto simp: upd_thread_def init_thread_def)
      moreover have "undisturbed st s5" unfolding undisturbed_def active_def using q f assms by (auto simp: upd_thread_def)
      ultimately show ?thesis unfolding s5(2) honours_mask by (simp add: honours_def)
    qed
  qed
  then show ?thesis by (simp add: honoured_def)
qed

lemma honoured_from: "within a b \<Longrightarrow> honoured b res \<Longrightarrow> honoured a res"
  using within_trans by (auto simp: honoured_def)

lemma within_chain: "within a b \<Longrightarrow> within b c \<Longrightarrow> within a c"
  using within_trans [of a b c] by (auto simp: within_def)

lemma create_loop_honoured:
  "user_inv {t} st \<Longrightarrow> honoured st (create_loop [] t func a n st)"
proof (induction "4097 - n" arbitrary: n st rule: less_induct)
  case less
  obtain r s1 where al: "stack_pool_alloc st = (r, s1)" by fastforce
  have c1: "core s1 = core st" by (rule core_stack_alloc [OF al])
  show ?case
  proof (cases r)
    case (Some e)
    have "t \<notin> live s1" using c1 creating_fresh(1) [OF less.prems] by (simp add: core_def)
    from honoured_from [OF core_within [OF c1] create_with_stack_honoured [OF this, of func a e]]
    show ?thesis using Some al by (subst create_loop.simps) simp
  next
    case None
    let ?s2 = "reclaim_deferred_stacks_all s1"
    have u: "user_inv {t} ?s2" using reclaim_user alloc_fail_user [OF less.prems] al None by blast
    have w2: "within st ?s2" by (rule core_within) (simp add: c1)
    show ?thesis
    proof (cases "thread_ready_queue_empty ?s2 \<or> n \<ge> 4096")
      case True
      then show ?thesis using al None within_trans [OF w2 release_honours [OF _ creating_fresh(1) [OF u]]]
        by (subst create_loop.simps) (auto simp: honoured_def)
    next
      case False
      let ?ks = "[F_create t func a (n + 1)]"
      have "sound {t} (thread_yield ?ks ?s2)" by (rule yield_sound [OF u]) (simp_all add: below_yield_def)
      then obtain s3 r3 where y: "thread_yield ?ks ?s2 = Some (s3, r3)" "result_inv {t} r3 s3" by (auto simp: sound_def)
      note cc = yield_calm [OF user_invD(2) [OF u] y(1)]
      then have h3: "honours ?s2 s3" "live s3 = live ?s2"
        using honours_calm [OF user_invD(2) [OF u]] calm_fields(1) by (auto simp: calm_call_def)
      have eq: "create_loop [] t func a n st = (case r3 of Ret _ _ \<Rightarrow> create_loop [] t func a (n + 1) s3 | _ \<Rightarrow> Some (s3, r3))"
        using al None False y(1) by (subst create_loop.simps) simp
      show ?thesis
      proof (cases r3)
        case (Ret i v)
        have "within ?s2 s3" using h3 cc Ret by (simp add: within_def calm_call_def)
        from within_chain [OF w2 this] have w3: "within st s3" .
        have "honoured s3 (create_loop [] t func a (n + 1) s3)" using y(2) False Ret by (intro less.hyps) (auto simp: result_inv_def)
        then show ?thesis using eq Ret honoured_from [OF w3] by simp
      qed (use eq within_trans [OF w2 h3(1)] in \<open>simp_all add: honoured_Some\<close>)
    qed
  qed
qed

lemma create_honoured:
  assumes u: "user_inv {} st"
  shows "honoured st (thread_create [] newthread func a st)"
proof (cases "\<exists>f. func = Some f \<and> newthread")
  case False
  then show ?thesis by (cases func) (auto simp: thread_create_def honoured_Some)
next
  case True
  then obtain f where f: "func = Some f" "newthread" by blast
  from first_create_ok [OF u] obtain ok s1 where s1: "first_create st = Some (ok, s1)" "user_inv {} s1" by blast
  obtain r s2 where al: "thread_alloc s1 = (r, s2)" by fastforce
  let ?s3 = "if stack_pool_empty s2 \<and> deferred_stacks s2 \<noteq> [] then reclaim_deferred_stacks_all s2 else s2"
  have c: "core s2 = core s1" "core ?s3 = core s1" using core_alloc(4) [OF al] by simp_all
  note w1 = first_create_within [OF s1(1)]
  note w = within_chain [OF w1 core_within [OF c(1)]] within_chain [OF w1 core_within [OF c(2)]]
  show ?thesis
  proof (cases "ok \<and> r \<noteq> None")
    case False
    then show ?thesis using s1(1) al f w(1) w1 by (auto simp: thread_create_def honoured_Some within_def)
  next
    case True
    then obtain t where t: "r = Some t" by blast
    then have "user_inv {t} ?s3" using alloc_user [OF s1(2) al] reclaim_user by simp
    from honoured_from [OF w(2) create_loop_honoured [OF this, of f a 0]] show ?thesis
      using t True s1(1) al f by (simp add: thread_create_def Let_def)
  qed
qed

section \<open>Steps\<close>

lemma exec_call_honoured:
  assumes u: "user_inv {} st" and ok: "lib_call st c"
  shows "honoured st (exec_call c st)"
proof -
  note i = user_invD [OF u]
  have run: "th_state (thr st (current_thread st)) = THREAD_RUNNING" using sched_inv_current(1) [OF i(2)] .
  have ex: "honoured st (thread_exit rv st)" for rv by (rule exit_honoured) (use i run in simp_all)
  show ?thesis
  proof (cases c)
    case C_process_exit
    then show ?thesis by (simp add: honoured_def)
  qed (use ok ex in \<open>simp_all add: lib_call_def on_objects_def create_honoured [OF u] join_honoured [OF i(2)] sync_honoured [OF i(2)]
      object_honoured signal_honoured [OF i(2)]\<close>)
qed

text \<open>A library call inside an operation: its result goes on unless it gives control away.\<close>

lemma honoured_call:
  assumes "honoured st res" "\<And>s i v. honours st s \<Longrightarrow> honoured st (f s (Ret i v))"
    "\<And>s r. (\<forall>i v. r \<noteq> Ret i v) \<Longrightarrow> f s r = Some (s, r)"
  shows "honoured st (res \<bind> (\<lambda>(s, r). f s r))"
proof (cases res)
  case (Some x)
  obtain s r where x: "x = (s, r)" by (cases x)
  show ?thesis using assms Some x by (cases r) (simp_all add: honoured_def)
qed (simp add: honoured_def)

lemma tick_honoured:
  assumes u: "user_inv {} st" shows "honoured st (deliver_sigvtalrm st)"
proof -
  let ?u = "st\<lparr>sigmask := insert SIGVTALRM (sigmask st)\<rparr>"
  have "sched_inv ?u" using user_invD(2) [OF u] by simp
  from sync_honoured(1) [OF this, of "[F_handler (sigmask st)]"]
  have y: "honoured st (thread_yield [F_handler (sigmask st)] ?u)" by (simp add: honoured_def)
  show ?thesis unfolding deliver_sigvtalrm_def preemption_handler_def Let_def
    by (auto intro!: honoured_call [OF y] simp: honoured_Some split: outcome.splits)
qed

lemma fault_honoured:
  assumes u: "user_inv {} st" shows "honoured st (deliver_sigsegv a st)"
proof -
  let ?c = "current_thread st"
  let ?m = "st\<lparr>sigmask := sigmask st \<union> {SIGSEGV, SIGVTALRM}\<rparr>"
  let ?o = "upd_thread (current_thread ?m) (\<lambda>x. x\<lparr>stack_overflow := True\<rparr>) ?m"
  have "user_inv {} ?o" by (rule marked_inv [OF u])
  note i = user_invD [OF u] and i' = user_invD [OF this]
  have "honoured st (thread_exit 0 ?o)"
    by (rule exit_honoured) (use i i' sched_inv_current(1) [OF i(2)] in \<open>simp_all add: upd_thread_def\<close>)
  then show ?thesis by (auto simp: deliver_sigsegv_def sigsegv_handler_def Let_def honoured_def [of _ "Some _"])
qed

lemma then_unwind_honoured: "honoured st res \<Longrightarrow> honoured st (then_unwind [] res)"
  unfolding then_unwind_def by (rule honoured_call) (auto simp: honoured_Some split: outcome.splits)

lemma resume_honoured:
  assumes sw: "switch_inv st" shows "honoured st (resume_current st)"
proof -
  let ?c = "current_thread st"
  define ks where "ks = saved_ctx (thr st ?c)"
  have "?c \<in> active st" using current_active [OF switch_invD(2) [OF sw]] .
  then have ok: "ctx_ok ks" using switch_invD(6) [OF sw] by (simp add: ctxs_ok_def ks_def)
  have res: "resume_current st = resume ks st" by (simp add: resume_current_def ks_def)
  note i = switch_invD(2) [OF sw]
  obtain k ks' where k: "ks = k # ks'" using ok by (cases ks) (auto simp: ctx_ok_def)
  show ?thesis
  proof (cases k)
    case F_yield
    then consider "ks' = []" | n f a j where "ks' = [F_create n f a j]" | old where "ks' = [F_handler old]"
      using ok k by (auto simp: ctx_ok_def below_yield_def)
    then show ?thesis
    proof cases
      case 2
      then have "join_target ks = None" using k F_yield by (simp add: join_target_def)
      from switch_to_user(1) [OF sw ks_def [symmetric] this] have "user_inv {n} (unblock st)" using k F_yield 2 by simp
      from then_unwind_honoured [OF create_loop_honoured [OF this, of f a j]] show ?thesis
        using res k F_yield 2 by (simp add: then_unwind_def)
    qed (use res k F_yield in \<open>simp_all add: honoured_Some\<close>)
  next
    case (F_join t w)
    then show ?thesis using res k ok join_resume_honoured [OF sw, of t w] ks_def by (simp add: ctx_ok_def then_unwind_honoured)
  next
    case (F_cond_wait m)
    then show ?thesis using res k ok sync_honoured(9) [of "unblock st" 0 "[]" m] i
      by (simp add: ctx_ok_def cond_wait_resume_def then_unwind_honoured)
  next
    case (F_sigwait sigs)
    then show ?thesis using res k ok sigwait_step_honoured [OF i, of "[]" sigs] by (simp add: ctx_ok_def then_unwind_honoured)
  qed (use res k ok in \<open>auto simp: ctx_ok_def thread_entry_def honoured_Some honoured_def [of _ None]\<close>)
qed

lemma step_honours:
  assumes "mode_inv s" "sys_step lib_call s s'" "snd s' \<in> {User, Switching}"
  shows "honours (fst s) (fst s')"
  using assms(2)
proof cases
  case (call st c st' r)
  then show ?thesis using assms exec_call_honoured [of st c] by (auto simp: honoured_def)
next
  case (tick st st' r)
  then show ?thesis using assms tick_honoured [of st] by (auto simp: honoured_def)
next
  case (fault a st st' r)
  then show ?thesis using assms fault_honoured [of st a] by (auto simp: honoured_def)
next
  case (switch st st' r)
  then show ?thesis using assms resume_honoured [of st] by (auto simp: honoured_def)
qed (use assms in simp)

section \<open>Executions\<close>

text \<open>An execution during which the structure of thread \<open>t\<close> is not released.\<close>

inductive outlives :: "(sys \<Rightarrow> call \<Rightarrow> bool) \<Rightarrow> tid \<Rightarrow> sys \<times> mode \<Rightarrow> sys \<times> mode \<Rightarrow> bool" for ok t s0 where
  here: "t \<in> live (fst s0) \<Longrightarrow> outlives ok t s0 s0"
| later: "outlives ok t s0 s \<Longrightarrow> sys_step ok s s' \<Longrightarrow> t \<in> live (fst s') \<Longrightarrow> outlives ok t s0 s'"

lemma outlives_live: "outlives ok t s0 s \<Longrightarrow> t \<in> live (fst s)"
  by (induction rule: outlives.induct) simp_all

lemma step_from_running: "sys_step ok s s' \<Longrightarrow> snd s' \<in> {User, Switching} \<Longrightarrow> snd s \<in> {User, Switching}"
  by (auto elim: sys_step.cases)

lemma outlives_inv: "outlives lib_call t s0 s \<Longrightarrow> mode_inv s0 \<Longrightarrow> mode_inv s"
  by (induction rule: outlives.induct) (auto intro: step_inv)

lemma outlives_reachable: "outlives ok t s0 s \<Longrightarrow> reachable ok i s0 \<Longrightarrow> reachable ok i s"
  by (induction rule: outlives.induct) (auto intro: reachable.step)

lemma outlives_fate:
  assumes "outlives lib_call t s0 s" "mode_inv s0" "th_state (thr (fst s0) t) = THREAD_TERMINATED" "snd s \<in> {User, Switching}"
  shows "th_state (thr (fst s) t) = THREAD_TERMINATED \<and> retval (thr (fst s) t) = retval (thr (fst s0) t) \<and>
    stack_overflow (thr (fst s) t) = stack_overflow (thr (fst s0) t)"
  using assms
proof (induction rule: outlives.induct)
  case (later s s')
  have "mode_inv s" using outlives_inv [OF later.hyps(1) later.prems(1)] .
  from step_honours [OF this later.hyps(2) later.prems(3)] later.IH later.prems outlives_live [OF later.hyps(1)] later.hyps(3)
    step_from_running [OF later.hyps(2) later.prems(3)] show ?case by (simp add: honours_def settled_def)
qed simp

text \<open>An execution during which thread \<open>t\<close> is not switched to.\<close>

inductive sleeps :: "(sys \<Rightarrow> call \<Rightarrow> bool) \<Rightarrow> tid \<Rightarrow> sys \<times> mode \<Rightarrow> sys \<times> mode \<Rightarrow> bool" for ok t s0 where
  here: "sleeps ok t s0 s0"
| later: "sleeps ok t s0 s \<Longrightarrow> current_thread (fst s) \<noteq> t \<Longrightarrow> sys_step ok s s' \<Longrightarrow> sleeps ok t s0 s'"

lemma sleeps_inv: "sleeps lib_call t s0 s \<Longrightarrow> mode_inv s0 \<Longrightarrow> mode_inv s"
  by (induction rule: sleeps.induct) (auto intro: step_inv)

lemma sleeps_context:
  assumes "sleeps lib_call t s0 s" "mode_inv s0" "t \<in> active (fst s0)" "snd s \<in> {User, Switching}"
  shows "t \<in> active (fst s) \<and> kept (thr (fst s0) t) (thr (fst s) t)"
  using assms
proof (induction rule: sleeps.induct)
  case (later s s')
  have "undisturbed (fst s) (fst s')"
    using step_honours [OF sleeps_inv [OF later.hyps(1) later.prems(1)] later.hyps(3) later.prems(3)] by (simp add: honours_def)
  then show ?case using later.IH later.prems step_from_running [OF later.hyps(3) later.prems(3)] later.hyps(2)
    by (simp add: undisturbed_def)
qed simp

text \<open>A thread that has not terminated carries no overflow mark.\<close>

definition unmarked :: "sys \<Rightarrow> bool" where
  "unmarked st \<longleftrightarrow> (\<forall>t \<in> live st. stack_overflow (thr st t) \<longrightarrow> th_state (thr st t) = THREAD_TERMINATED)"

lemma honours_unmarked: "honours st st' \<Longrightarrow> unmarked st \<Longrightarrow> unmarked st'"
  unfolding honours_def settled_def unmarked_def by metis

lemma reachable_unmarked:
  assumes "reachable lib_call (initial_sys env mem) s" "os_sane env" "snd s \<in> {User, Switching}"
  shows "unmarked (fst s)"
  using assms
proof (induction rule: reachable.induct)
  case start
  then show ?case by (simp add: unmarked_def initial_sys_def main_thread_init_def)
next
  case (step s s')
  have "mode_inv s" using reachable_inv [OF step.hyps(1)] initial_inv [OF step.prems(1)] by simp
  from step_honours [OF this step.hyps(2) step.prems(2)] step.IH [OF step.prems(1) step_from_running [OF step.hyps(2) step.prems(2)]]
  show ?case by (rule honours_unmarked)
qed

section \<open>What a joiner gets\<close>

lemma reachable_user:
  assumes "os_sane env" "reachable lib_call (initial_sys env mem) (st, User)"
  shows "user_inv {} st"
  using reachable_inv [OF assms(2)] initial_inv [OF assms(1)] by simp

lemma reap_not_live:
  assumes "reap t st = Some st'" "t \<noteq> main_thread"
  shows "t \<notin> live st'"
  using assms by (auto simp: reap_eq thread_free_def free_thread_def c_free_def split: if_splits)

lemma reachable_switch:
  assumes "os_sane env" "reachable lib_call (initial_sys env mem) (st, Switching)"
  shows "switch_inv st"
  using reachable_inv [OF assms(2)] initial_inv [OF assms(1)] by simp

lemma join_resumes:
  assumes "os_sane env" "reachable lib_call (initial_sys env mem) (st, Switching)"
    "saved_ctx (thr st (current_thread st)) = [F_join t want]"
  shows "\<exists>st'. resume_current st = Some (st', Ret (if stack_overflow (thr st t) then -1 else 0) (if want then Out_val (retval (thr st t)) else No_out)) \<and>
    user_inv {} st' \<and> th_state (thr st t) = THREAD_TERMINATED \<and> (t \<noteq> main_thread \<longrightarrow> t \<notin> live st') \<and>
    (stack_overflow (thr st t) \<longrightarrow> errno st' = EFAULT)"
proof -
  note sw = reachable_switch [OF assms(1,2)]
  note t = join_resumed [OF sw assms(3)]
  from join_resume_sound [OF sw assms(3)] obtain st' r where s: "join_resume t want st = Some (st', r)" "result_inv {} r st'"
    by (auto simp: sound_def)
  let ?u = "upd_thread (current_thread st) (\<lambda>x. x\<lparr>waiting_for := None, th_state := THREAD_RUNNING\<rparr>) st"
  have th: "thr ?u t = thr st t" using t(4) by (simp add: upd_thread_def)
  from s(1) obtain s1 where s1: "reap t (block (unblock ?u)) = Some s1"
    "st' = (if stack_overflow (thr st t) then set_errno EFAULT (unblock s1) else unblock s1)"
    "r = Ret (if stack_overflow (thr st t) then -1 else 0) (if want then Out_val (retval (thr st t)) else No_out)"
    by (auto simp: join_resume_def join_finish_def Let_def out_retval_def th split: if_splits)
  have "t \<noteq> main_thread \<longrightarrow> t \<notin> live st'" using reap_not_live [OF s1(1)] s1(2) by auto
  moreover have "resume_current st = Some (st', r)" using assms(3) s(1) s1(3) by (simp add: resume_current_def then_unwind_def)
  moreover have "user_inv {} st'" using s(2) s1(3) by (simp add: result_inv_def)
  ultimately show ?thesis using t(2) s1(2,3) by auto
qed

lemma join_at_once:
  assumes "os_sane env" "reachable lib_call (initial_sys env mem) (st, User)" "t \<in> live st" "t \<noteq> current_thread st"
    "th_state (thr st t) = THREAD_TERMINATED" "joined_by (thr st t) = None"
  shows "\<exists>st'. thread_join [] (Some t) want st = Some (st', Ret 0 (if want then Out_val (retval (thr st t)) else No_out)) \<and>
    user_inv {} st' \<and> current_thread st' = current_thread st \<and> (t \<noteq> main_thread \<longrightarrow> t \<notin> live st')"
proof -
  note u = reachable_user [OF assms(1,2)]
  from join_terminated_sound [OF u assms(3,6,4,5), of want] obtain st' r where s: "thread_join [] (Some t) want st = Some (st', r)"
    "result_inv {} r st'" by (auto simp: sound_def)
  from s(1) obtain s1 where s1: "reap t (block st) = Some s1" "st' = unblock s1" "r = Ret 0 (out_retval want t st)"
    by (auto simp: join_terminated_eq [OF assms(6,4,5)] split: option.splits)
  have "t \<noteq> main_thread \<longrightarrow> t \<notin> live st'" using reap_not_live [OF s1(1)] s1(2) by auto
  moreover have "current_thread s1 = current_thread st"
  proof (cases "t = main_thread")
    case False
    have "flight_inv {} (Some (current_thread st)) (block st)" using user_invD(2) [OF u] by (simp add: sched_inv_def)
    moreover have "mem_inv (pending (active st - {current_thread st}) st) (block st)"
      using user_invD(8) [OF u] mem_part_inv [of "block st" st] by simp
    moreover have "gc_ok (block st)" using user_invD(5) [OF u] by (simp add: block_eq gc_ok_def)
    ultimately show ?thesis using reap_ok [of "current_thread st" "block st" _ t] assms(3-5) False s1(1) by auto
  qed (use s1(1) in auto)
  ultimately show ?thesis using s s1(2,3) by (auto simp: out_retval_def result_inv_def)
qed

text \<open>A thread that exits leaves its value; one that overflows its stack leaves the mark.\<close>

lemma exit_leaves_fate:
  assumes u: "user_inv {} st" and e: "thread_exit rv st = Some (st', Switched)"
  shows "th_state (thr st' (current_thread st)) = THREAD_TERMINATED" "retval (thr st' (current_thread st)) = rv"
    "stack_overflow (thr st' (current_thread st)) = stack_overflow (thr st (current_thread st))"
    "current_thread st \<in> live st'" "current_thread st' \<noteq> current_thread st"
proof -
  note i = user_invD [OF u]
  have "exit_ready st \<noteq> []"
  proof
    assume n: "exit_ready st = []"
    from exit_stages [OF i(2,5,4), of rv] obtain s where "thread_exit rv st = exit_switch s" "ready_queue s = []" using n by auto
    with e show False by (auto simp: exit_switch_def pick_next_empty thread_switch_to_cleanup_def)
  qed
  then obtain n ns where q: "exit_ready st = n # ns" by (cases "exit_ready st") auto
  from exit_fields [OF i(2,5,4) q, of rv] e have v: "exit_view rv n st (thr st' (current_thread st)) (current_thread st)"
    and l: "live st' = live st" "current_thread st' = n" "n \<noteq> current_thread st" by auto
  then show "th_state (thr st' (current_thread st)) = THREAD_TERMINATED" "retval (thr st' (current_thread st)) = rv"
    "stack_overflow (thr st' (current_thread st)) = stack_overflow (thr st (current_thread st))"
    "current_thread st' \<noteq> current_thread st"
    by (simp_all add: exit_view_def)
  show "current_thread st \<in> live st'" using i(2) l by (simp add: sched_inv_def)
qed

lemma overflow_leaves_mark:
  assumes u: "user_inv {} st" and h: "handler_segv st" "SIGSEGV \<notin> sigmask st" "in_guard_page a (thr st (current_thread st))"
    and e: "deliver_sigsegv a st = Some (st', Switched)"
  shows "th_state (thr st' (current_thread st)) = THREAD_TERMINATED" "retval (thr st' (current_thread st)) = 0"
    "stack_overflow (thr st' (current_thread st))"
proof -
  let ?m = "st\<lparr>sigmask := sigmask st \<union> {SIGSEGV, SIGVTALRM}\<rparr>"
  let ?o = "upd_thread (current_thread ?m) (\<lambda>x. x\<lparr>stack_overflow := True\<rparr>) ?m"
  have x: "thread_exit 0 ?o = Some (st', Switched)" using h e
    by (auto simp: deliver_sigsegv_def sigsegv_handler_def Let_def split: if_splits)
  have "user_inv {} ?o" by (rule marked_inv [OF u])
  from exit_leaves_fate [OF this x] show "th_state (thr st' (current_thread st)) = THREAD_TERMINATED" "retval (thr st' (current_thread st)) = 0"
    "stack_overflow (thr st' (current_thread st))" by (simp_all add: upd_thread_def)
qed

text \<open>The joiner of a thread that has terminated in \<open>s0\<close>, both when it was blocked and when it comes late.\<close>

lemma fate_reaches_joiner:
  assumes env: "os_sane env" and r: "reachable lib_call (initial_sys env mem) s0"
    and d: "th_state (thr (fst s0) t) = THREAD_TERMINATED" "retval (thr (fst s0) t) = rv" "stack_overflow (thr (fst s0) t) = ov"
  shows "outlives lib_call t s0 (st, Switching) \<Longrightarrow> saved_ctx (thr st (current_thread st)) = [F_join t want] \<Longrightarrow>
      \<exists>st'. resume_current st = Some (st', Ret (if ov then -1 else 0) (if want then Out_val rv else No_out)) \<and>
        user_inv {} st' \<and> (t \<noteq> main_thread \<longrightarrow> t \<notin> live st') \<and> (ov \<longrightarrow> errno st' = EFAULT)"
    "outlives lib_call t s0 (st, User) \<Longrightarrow> joined_by (thr st t) = None \<Longrightarrow>
      \<exists>st'. thread_join [] (Some t) want st = Some (st', Ret 0 (if want then Out_val rv else No_out)) \<and>
        user_inv {} st' \<and> (t \<noteq> main_thread \<longrightarrow> t \<notin> live st')"
proof -
  have m: "mode_inv s0" using reachable_inv [OF r] initial_inv [OF env] by simp
  show "\<exists>st'. resume_current st = Some (st', Ret (if ov then -1 else 0) (if want then Out_val rv else No_out)) \<and>
        user_inv {} st' \<and> (t \<noteq> main_thread \<longrightarrow> t \<notin> live st') \<and> (ov \<longrightarrow> errno st' = EFAULT)"
    if o: "outlives lib_call t s0 (st, Switching)" and k: "saved_ctx (thr st (current_thread st)) = [F_join t want]"
    using join_resumes [OF env outlives_reachable [OF o r] k] outlives_fate [OF o m d(1)] d by auto
  show "\<exists>st'. thread_join [] (Some t) want st = Some (st', Ret 0 (if want then Out_val rv else No_out)) \<and>
        user_inv {} st' \<and> (t \<noteq> main_thread \<longrightarrow> t \<notin> live st')"
    if o: "outlives lib_call t s0 (st, User)" and j: "joined_by (thr st t) = None"
  proof -
    note f = outlives_fate [OF o m d(1)] and ru = outlives_reachable [OF o r]
    have "t \<noteq> current_thread st" using f sched_inv_current(1) [OF user_invD(2) [OF reachable_user [OF env ru]]] by auto
    from join_at_once [OF env ru _ this _ j, of want] f d outlives_live [OF o] show ?thesis by auto
  qed
qed

end
