(* ===== verification/Mutual_Exclusion.thy ===== *)
theory Mutual_Exclusion
  imports Retention
begin

text \<open>
  Mutual exclusion over whole executions: the threads that have returned from \<open>thread_mutex_lock\<close> and
  have not released the mutex are tracked along an execution, and there is never more than one of
  them, in whatever way threads are created, scheduled, preempted, joined and ended in between.  The tracked
  threads give the mutex an owner, and with it the states of an execution implement an abstract lock.
\<close>

section \<open>Operations that leave a mutex alone\<close>

text \<open>The mutex \<open>m\<close> is in state \<open>l\<close> with the waiters \<open>q\<close>, \<open>i\<close> says whether it has been initialised, and no
  thread will lock it again inside \<open>thread_cond_wait\<close>.\<close>

type_synonym lock_view = "oid \<times> bool \<times> int \<times> tid list"

definition still :: "lock_view \<Rightarrow> sys \<Rightarrow> bool" where
  "still v st \<longleftrightarrow> (case v of (m, i, l, q) \<Rightarrow> (MutexQ m \<in> initialised st) = i \<and> m_locked st m = l \<and> queues st (MutexQ m) = q \<and>
     (\<forall>t \<in> live st. F_cond_wait m \<notin> set (saved_ctx (thr st t))))"

definition stays :: "lock_view \<Rightarrow> tid \<Rightarrow> sys \<Rightarrow> bool" where
  "stays v c st \<longleftrightarrow> still v st \<and> current_thread st = c"

text \<open>What an operation may end with: a return goes to the caller.\<close>

definition leaves :: "lock_view \<Rightarrow> tid \<Rightarrow> result \<Rightarrow> bool" where
  "leaves v c res \<longleftrightarrow> (\<forall>st r. res = Some (st, r) \<longrightarrow>
     (mode_of r = User \<longrightarrow> stays v c st) \<and> (mode_of r = Switching \<longrightarrow> still v st))"

definition leaves_part :: "lock_view \<Rightarrow> tid \<Rightarrow> sys option \<Rightarrow> bool" where
  "leaves_part v c x \<longleftrightarrow> (\<forall>st. x = Some st \<longrightarrow> stays v c st)"

abbreviation clean :: "lock_view \<Rightarrow> frame list \<Rightarrow> bool" where
  "clean v ks \<equiv> F_cond_wait (fst v) \<notin> set ks"

named_theorems leave_intros "rules for the parts of an operation"

lemma still_core: "core st' = core st \<Longrightarrow> still v st' = still v st"
  by (simp add: still_def core_def)

lemma stays_core: "core st' = core st \<Longrightarrow> stays v c st' = stays v c st"
  by (simp add: stays_def still_def core_def)

lemma still_upd:
  "(\<And>x. saved_ctx (f x) = saved_ctx x) \<Longrightarrow> still v (upd_thread t f st) = still v st"
  by (auto simp: still_def upd_thread_def)

lemma still_simps [simp]:
  "still v (st\<lparr>current_thread := c\<rparr>) = still v st" "still v (st\<lparr>errno := e\<rparr>) = still v st"
  "still v (st\<lparr>sigmask := s\<rparr>) = still v st" "still v (st\<lparr>s_count := n\<rparr>) = still v st"
  "still v (block st) = still v st" "still v (unblock st) = still v st"
  "still v (st\<lparr>deferred_stacks := d\<rparr>) = still v st" "still v (st\<lparr>zombie_initialized := z\<rparr>) = still v st"
  "still v (st\<lparr>next_thread_id := i\<rparr>) = still v st" "still v (st\<lparr>head_cells := h\<rparr>) = still v st"
  "still v (st\<lparr>thread_pool := tp\<rparr>) = still v st" "still v (st\<lparr>allocated := A\<rparr>) = still v st"
  by (simp_all add: still_def)

lemma stays_simps [simp]:
  "stays v c (st\<lparr>errno := e\<rparr>) = stays v c st" "stays v c (st\<lparr>sigmask := s\<rparr>) = stays v c st" "stays v c (st\<lparr>s_count := n\<rparr>) = stays v c st"
  "stays v c (block st) = stays v c st" "stays v c (unblock st) = stays v c st"
  "stays v c (st\<lparr>deferred_stacks := d\<rparr>) = stays v c st" "stays v c (st\<lparr>zombie_initialized := z\<rparr>) = stays v c st"
  "stays v c (st\<lparr>next_thread_id := i\<rparr>) = stays v c st" "stays v c (st\<lparr>head_cells := h\<rparr>) = stays v c st"
  "stays v c (st\<lparr>thread_pool := tp\<rparr>) = stays v c st" "stays v c (st\<lparr>allocated := A\<rparr>) = stays v c st"
  by (simp_all add: stays_def)

lemma stays_still: "stays v c st \<Longrightarrow> still v st"
  by (simp add: stays_def)

lemma stays_upd: "(\<And>x. saved_ctx (f x) = saved_ctx x) \<Longrightarrow> stays v c (upd_thread t f st) = stays v c st"
  by (simp add: stays_def still_upd) (simp add: upd_thread_def)

lemma stays_init_queue: "q \<noteq> MutexQ (fst v) \<Longrightarrow> stays v c (tailq_init q st) = stays v c st"
  by (auto simp: stays_def still_def tailq_init_def split: prod.splits)

lemma stays_live: "stays v c st \<Longrightarrow> L \<subseteq> live st \<Longrightarrow> stays v c (st\<lparr>live := L\<rparr>)"
  by (auto simp: stays_def still_def split: prod.splits)

lemma still_swap: "still v st \<Longrightarrow> clean v ks \<Longrightarrow> still v (swap_thread p n ks st)"
  by (auto simp: still_def swap_thread_eq split: prod.splits)

lemma still_save: "still v st \<Longrightarrow> clean v ks \<Longrightarrow> still v (fast_swap_context p ks st)"
  by (auto simp: still_def fast_swap_context_def upd_thread_def split: prod.splits)

lemma still_other_lock: "l (fst v) = m_locked st (fst v) \<Longrightarrow> still v (st\<lparr>m_locked := l\<rparr>) = still v st"
  by (auto simp: still_def split: prod.splits)

lemma stays_other_lock: "l (fst v) = m_locked st (fst v) \<Longrightarrow> stays v c (st\<lparr>m_locked := l\<rparr>) = stays v c st"
  by (simp add: stays_def still_other_lock)

lemmas leave_simps = stays_upd still_upd stays_init_queue stays_still still_other_lock stays_other_lock

text \<open>The queue primitives.\<close>

lemma stays_link: "tailq_link q t xs st = Some st' \<Longrightarrow> q \<noteq> MutexQ (fst v) \<Longrightarrow> stays v c st \<Longrightarrow> stays v c st'"
  by (auto simp: tailq_link_Some stays_def still_def split: prod.splits)

lemma stays_remove: "tailq_remove q t st = Some st' \<Longrightarrow> q \<noteq> MutexQ (fst v) \<Longrightarrow> stays v c st \<Longrightarrow> stays v c st'"
  by (auto simp: tailq_remove_Some stays_def still_def split: prod.splits)

lemma part_link [leave_intros]:
  "stays v c st \<Longrightarrow> q \<noteq> MutexQ (fst v) \<Longrightarrow> leaves_part v c (tailq_insert_tail q t st)"
  "stays v c st \<Longrightarrow> q \<noteq> MutexQ (fst v) \<Longrightarrow> leaves_part v c (tailq_insert_before q d t st)"
  "stays v c st \<Longrightarrow> q \<noteq> MutexQ (fst v) \<Longrightarrow> leaves_part v c (tailq_remove q t st)"
  by (auto simp: leaves_part_def tailq_insert_tail_def tailq_insert_before_def split: if_splits dest: stays_link stays_remove)

lemma part_Some [leave_intros]: "stays v c st \<Longrightarrow> leaves_part v c (Some st)"
  by (simp add: leaves_part_def)

lemma part_if [leave_intros]:
  "(b \<Longrightarrow> leaves_part v c x) \<Longrightarrow> (\<not> b \<Longrightarrow> leaves_part v c y) \<Longrightarrow> leaves_part v c (if b then x else y)"
  by simp

lemma part_bind [leave_intros]:
  "leaves_part v c x \<Longrightarrow> (\<And>st. stays v c st \<Longrightarrow> leaves_part v c (f st)) \<Longrightarrow> leaves_part v c (x \<bind> f)"
  by (cases x) (simp_all add: leaves_part_def)

lemma part_case_option [leave_intros]:
  "(x = None \<Longrightarrow> leaves_part v c a) \<Longrightarrow> (\<And>y. x = Some y \<Longrightarrow> leaves_part v c (f y)) \<Longrightarrow>
   leaves_part v c (case x of None \<Rightarrow> a | Some y \<Rightarrow> f y)"
  by (cases x) simp_all

lemma part_case_policy [leave_intros]:
  "leaves_part v c a \<Longrightarrow> leaves_part v c b \<Longrightarrow> leaves_part v c (case x of THREAD_SCHED_FIFO \<Rightarrow> a | THREAD_SCHED_PRIO \<Rightarrow> b)"
  by (cases x) simp_all

lemma leaves_Ret [leave_intros]: "stays v c st \<Longrightarrow> leaves v c (Some (st, Ret i x))"
  by (simp add: leaves_def)

lemma leaves_end [leave_intros]: "still v st \<Longrightarrow> leaves v c (Some (st, Switched))"
  by (simp add: leaves_def)

lemma leaves_None [leave_intros]: "leaves v c None"
  by (simp add: leaves_def)

lemma leaves_if [leave_intros]: "(b \<Longrightarrow> leaves v c x) \<Longrightarrow> (\<not> b \<Longrightarrow> leaves v c y) \<Longrightarrow> leaves v c (if b then x else y)"
  by simp

lemma leaves_case_option [leave_intros]:
  "(x = None \<Longrightarrow> leaves v c a) \<Longrightarrow> (\<And>y. x = Some y \<Longrightarrow> leaves v c (f y)) \<Longrightarrow> leaves v c (case x of None \<Rightarrow> a | Some y \<Rightarrow> f y)"
  by (cases x) simp_all

lemma leaves_bind [leave_intros]:
  "leaves_part v c x \<Longrightarrow> (\<And>st. stays v c st \<Longrightarrow> leaves v c (f st)) \<Longrightarrow> leaves v c (x \<bind> f)"
  by (cases x) (simp_all add: leaves_part_def leaves_def)

lemma part_enqueue [leave_intros]: "stays v c st \<Longrightarrow> leaves_part v c (thread_scheduler_enqueue t st)"
  unfolding thread_scheduler_enqueue_def by (intro leave_intros) (simp_all add: leave_simps)

lemma leaves_pick [leave_intros]:
  assumes "stays v c st" "\<And>n st. stays v c st \<Longrightarrow> leaves v c (f n st)"
  shows "leaves v c (thread_scheduler_pick_next st \<bind> (\<lambda>(n, st). f n st))"
proof -
  have "stays v c st'" if "thread_scheduler_pick_next st = Some (n, st')" for n st'
    using that assms(1) by (auto simp: thread_scheduler_pick_next_def leave_simps split: option.splits dest!: stays_remove [where v = v and c = c])
  then show ?thesis using assms(2) by (cases "thread_scheduler_pick_next st") (auto simp: leaves_None)
qed

lemma part_revive [leave_intros]: "stays v c st \<Longrightarrow> q \<noteq> MutexQ (fst v) \<Longrightarrow> leaves_part v c (revive q st)"
  unfolding revive_def by (intro leave_intros) (simp_all add: leave_simps)

lemma leaves_call:
  assumes "leaves v c res" "\<And>st i x. stays v c st \<Longrightarrow> leaves v c (f st (Ret i x))"
    "\<And>st r. (\<forall>i x. r \<noteq> Ret i x) \<Longrightarrow> f st r = Some (st, r)"
  shows "leaves v c (res \<bind> (\<lambda>(st, r). f st r))"
proof (cases res)
  case (Some p)
  obtain st r where p: "p = (st, r)" by (cases p)
  show ?thesis using assms Some p by (cases r) (simp_all add: leaves_def)
qed (simp add: leaves_def)

section \<open>Scheduling and synchronisation\<close>

lemma yield_leaves:
  assumes "stays v c st" "clean v ks" shows "leaves v c (thread_yield ks st)"
proof -
  have a: "stays v c (age_waiting s)" if "stays v c s" for s
  proof -
    have "stays v c (fold (\<lambda>t. upd_thread t (\<lambda>x. let p = priority x + THREAD_WAIT
        in x\<lparr>priority := (if p > THREAD_MAX_PRIORITY then THREAD_MAX_PRIORITY else p)\<rparr>)) ts s)" if "stays v c s" for ts s
      using that by (induction ts arbitrary: s) (simp_all add: stays_upd Let_def)
    then show ?thesis using that unfolding age_waiting_def .
  qed
  have "stays v c (age_running p s)" if "stays v c s" for p s using that by (simp add: age_running_def stays_upd Let_def)
  with a assms show ?thesis unfolding thread_yield_def Let_def
    by (intro leave_intros) (simp_all add: leave_simps still_swap)
qed

lemma yield_to_leaves:
  assumes "stays v c st" "clean v ks" shows "leaves v c (thread_yield_to ks t st)"
  unfolding thread_yield_to_def Let_def
  by (intro leave_intros yield_leaves) (use assms in \<open>simp_all add: leave_simps still_swap\<close>)

lemma set_priority_leaves:
  assumes "stays v c st" "clean v ks" shows "leaves v c (thread_set_priority ks t p st)"
  unfolding thread_set_priority_def Let_def
  by (intro leave_intros yield_to_leaves) (use assms in \<open>simp_all add: leave_simps\<close>)

lemma mutex_leaves:
  assumes s: "stays v c st" and m: "m \<noteq> Some (fst v)"
  shows "leaves v c (thread_mutex_init m st)" "leaves v c (thread_mutex_destroy m st)"
    "clean v ks \<Longrightarrow> leaves v c (thread_mutex_lock ks m st)" "leaves v c (thread_mutex_unlock m st)"
proof -
  have o: "x \<noteq> fst v" if "m = Some x" for x using that m by auto
  show "leaves v c (thread_mutex_init m st)" "leaves v c (thread_mutex_destroy m st)"
    using s o by (cases m; simp add: thread_mutex_init_def thread_mutex_destroy_def Let_def leaves_def leave_simps)+
  show "leaves v c (thread_mutex_unlock m st)"
    unfolding thread_mutex_unlock_def Let_def by (intro leave_intros) (use s o in \<open>simp_all add: leave_simps\<close>)
  show "leaves v c (thread_mutex_lock ks m st)" if "clean v ks"
    unfolding thread_mutex_lock_def Let_def by (intro leave_intros) (use s o that in \<open>simp_all add: leave_simps still_swap\<close>)
qed

lemma sem_leaves:
  assumes s: "stays v c st"
  shows "leaves v c (thread_sem_init x n st)" "leaves v c (thread_sem_destroy x st)"
    "clean v ks \<Longrightarrow> leaves v c (thread_sem_wait ks x st)" "leaves v c (thread_sem_post x st)"
  unfolding thread_sem_init_def thread_sem_destroy_def thread_sem_wait_def thread_sem_post_def Let_def
  by ((intro leave_intros)?; use s in \<open>auto simp: leave_simps intro!: still_save\<close>)+

lemma signal_leaves:
  assumes s: "stays v c st"
  shows "leaves v c (thread_signal_send t i st)" "clean v ks \<Longrightarrow> leaves v c (sigwait_step ks sigs st)"
    "clean v ks \<Longrightarrow> leaves v c (thread_sigwait ks sigs p st)"
proof -
  show "leaves v c (thread_signal_send t i st)"
    unfolding thread_signal_send_def Let_def by (intro leave_intros) (use s in \<open>simp_all add: leave_simps\<close>)
  have sw: "leaves v c (sigwait_step ks sigs st)" if "stays v c st" "clean v ks" for st
    unfolding sigwait_step_def Let_def by (intro leave_intros) (use that in \<open>simp_all add: leave_simps still_swap\<close>)
  show "clean v ks \<Longrightarrow> leaves v c (sigwait_step ks sigs st)" using sw s by simp
  show "clean v ks \<Longrightarrow> leaves v c (thread_sigwait ks sigs p st)"
    unfolding thread_sigwait_def by (intro leave_intros sw) (use s in simp_all)
qed

lemma cond_leaves:
  assumes s: "stays v c st"
  shows "leaves v c (thread_cond_init x st)" "leaves v c (thread_cond_destroy x st)" "leaves v c (thread_cond_signal x st)"
    "leaves v c (thread_cond_broadcast x st)"
    "clean v ks \<Longrightarrow> m \<noteq> fst v \<Longrightarrow> leaves v c (cond_relock i ks m st)"
    "clean v ks \<Longrightarrow> m' \<noteq> Some (fst v) \<Longrightarrow> leaves v c (thread_cond_wait ks x m' st)"
proof -
  show "leaves v c (thread_cond_init x st)" "leaves v c (thread_cond_destroy x st)"
    using s by (cases x; simp add: thread_cond_init_def thread_cond_destroy_def leaves_def leave_simps)+
  show "leaves v c (thread_cond_signal x st)"
    unfolding thread_cond_signal_def Let_def by (intro leave_intros) (use s in simp_all)
  have "stays v c s \<longrightarrow> q \<noteq> MutexQ (fst v) \<longrightarrow> stays v c s'" if "revive_all q s = Some s'" for q s s'
  proof (rule revive_all.raw_induct [OF _ that, where P = "\<lambda>q st st'. stays v c st \<longrightarrow> q \<noteq> MutexQ (fst v) \<longrightarrow> stays v c st'"])
    fix f :: "qid \<Rightarrow> sys \<Rightarrow> sys option" and q st st'
    assume "\<And>q st st'. f q st = Some st' \<Longrightarrow> stays v c st \<longrightarrow> q \<noteq> MutexQ (fst v) \<longrightarrow> stays v c st'"
      and "(if queues st q \<noteq> [] then do { st \<leftarrow> revive q st; f q st } else Some st) = Some st'"
    then show "stays v c st \<longrightarrow> q \<noteq> MutexQ (fst v) \<longrightarrow> stays v c st'"
      using part_revive [of v c st q] by (auto simp: leaves_part_def split: if_splits)
  qed
  then have "leaves_part v c (revive_all (CondQ y) s)" if "stays v c s" for y s using that by (simp add: leaves_part_def)
  then show "leaves v c (thread_cond_broadcast x st)"
    unfolding thread_cond_broadcast_def Let_def by (intro leave_intros) (use s in simp_all)
  have relock: "leaves v c (cond_relock i ks m st)" if "stays v c st" "clean v ks" "m \<noteq> fst v" for st i m
    unfolding cond_relock_def
    by (rule leaves_call [OF mutex_leaves(3)]) (use that in \<open>auto simp: leaves_Ret split: outcome.splits\<close>)
  then show "clean v ks \<Longrightarrow> m \<noteq> fst v \<Longrightarrow> leaves v c (cond_relock i ks m st)" using s by simp
  have rel: "leaves_part v c (cond_release m s)" if "m \<noteq> fst v" "stays v c s" for m s
    unfolding cond_release_def by (intro leave_intros) (use that in \<open>simp_all add: leave_simps\<close>)
  show "leaves v c (thread_cond_wait ks x m' st)" if k: "clean v ks" and m': "m' \<noteq> Some (fst v)"
  proof (cases "x = None \<or> m' = None")
    case True
    then show ?thesis using s by (cases x; cases m') (simp_all add: thread_cond_wait_def leaves_def)
  next
    case False
    then obtain y z where "x = Some y" "m' = Some z" by auto
    then have e: "thread_cond_wait ks x m' st = thread_cond_wait ks (Some y) (Some z) st" and z: "z \<noteq> fst v" using m' by simp_all
    show ?thesis unfolding e unfolding thread_cond_wait_def Let_def prod.case option.case
      by (intro leave_intros rel relock; use s k z in \<open>simp_all add: leave_simps still_save\<close>)
  qed
qed

section \<open>Lifecycle\<close>

lemma release_part [leave_intros]: "stays v c st \<Longrightarrow> leaves_part v c (thread_obj_release t st)"
  by (auto simp: leaves_part_def thread_obj_release_def thread_free_def free_thread_def c_free_def leave_simps
      intro!: stays_live split: if_splits)

lemma zombie_part [leave_intros]:
  "stays v c st \<Longrightarrow> leaves_part v c (thread_zombie_add t st)" "stays v c st \<Longrightarrow> leaves_part v c (thread_zombie_remove t st)"
  unfolding thread_zombie_add_def thread_zombie_remove_def zombie_init_def Let_def
  by (intro leave_intros; simp add: leave_simps)+

lemma stays_pool [simp]: "stays v c (stack_pool_push e st) = stays v c st" "stays v c (reclaim_deferred_stacks_all st) = stays v c st"
  by (rule stays_core; simp)+

lemma reap_part [leave_intros]: "stays v c st \<Longrightarrow> leaves_part v c (reap t st)"
  unfolding reap_def Let_def by (intro leave_intros) (simp_all split: option.splits)

lemma join_finish_leaves: "stays v c st \<Longrightarrow> leaves v c (join_finish t w st)"
  unfolding join_finish_def Let_def by (intro leave_intros) simp_all

lemma join_resume_leaves: "stays v c st \<Longrightarrow> leaves v c (join_resume t w st)"
  unfolding join_resume_def by (intro join_finish_leaves) (simp add: leave_simps)

lemma stays_register [simp]: "stays v c (join_register d t r e st) = stays v c st"
  by (simp add: join_register_def Let_def leave_simps)

lemma join_leaves:
  assumes s: "stays v c st" and k: "clean v ks" shows "leaves v c (thread_join ks t w st)"
proof -
  have jb: "leaves v c (join_block ks t w s)" if "stays v c s" for t s
    unfolding join_block_def Let_def by (intro leave_intros) (use that k in \<open>simp_all add: leave_simps still_swap\<close>)
  have sl: "leaves v c (case (x, y) of (Some tref, Some cref) \<Rightarrow> f tref cref | _ \<Rightarrow> Some (set_errno EINVAL (unblock (block st)), Ret (-1) No_out))"
    if "\<And>tref cref. leaves v c (f tref cref)" for x y :: "cell option" and f
    using that s by (auto simp: leaves_def [of _ _ "Some _"] split: option.splits)
  show ?thesis unfolding thread_join_def Let_def
    by (intro leave_intros join_finish_leaves jb sl) (use s in simp_all)
qed

lemma stays_defer [simp]: "stays v c (defer_stack_reclaim t st) = stays v c st"
  by (simp add: defer_stack_reclaim_def leave_simps split: option.splits)

lemma exit_leaves:
  assumes "stays v c st" shows "leaves v c (thread_exit rv st)"
proof -
  have b: "leaves_part v c (exit_bury t s)" "leaves_part v c (exit_wake t s)" if "stays v c s" for t s
    unfolding exit_bury_def exit_wake_def Let_def by (intro leave_intros; use that in \<open>simp_all add: leave_simps\<close>)+
  have cl: "leaves v c (thread_switch_to_cleanup s)" for s
    by (auto simp: leaves_def thread_switch_to_cleanup_def)
  have "leaves v c (exit_switch s)" if "stays v c s" for s
    unfolding exit_switch_def by (intro leave_intros cl) (use that in \<open>simp_all add: leave_simps\<close>)
  with b assms show ?thesis unfolding thread_exit_def Let_def by (intro leave_intros) (simp_all add: leave_simps)
qed

lemma stays_adopt:
  "stays v c st \<Longrightarrow> stays v c (upd_thread t (\<lambda>x. x\<lparr>saved_ctx := [F_entry]\<rparr>) (st\<lparr>live := insert t (live st)\<rparr>))"
  by (auto simp: stays_def still_def upd_thread_def split: prod.splits)

lemma create_with_stack_leaves:
  assumes "stays v c st" shows "leaves v c (create_with_stack t f a e st)"
proof (cases "thread_head_ref_alloc t (upd_thread t (init_thread f a e) st)")
  case None
  then show ?thesis by (simp add: create_with_stack_def Let_def leaves_def)
next
  case (Some p)
  obtain ref s where p: "p = (ref, s)" by (cases p)
  have i: "saved_ctx (init_thread f a e x) = saved_ctx x" for x by (simp add: init_thread_def)
  have s: "stays v c s" using stays_core [OF core_slot, of t _ ref s v c] Some p assms by (simp add: stays_upd i)
  show ?thesis unfolding create_with_stack_def Let_def Some p bind.simps prod.case
    by (intro leave_intros; use s in \<open>simp_all add: leave_simps stays_adopt\<close>)
qed

lemma create_loop_leaves: "stays v c st \<Longrightarrow> clean v ks \<Longrightarrow> leaves v c (create_loop ks t f a n st)"
proof (induction "4097 - n" arbitrary: n st rule: less_induct)
  case less
  obtain r s where al: "stack_pool_alloc st = (r, s)" by fastforce
  have s: "stays v c s" using stays_core [OF core_stack_alloc [OF al]] less.prems(1) by simp
  show ?case
  proof (cases r)
    case (Some e)
    then show ?thesis using al create_with_stack_leaves [OF s] by (subst create_loop.simps) simp
  next
    case None
    let ?s = "reclaim_deferred_stacks_all s"
    have q: "stays v c ?s" using s by simp
    show ?thesis
    proof (cases "thread_ready_queue_empty ?s \<or> n \<ge> 4096")
      case True
      then show ?thesis using al None q release_part [OF q, of t]
        by (subst create_loop.simps) (auto simp: leaves_def leaves_part_def Let_def)
    next
      case False
      have "leaves v c (thread_yield (F_create t f a (n + 1) # ks) ?s \<bind> (\<lambda>(st, r). case r of
          Ret _ _ \<Rightarrow> create_loop ks t f a (n + 1) st | _ \<Rightarrow> Some (st, r)))"
        by (rule leaves_call [OF yield_leaves [OF q]])
          (use less.hyps [of "n + 1"] less.prems(2) False in \<open>auto split: outcome.splits\<close>)
      then show ?thesis using al None False by (subst create_loop.simps) (simp add: Let_def)
    qed
  qed
qed

lemma create_leaves:
  assumes s: "stays v c st" and k: "clean v ks" shows "leaves v c (thread_create ks p f a st)"
proof -
  have fc: "stays v c s" if "first_create st = Some (ok, s)" for ok s
  proof (rule core_first [OF that])
    fix r s0 assume a: "core s0 = core st" "core s = core (upd_thread main_thread (\<lambda>x. x\<lparr>head_joiner := r\<rparr>) s0)"
    show "stays v c s" using s by (simp add: stays_core [OF a(2)] stays_upd stays_core [OF a(1)])
  next
    assume "core s = core st"
    from stays_core [OF this] s show "stays v c s" by simp
  qed
  have "leaves v c (case thread_alloc s of (None, st) \<Rightarrow> Some (set_errno ENOMEM st, Ret (-1) No_out)
      | (Some newth, st) \<Rightarrow> (let st = (if stack_pool_empty st \<and> deferred_stacks st \<noteq> [] then reclaim_deferred_stacks_all st else st)
          in create_loop ks newth func a 0 st))" if "stays v c s" for s func
  proof (cases "thread_alloc s")
    case (Pair r s')
    have "stays v c s'" using that stays_core [OF core_alloc(4) [OF Pair]] by simp
    then show ?thesis using Pair k by (cases r) (auto simp: Let_def intro!: leave_intros create_loop_leaves)
  qed
  then show ?thesis using s fc
    by (cases f; cases "first_create st") (auto simp: thread_create_def leaves_def [of _ _ "Some _"] leaves_def [of _ _ None])
qed

section \<open>Steps\<close>

text \<open>The calls that change the mutex \<open>m\<close>.\<close>

fun on_mutex :: "oid \<Rightarrow> call \<Rightarrow> bool" where
  "on_mutex m (C_mutex_init x) \<longleftrightarrow> x = Some m"
| "on_mutex m (C_mutex_destroy x) \<longleftrightarrow> x = Some m"
| "on_mutex m (C_mutex_lock x) \<longleftrightarrow> x = Some m"
| "on_mutex m (C_mutex_unlock x) \<longleftrightarrow> x = Some m"
| "on_mutex m (C_cond_wait d x) \<longleftrightarrow> x = Some m"
| "on_mutex m _ \<longleftrightarrow> False"

lemma leaves_objects: "leaves v c res \<Longrightarrow> leaves v c (on_objects qs st res)"
  by (simp add: on_objects_def leaves_def)

lemma exec_call_leaves:
  assumes "stays v c st" "\<not> on_mutex (fst v) cl" shows "leaves v c (exec_call cl st)"
proof (cases cl)
  case C_process_exit
  then show ?thesis by (simp add: leaves_def)
qed (use assms in \<open>simp_all add: create_leaves exit_leaves join_leaves yield_leaves yield_to_leaves set_priority_leaves
    mutex_leaves sem_leaves cond_leaves signal_leaves leaves_objects\<close>)

lemma tick_leaves: "stays v c st \<Longrightarrow> leaves v c (deliver_sigvtalrm st)"
  unfolding deliver_sigvtalrm_def preemption_handler_def Let_def
  by (intro leaves_if leaves_Ret leaves_call yield_leaves) (auto intro: leave_intros split: outcome.splits)

lemma fault_leaves: "stays v c st \<Longrightarrow> leaves v c (deliver_sigsegv a st)"
  unfolding deliver_sigsegv_def sigsegv_handler_def Let_def
  by (intro leaves_if exit_leaves) (simp_all add: leave_simps leaves_def)

lemma unwind_leaves: "stays v c st \<Longrightarrow> clean v ks \<Longrightarrow> leaves v c (unwind ks i x st)"
proof (induction ks arbitrary: i x st)
  case (Cons k ks)
  show ?case
  proof (cases k)
    case (F_create newth func funcarg n)
    show ?thesis unfolding F_create unwind.simps
      by (rule leaves_call [OF create_loop_leaves]) (use Cons in \<open>auto split: outcome.splits\<close>)
  qed (use Cons in \<open>simp_all add: leaves_None\<close>)
qed (simp add: leaves_Ret)

lemma then_unwind_leaves: "leaves v c res \<Longrightarrow> clean v ks \<Longrightarrow> leaves v c (then_unwind ks res)"
  unfolding then_unwind_def by (rule leaves_call) (auto simp: unwind_leaves split: outcome.splits)

lemma resume_leaves: "stays v c st \<Longrightarrow> clean v ks \<Longrightarrow> leaves v c (resume ks st)"
proof (induction ks st rule: resume.induct)
  case (1 ks st)
  then show ?case by (simp add: thread_entry_def leaves_Ret)
next
  case (7 m ks st)
  then show ?case by (simp add: cond_wait_resume_def then_unwind_leaves cond_leaves)
qed (simp_all add: leaves_None unwind_leaves then_unwind_leaves join_resume_leaves signal_leaves)

section \<open>Executions with a mutex\<close>

text \<open>\<open>I\<close> are the threads inside the critical section of the mutex \<open>m\<close>: their \<open>thread_mutex_lock\<close> has
  returned 0 and they have not unlocked it since.  \<open>W\<close> are the threads that are suspended inside
  \<open>thread_mutex_lock\<close>.  Programs unlock a mutex only when they are inside, initialise and destroy it only
  when nobody uses it, and do not pass it to \<open>thread_cond_wait\<close>, which may return without the mutex.\<close>

fun disciplined :: "oid \<Rightarrow> tid set \<Rightarrow> tid set \<Rightarrow> sys \<Rightarrow> call \<Rightarrow> bool" where
  "disciplined m I W st (C_mutex_unlock x) \<longleftrightarrow> (x = Some m \<longrightarrow> current_thread st \<in> I)"
| "disciplined m I W st (C_mutex_init x) \<longleftrightarrow> (x = Some m \<longrightarrow> I = {} \<and> W = {})"
| "disciplined m I W st (C_mutex_destroy x) \<longleftrightarrow> (x = Some m \<longrightarrow> I = {} \<and> W = {})"
| "disciplined m I W st (C_cond_wait d x) \<longleftrightarrow> x \<noteq> Some m"
| "disciplined m I W st _ \<longleftrightarrow> True"

definition inside_after :: "oid \<Rightarrow> tid \<Rightarrow> call \<Rightarrow> outcome \<Rightarrow> tid set \<Rightarrow> tid set" where
  "inside_after m cur c r I =
     (if c = C_mutex_lock (Some m) \<and> r = Ret 0 No_out then insert cur I
      else if c = C_mutex_unlock (Some m) \<and> r = Ret 0 No_out then I - {cur} else I)"

definition waiting_after :: "oid \<Rightarrow> tid \<Rightarrow> call \<Rightarrow> outcome \<Rightarrow> tid set \<Rightarrow> tid set" where
  "waiting_after m cur c r W = (if c = C_mutex_lock (Some m) \<and> r = Switched then insert cur W else W)"

text \<open>A thread that is resumed inside \<open>thread_mutex_lock\<close> enters.\<close>

definition enters :: "sys \<Rightarrow> tid set \<Rightarrow> bool" where
  "enters st W \<longleftrightarrow> current_thread st \<in> W \<and> saved_ctx (thr st (current_thread st)) = [F_mutex_lock]"

inductive tracked :: "oid \<Rightarrow> sys \<Rightarrow> sys \<times> mode \<Rightarrow> tid set \<Rightarrow> tid set \<Rightarrow> bool" for m s0 where
  start: "tracked m s0 (s0, User) {} {}"
| call: "tracked m s0 (st, User) I W \<Longrightarrow> lib_call st c \<Longrightarrow> disciplined m I W st c \<Longrightarrow> exec_call c st = Some (st', r) \<Longrightarrow>
    tracked m s0 (st', mode_of r) (inside_after m (current_thread st) c r I) (waiting_after m (current_thread st) c r W)"
| tick: "tracked m s0 (st, User) I W \<Longrightarrow> deliver_sigvtalrm st = Some (st', r) \<Longrightarrow> tracked m s0 (st', mode_of r) I W"
| fault: "tracked m s0 (st, User) I W \<Longrightarrow> deliver_sigsegv a st = Some (st', r) \<Longrightarrow> tracked m s0 (st', mode_of r) I W"
| switch: "tracked m s0 (st, Switching) I W \<Longrightarrow> resume_current st = Some (st', r) \<Longrightarrow>
    tracked m s0 (st', mode_of r) (if enters st W then insert (current_thread st) I else I)
      (if enters st W then W - {current_thread st} else W)"

lemma tracked_reachable: "tracked m s0 s I W \<Longrightarrow> reachable lib_call s0 s"
proof (induction rule: tracked.induct)
  case start
  show ?case by (rule reachable.start)
qed (blast intro: reachable.step sys_step.call sys_step.tick sys_step.fault sys_step.switch)+

section \<open>The invariant\<close>

definition exclusive :: "oid \<Rightarrow> sys \<Rightarrow> tid set \<Rightarrow> tid set \<Rightarrow> bool" where
  "exclusive m st I W \<longleftrightarrow> (MutexQ m \<in> initialised st \<longrightarrow> m_locked st m \<in> {-1, 0, 1}) \<and> set (queues st (MutexQ m)) \<subseteq> W \<and>
     (\<forall>x \<in> I \<union> (W - set (queues st (MutexQ m))). \<forall>y \<in> I \<union> (W - set (queues st (MutexQ m))). x = y) \<and>
     (m_locked st m \<noteq> 1 \<longrightarrow> I = {} \<and> W = {}) \<and>
     (MutexQ m \<in> initialised st \<and> m_locked st m = 1 \<longrightarrow> I \<union> (W - set (queues st (MutexQ m))) \<noteq> {})"

definition parked :: "oid \<Rightarrow> sys \<Rightarrow> tid set \<Rightarrow> bool" where
  "parked m st W \<longleftrightarrow> (\<forall>t \<in> W. t \<in> active st \<and> saved_ctx (thr st t) = [F_mutex_lock]) \<and>
     (\<forall>t \<in> live st. F_cond_wait m \<notin> set (saved_ctx (thr st t)))"

fun tracked_inv :: "oid \<Rightarrow> sys \<times> mode \<Rightarrow> tid set \<Rightarrow> tid set \<Rightarrow> bool" where
  "tracked_inv m (st, User) I W \<longleftrightarrow> exclusive m st I W \<and> parked m st W \<and> current_thread st \<notin> W"
| "tracked_inv m (st, Switching) I W \<longleftrightarrow> exclusive m st I W \<and> parked m st W"
| "tracked_inv m (st, _) I W \<longleftrightarrow> True"

abbreviation view_of :: "oid \<Rightarrow> sys \<Rightarrow> lock_view" where
  "view_of m st \<equiv> (m, MutexQ m \<in> initialised st, m_locked st m, queues st (MutexQ m))"

lemma parked_stays: "parked m st W \<Longrightarrow> stays (view_of m st) (current_thread st) st"
  by (simp add: parked_def stays_def still_def)

text \<open>A step that leaves the mutex alone.\<close>

lemma tracked_leaves:
  assumes l: "leaves (view_of m st) (current_thread st) (Some (st', r))" and h: "honoured st (Some (st', r))"
    and p: "exclusive m st I W" "parked m st W" "current_thread st \<notin> W"
  shows "tracked_inv m (st', mode_of r) I W"
proof (cases "mode_of r \<in> {User, Switching}")
  case True
  have v: "still (view_of m st) st'" using l True by (auto simp: leaves_def stays_def)
  then have "exclusive m st' I W" using p(1) by (simp add: exclusive_def still_def)
  moreover have "undisturbed st st'" using h True by (auto simp: honoured_def honours_def)
  then have "t \<in> active st' \<and> saved_ctx (thr st' t) = [F_mutex_lock]" if "t \<in> W" for t
  proof -
    have t: "t \<in> active st - {current_thread st}" "saved_ctx (thr st t) = [F_mutex_lock]" using p(2,3) that by (auto simp: parked_def)
    show ?thesis using bspec [OF \<open>undisturbed st st'\<close> [unfolded undisturbed_def] t(1)] t(2) by simp
  qed
  then have "parked m st' W" using v by (simp add: parked_def still_def)
  moreover have "current_thread st' = current_thread st" if "mode_of r = User" using l that by (simp add: leaves_def stays_def)
  ultimately show ?thesis using True p(3) by auto
qed (cases r; simp)

text \<open>The calls on the mutex.\<close>

lemma revive_ctx: "revive q s = Some s' \<Longrightarrow> saved_ctx (thr s' t) = saved_ctx (thr s t)"
  by (auto simp: revive_def tailq_remove_Some upd_thread_def split: option.splits dest!: enqueue_fate(5) [where u = t])

lemma tracked_lock:
  assumes u: "user_inv {} st" and p: "exclusive m st I W" "parked m st W" "current_thread st \<notin> W"
    and o: "MutexQ m \<in> initialised st" and e: "thread_mutex_lock [] (Some m) st = Some (st', r)"
  shows "tracked_inv m (st', mode_of r) (inside_after m (current_thread st) (C_mutex_lock (Some m)) r I)
    (waiting_after m (current_thread st) (C_mutex_lock (Some m)) r W)"
proof -
  let ?c = "current_thread st"
  note i = user_invD [OF u]
  consider (free) "m_locked st m = 0" | (gone) "m_locked st m = -1" | (alone) "m_locked st m = 1" "ready_queue st = []"
    | (wait) n ns where "m_locked st m = 1" "ready_queue st = n # ns"
    using p(1) o by (cases "ready_queue st") (auto simp: exclusive_def)
  then show ?thesis
  proof cases
    case free
    then show ?thesis using e p by (auto simp: lock_free inside_after_def waiting_after_def exclusive_def parked_def active_def)
  next
    case gone
    then show ?thesis using e p by (auto simp: lock_destroyed inside_after_def waiting_after_def exclusive_def parked_def active_def)
  next
    case alone
    then show ?thesis using e p by (auto simp: lock_alone inside_after_def waiting_after_def exclusive_def parked_def active_def)
  next
    case wait
    from lock_wait [OF i(2) _ _ wait(2), of m "[]"] wait(1) e have s: "r = Switched" "saved_ctx (thr st' ?c) = [F_mutex_lock]"
      "queues st' (MutexQ m) = queues st (MutexQ m) @ [?c]" "m_locked st' = m_locked st" "live st' = live st" by auto
    note cm = mutex_lock_calm [OF i(2) e, unfolded calm_call_def, THEN conjunct1]
    have a: "active st' = active st" by (rule calm_active [OF i(2) cm])
    have "exclusive m st' I (insert ?c W)" using p(1,3) o wait(1) s(3,4) by (auto simp: exclusive_def)
    moreover have "parked m st' (insert ?c W)" unfolding parked_def
    proof (intro conjI ballI)
      fix t assume t: "t \<in> insert ?c W"
      show "t \<in> active st'" using t p(2) a current_active [OF i(2)] by (auto simp: parked_def)
      show "saved_ctx (thr st' t) = [F_mutex_lock]" using t p(2) s(2) calm_fields(10) [OF cm, of t] by (cases "t = ?c") (auto simp: parked_def)
    next
      fix t assume "t \<in> live st'"
      then show "F_cond_wait m \<notin> set (saved_ctx (thr st' t))"
        using p(2) s(2,5) calm_fields(10) [OF cm, of t] by (cases "t = ?c") (auto simp: parked_def)
    qed
    ultimately show ?thesis using s(1) by (simp add: inside_after_def waiting_after_def)
  qed
qed

lemma tracked_unlock:
  assumes u: "user_inv {} st" and p: "exclusive m st I W" "parked m st W" "current_thread st \<notin> W" and c: "current_thread st \<in> I"
    and e: "thread_mutex_unlock (Some m) st = Some (st', r)"
  shows "tracked_inv m (st', mode_of r) (inside_after m (current_thread st) (C_mutex_unlock (Some m)) r I) W"
proof -
  let ?c = "current_thread st" and ?Q = "queues st (MutexQ m)"
  note i = user_invD [OF u]
  have l: "m_locked st m = 1" using p(1) c by (auto simp: exclusive_def)
  have one: "x = ?c" if "x \<in> I \<union> (W - set ?Q)" for x using p(1) c that unfolding exclusive_def by blast
  have I: "I = {?c}" using one c by auto
  have W: "W = set ?Q"
  proof
    show "W \<subseteq> set ?Q" using one p(3) by blast
    show "set ?Q \<subseteq> W" using p(1) by (simp add: exclusive_def)
  qed
  show ?thesis
  proof (cases ?Q)
    case Nil
    then show ?thesis using e l p(2) I W by (auto simp: unlock_free inside_after_def exclusive_def parked_def active_def)
  next
    case (Cons w ws)
    from unlock_handoff [OF i(2) _ _ Cons] l e have s: "r = Ret 0 No_out" "queues st' (MutexQ m) = ws" "m_locked st' = m_locked st"
      "current_thread st' = ?c" "live st' = live st" by auto
    have "w \<notin> set ws" using queues_ok_distinct [OF sched_inv_queues_ok [OF i(2)], of "MutexQ m"] Cons by simp
    then have "exclusive m st' {} W" using l s(2,3) W Cons by (auto simp: exclusive_def)
    moreover have "parked m st' W"
    proof -
      have "saved_ctx (thr st' t) = saved_ctx (thr st t)" for t
      proof -
        from e l Cons obtain s1 where "revive (MutexQ m) (block st) = Some s1" "st' = unblock s1" by (auto simp: thread_mutex_unlock_def Let_def)
        then show ?thesis using revive_ctx [of "MutexQ m" "block st" s1 t] by simp
      qed
      moreover have "calm st st'" using mutex_unlock_calm [OF e, of "{}" "[]"] by (simp add: calm_call_def)
      from calm_active [OF i(2) this] have "active st' = active st" .
      ultimately show ?thesis using p(2) s(5) by (simp add: parked_def)
    qed
    ultimately show ?thesis using s(1,4) I p(3) by (simp add: inside_after_def)
  qed
qed

lemma tracked_setup:
  assumes p: "exclusive m st {} {}" "parked m st {}"
  shows "thread_mutex_init (Some m) st = Some (st', r) \<Longrightarrow> tracked_inv m (st', mode_of r) {} {}"
    "thread_mutex_destroy (Some m) st = Some (st', r) \<Longrightarrow> tracked_inv m (st', mode_of r) {} {}"
  using p by (auto simp: thread_mutex_init_def thread_mutex_destroy_def Let_def tailq_init_def exclusive_def parked_def active_def split: if_splits)

lemma tracked_call:
  assumes u: "user_inv {} st" and p: "exclusive m st I W" "parked m st W" "current_thread st \<notin> W"
    and c: "lib_call st c" "disciplined m I W st c" and e: "exec_call c st = Some (st', r)"
  shows "tracked_inv m (st', mode_of r) (inside_after m (current_thread st) c r I) (waiting_after m (current_thread st) c r W)"
proof (cases "on_mutex m c")
  case False
  have "inside_after m (current_thread st) c r I = I" "waiting_after m (current_thread st) c r W = W"
    using False by (auto simp: inside_after_def waiting_after_def)
  moreover have "leaves (view_of m st) (current_thread st) (Some (st', r))"
    using exec_call_leaves [OF parked_stays [OF p(2)], of c] False e by simp
  ultimately show ?thesis using tracked_leaves [OF _ _ p, of st' r] exec_call_honoured [OF u c(1)] e by simp
next
  case True
  then consider "c = C_mutex_lock (Some m)" | "c = C_mutex_unlock (Some m)" | "c = C_mutex_init (Some m)" | "c = C_mutex_destroy (Some m)"
    | d where "c = C_cond_wait d (Some m)" by (cases c) auto
  then show ?thesis
  proof cases
    case 1
    then show ?thesis using tracked_lock [OF u p] e by (simp add: on_objects_def split: if_splits)
  next
    case 2
    then show ?thesis using tracked_unlock [OF u p] c(2) e by (simp add: waiting_after_def on_objects_def split: if_splits)
  next
    case 3
    then show ?thesis using tracked_setup(1) [of m st st' r] p c(2) e by (simp add: inside_after_def waiting_after_def)
  next
    case 4
    then show ?thesis using tracked_setup(2) [of m st st' r] p c(2) e by (simp add: inside_after_def waiting_after_def on_objects_def split: if_splits)
  qed (use c(2) in simp)
qed

lemma tracked_switch:
  assumes sw: "switch_inv st" and p: "exclusive m st I W" "parked m st W" and e: "resume_current st = Some (st', r)"
  shows "tracked_inv m (st', mode_of r) (if enters st W then insert (current_thread st) I else I)
    (if enters st W then W - {current_thread st} else W)"
proof -
  let ?c = "current_thread st" and ?Q = "queues st (MutexQ m)"
  have en: "enters st W \<longleftrightarrow> ?c \<in> W" using p(2) by (auto simp: enters_def parked_def)
  have "?c \<notin> set ?Q" using sched_inv_current(3) [OF switch_invD(2) [OF sw]] by simp
  then have "I \<union> (W - set ?Q) = insert ?c I \<union> (W - {?c} - set ?Q)" if "?c \<in> W" using that by auto
  then have "exclusive m st (insert ?c I) (W - {?c})" if "?c \<in> W"
    using p(1) \<open>?c \<notin> set ?Q\<close> that unfolding exclusive_def by (metis Diff_empty Diff_insert0 insert_not_empty subset_Diff_insert empty_iff)
  then have "exclusive m st (if enters st W then insert ?c I else I) (if enters st W then W - {?c} else W)" using p(1) en by simp
  moreover have "parked m st (if enters st W then W - {?c} else W)" using p(2) by (auto simp: parked_def)
  moreover have "?c \<notin> (if enters st W then W - {?c} else W)" using en by simp
  moreover have "?c \<in> live st" using switch_invD(2) [OF sw] by (simp add: sched_inv_def)
  then have "leaves (view_of m st) ?c (Some (st', r))"
    using resume_leaves [OF parked_stays [OF p(2)], of "saved_ctx (thr st ?c)"] p(2) e by (auto simp: resume_current_def parked_def)
  moreover have "honoured st (Some (st', r))" using resume_honoured [OF sw] e by simp
  ultimately show ?thesis by (blast intro: tracked_leaves)
qed

lemma tracked_keeps:
  assumes "tracked m (initial_sys env mem) s I W" "os_sane env"
  shows "tracked_inv m s I W"
  using assms
proof (induction rule: tracked.induct)
  case start
  show ?case by (simp add: exclusive_def parked_def initial_sys_def main_thread_init_def)
next
  case (call st I W c st' r)
  have "user_inv {} st" using reachable_user [OF call.prems tracked_reachable [OF call.hyps(1)]] .
  then show ?case using tracked_call [of st m I W c st' r] call by simp
next
  case (tick st I W st' r)
  have u: "user_inv {} st" using reachable_user [OF tick.prems tracked_reachable [OF tick.hyps(1)]] .
  have p: "exclusive m st I W" "parked m st W" "current_thread st \<notin> W" using tick by simp_all
  show ?case using tracked_leaves [OF _ _ p, of st' r] tick_leaves [OF parked_stays [OF p(2)]] tick_honoured [OF u] tick.hyps(2) by simp
next
  case (fault st I W a st' r)
  have u: "user_inv {} st" using reachable_user [OF fault.prems tracked_reachable [OF fault.hyps(1)]] .
  have p: "exclusive m st I W" "parked m st W" "current_thread st \<notin> W" using fault by simp_all
  show ?case using tracked_leaves [OF _ _ p, of st' r] fault_leaves [OF parked_stays [OF p(2)], of a] fault_honoured [OF u, of a] fault.hyps(2) by simp
next
  case (switch st I W st' r)
  have "switch_inv st" using reachable_switch [OF switch.prems tracked_reachable [OF switch.hyps(1)]] .
  then show ?case using tracked_switch [of st m I W st' r] switch by simp
qed

section \<open>The mutex as an abstract lock\<close>

text \<open>The history determines the owner: the thread inside, or the waiter that was taken off the queue and
  has not returned from \<open>thread_mutex_lock\<close> yet.\<close>

definition lock_abs :: "oid \<Rightarrow> sys \<Rightarrow> tid set \<Rightarrow> tid set \<Rightarrow> tid alock \<Rightarrow> bool" where
  "lock_abs m st I W a \<longleftrightarrow> waiters a = queues st (MutexQ m) \<and>
     set_option (owner a) = I \<union> (W - set (queues st (MutexQ m))) \<and> m_locked st m = (if owner a = None then 0 else 1)"

lemma lock_abs_exists:
  assumes p: "exclusive m st I W" and o: "MutexQ m \<in> initialised st" "m_locked st m \<noteq> -1"
  shows "\<exists>a. lock_abs m st I W a"
proof (cases "m_locked st m = 1")
  case True
  let ?O = "I \<union> (W - set (queues st (MutexQ m)))"
  from p o(1) True obtain x where "x \<in> ?O" unfolding exclusive_def by blast
  moreover have "\<forall>x \<in> ?O. \<forall>y \<in> ?O. x = y" using p by (simp add: exclusive_def)
  ultimately have "?O = {x}" by blast
  with True have "lock_abs m st I W \<lparr>owner = Some x, waiters = queues st (MutexQ m)\<rparr>" by (simp add: lock_abs_def)
  then show ?thesis ..
next
  case False
  with p o have "lock_abs m st I W \<lparr>owner = None, waiters = []\<rparr>" by (auto simp: lock_abs_def exclusive_def)
  then show ?thesis ..
qed

lemma lock_abs_owner: "lock_abs m st I W a \<Longrightarrow> owner a = Some t \<longleftrightarrow> I \<union> (W - set (queues st (MutexQ m))) = {t}"
  by (cases "owner a") (auto simp: lock_abs_def)

lemma lock_simulates:
  assumes i: "sched_inv st" and a: "lock_abs m st I W a" and w: "current_thread st \<notin> W"
  shows "\<exists>st' r. thread_mutex_lock [] (Some m) st = Some (st', r) \<and>
    (if owner a = None then r = Ret 0 No_out \<and> lock_abs m st' (insert (current_thread st) I) W (alock_lock (current_thread st) a)
     else if ready_queue st = [] then r = Ret (-1) No_out \<and> lock_abs m st' I W a
     else r = Switched \<and> current_thread st' = hd (ready_queue st) \<and>
       lock_abs m st' I (insert (current_thread st) W) (alock_lock (current_thread st) a))"
proof (cases "owner a")
  case None
  then show ?thesis using a by (auto simp: lock_abs_def lock_free alock_lock_def)
next
  case (Some t)
  then have l: "m_locked st m = 1" using a by (simp add: lock_abs_def)
  show ?thesis
  proof (cases "ready_queue st")
    case Nil
    then show ?thesis using a l Some by (auto simp: lock_abs_def lock_alone)
  next
    case (Cons n ns)
    from lock_wait [OF i _ _ Cons, of m "[]"] l obtain st' where st': "thread_mutex_lock [] (Some m) st = Some (st', Switched)"
      "current_thread st' = n" "m_locked st' = m_locked st"
      "queues st' (MutexQ m) = queues st (MutexQ m) @ [current_thread st]" by auto
    have "I \<union> (insert (current_thread st) W - set (queues st' (MutexQ m))) = I \<union> (W - set (queues st (MutexQ m)))"
      using w st'(4) by auto
    then have "lock_abs m st' I (insert (current_thread st) W) (alock_lock (current_thread st) a)"
      using a st'(3,4) Some by (simp add: lock_abs_def alock_lock_def)
    then show ?thesis using st'(1,2) Some Cons by simp
  qed
qed

lemma unlock_simulates:
  assumes i: "sched_inv st" and a: "lock_abs m st I W a" and w: "current_thread st \<notin> W" and c: "current_thread st \<in> I"
    and q: "set (queues st (MutexQ m)) \<subseteq> W"
  shows "\<exists>st'. thread_mutex_unlock (Some m) st = Some (st', Ret 0 No_out) \<and>
    lock_abs m st' (I - {current_thread st}) W (alock_unlock a) \<and>
    set (ready_queue st') = set (ready_queue st) \<union> set_option (owner (alock_unlock a))"
proof -
  let ?c = "current_thread st" and ?Q = "queues st (MutexQ m)"
  obtain t where t: "owner a = Some t" using a c by (cases "owner a") (auto simp: lock_abs_def)
  then have o: "I \<union> (W - set ?Q) = {t}" using lock_abs_owner [OF a] by simp
  have eq: "x = t" if "x \<in> I \<union> (W - set ?Q)" for x using that unfolding o by simp
  have ct: "?c = t" using eq c by blast
  have I: "I = {?c}" unfolding ct using eq c ct by blast
  have W: "W = set ?Q" using eq w q ct by blast
  have l: "m_locked st m = 1" using a t by (simp add: lock_abs_def)
  show ?thesis
  proof (cases ?Q)
    case Nil
    then show ?thesis using a l I W by (auto simp: lock_abs_def unlock_free alock_unlock_def)
  next
    case (Cons x xs)
    have "x \<notin> set xs" using queues_ok_distinct [OF sched_inv_queues_ok [OF i], of "MutexQ m"] Cons by simp
    with unlock_handoff [OF i _ _ Cons] l a I W Cons show ?thesis by (auto simp: lock_abs_def alock_unlock_def)
  qed
qed

lemma resume_simulates:
  assumes i: "sched_inv st" and a: "lock_abs m st I W a" and p: "parked m st W" and c: "current_thread st \<in> W"
  shows "owner a = Some (current_thread st)"
    "\<exists>st'. resume_current st = Some (st', Ret 0 No_out) \<and> lock_abs m st' (insert (current_thread st) I) (W - {current_thread st}) a"
proof -
  let ?c = "current_thread st" and ?Q = "queues st (MutexQ m)"
  have cq: "?c \<notin> set ?Q" using mutex_queue_apart(1) [OF i] by blast
  then have "?c \<in> set_option (owner a)" using a c by (auto simp: lock_abs_def)
  then show o: "owner a = Some ?c" by simp
  have "resume_current st = Some (unblock st, Ret 0 No_out)" using p c by (simp add: parked_def resume_current_def)
  moreover have "insert ?c I \<union> (W - {?c} - set ?Q) = I \<union> (W - set ?Q)" using c cq by auto
  then have "lock_abs m (unblock st) (insert ?c I) (W - {?c}) a" using a by (simp add: lock_abs_def)
  ultimately show "\<exists>st'. resume_current st = Some (st', Ret 0 No_out) \<and> lock_abs m st' (insert ?c I) (W - {?c}) a" by blast
qed

end
