(* ===== verification/Fairness.thy ===== *)
theory Fairness
  imports Yielding
begin

text \<open>
  No thread starves under the priority policy.  Every yield raises a ready thread by one; once it has
  the highest priority, nobody can be inserted ahead of it and every yield removes one thread
  from in front of it.
\<close>

section \<open>Priorities after a yield\<close>

lemma enqueue_prio: "thread_scheduler_enqueue t st = Some st' \<Longrightarrow> prio st' u = prio st u \<and> sched_policy st' = sched_policy st"
  by (auto simp: thread_scheduler_enqueue_def tailq_insert_tail_def tailq_insert_before_def tailq_link_Some upd_thread_def
      split: if_splits policy.splits option.splits)

lemma pick_prio: "thread_scheduler_pick_next st = Some (n, st') \<Longrightarrow> prio st' u = prio st u \<and> sched_policy st' = sched_policy st"
  by (auto simp: thread_scheduler_pick_next_def tailq_remove_Some upd_thread_def split: option.splits)

lemma yield_prio:
  assumes inv: "sched_inv st" and y: "thread_yield ks st = Some (st', r)"
  shows "prio st' u = prio (aged (block st)) u" "sched_policy st' = sched_policy st"
proof -
  let ?a = "aged (block st)"
  have pol: "sched_policy ?a = sched_policy st" using aged_sel(4) [of "block st"] inv by simp
  from y obtain n s1 where p: "thread_scheduler_pick_next ?a = Some (n, s1)" by (auto simp: yield_aged Let_def)
  have "prio st' u = prio s1 u \<and> sched_policy st' = sched_policy s1"
  proof (cases n)
    case None
    then show ?thesis using y p by (auto simp: yield_aged Let_def)
  next
    case (Some m)
    then show ?thesis using y p
      by (auto simp: yield_aged Let_def swap_thread_eq upd_thread_def split: if_splits dest!: enqueue_prio [where u = u])
  qed
  then show "prio st' u = prio ?a u" "sched_policy st' = sched_policy st" using pick_prio [OF p, of u] pol by simp_all
qed

section \<open>The threads ahead\<close>

definition ahead :: "tid \<Rightarrow> sys \<Rightarrow> nat" where
  "ahead t st = length (takeWhile (\<lambda>x. x \<noteq> t) (ready_queue st))"

lemma ahead_less: "t \<in> set (ready_queue st) \<Longrightarrow> ahead t st < length (ready_queue st)"
proof -
  assume "t \<in> set (ready_queue st)"
  then have "takeWhile (\<lambda>x. x \<noteq> t) (ready_queue st) \<noteq> ready_queue st" by (metis (mono_tags) set_takeWhileD)
  then show ?thesis unfolding ahead_def
    by (metis length_takeWhile_le le_neq_implies_less takeWhile_eq_take take_all_iff order_refl)
qed

lemma insert_behind:
  assumes "desc_sorted key xs" "t \<in> set xs" "key c \<le> key t" "c \<noteq> t"
  shows "takeWhile (\<lambda>x. x \<noteq> t) (desc_insert key c xs) = takeWhile (\<lambda>x. x \<noteq> t) xs"
  using assms by (induction xs) (auto simp: desc_insert_Cons)

lemma length_desc_insert [simp]: "length (desc_insert key t xs) = Suc (length xs)"
  by (induction xs) (simp_all add: desc_insert_Cons)

text \<open>One yield while \<open>t\<close> waits.\<close>

lemma yield_while_waiting:
  assumes inv: "sched_inv st" and p: "sched_policy st = THREAD_SCHED_PRIO" and t: "t \<in> set (ready_queue st)"
  shows "\<exists>st' r. thread_yield ks st = Some (st', r) \<and> (current_thread st' = t \<or>
    sched_inv st' \<and> sched_policy st' = THREAD_SCHED_PRIO \<and> t \<in> set (ready_queue st') \<and>
    length (ready_queue st') = length (ready_queue st) \<and> prio st' t = bumped (prio st t) \<and>
    (prio st t = 100 \<longrightarrow> Suc (ahead t st') = ahead t st))"
proof -
  let ?k = "prio (aged (block st))" and ?c = "current_thread st"
  obtain n ns where q: "ready_queue st = n # ns" using t by (cases "ready_queue st") auto
  have tc: "t \<noteq> ?c" using sched_inv_current(3) [OF inv, of ReadyQ] t by auto
  have kt: "?k x = bumped (prio st x)" if "x \<in> set (ready_queue st)" for x using aged_prio(1) [OF inv p that] .
  have kc: "?k ?c = lowered (prio st ?c)" using aged_prio(2) [OF inv p] .
  have srt: "desc_sorted (prio st) (n # ns)" using inv p q by (auto simp: sched_inv_def flight_inv_def prio_ok_def)
  show ?thesis
  proof (cases "?k n \<le> ?k ?c")
    case True
    from yield_stay [OF inv q p True, of ks] obtain st' where st': "thread_yield ks st = Some (st', Ret 0 No_out)" "sched_inv st'"
      "ready_queue st' = desc_insert ?k n ns" "prio st' = ?k" "sched_policy st' = sched_policy st" by blast
    have "prio st t \<le> prio st n" using srt t q by auto
    moreover have "prio st ?c \<le> 100"
      using sched_inv_prio_range [OF inv, of ?c] inv by (simp add: sched_inv_def THREAD_MAX_PRIORITY_def)
    ultimately have "prio st t \<noteq> 100" using True kt [of n] q kc by (auto simp: bumped_def lowered_def)
    then show ?thesis using st' p t q fun_cong [OF st'(4), of t] kt [OF t] by auto
  next
    case False
    then have "?k n > ?k ?c" by simp
    with yield_switch [OF inv q, of ks] p obtain st' where st': "thread_yield ks st = Some (st', Switched)" "sched_inv st'"
      "current_thread st' = n" "ready_queue st' = desc_insert ?k ?c ns" by auto
    note y = yield_prio [OF inv st'(1)]
    show ?thesis
    proof (cases "n = t")
      case False
      then have tn: "t \<in> set ns" using t q by simp
      have "Suc (ahead t st') = ahead t st" if m: "prio st t = 100"
      proof -
        have "desc_sorted ?k ns"
          by (rule desc_sorted_mono [of "prio st"]) (use srt kt q in \<open>auto simp: bumped_def\<close>)
        moreover have "?k ?c \<le> ?k t" using kt [OF t] kc m sched_inv_prio_range [OF inv, of ?c] inv
          by (simp add: bumped_def lowered_def sched_inv_def THREAD_MAX_PRIORITY_def)
        ultimately show ?thesis using insert_behind [of ?k ns t ?c] tn tc False q st'(4) by (simp add: ahead_def)
      qed
      then show ?thesis using st' y(1) [of t] y(2) p kt [OF t] tn q by auto
    qed (use st' in auto)
  qed
qed

section \<open>Every ready thread runs\<close>

lemma top_runs:
  "sched_inv st \<Longrightarrow> sched_policy st = THREAD_SCHED_PRIO \<Longrightarrow> t \<in> set (ready_queue st) \<Longrightarrow> prio st t = 100 \<Longrightarrow>
   \<exists>k st'. k \<le> Suc (ahead t st) \<and> repeat_op k (thread_yield ks) st = Some st' \<and> current_thread st' = t"
proof (induction "ahead t st" arbitrary: st)
  case 0
  from yield_while_waiting [OF 0(2-4), of ks] 0(1,5) obtain st' r where "thread_yield ks st = Some (st', r)" "current_thread st' = t" by auto
  then show ?case by (intro exI [of _ 1]) auto
next
  case (Suc m)
  from yield_while_waiting [OF Suc(3-5), of ks] obtain s1 r where y: "thread_yield ks st = Some (s1, r)"
    and c: "current_thread s1 = t \<or> sched_inv s1 \<and> sched_policy s1 = THREAD_SCHED_PRIO \<and> t \<in> set (ready_queue s1) \<and>
      prio s1 t = 100 \<and> Suc (ahead t s1) = ahead t st" using Suc(6) by (auto simp: bumped_def)
  from c show ?case
  proof
    assume "current_thread s1 = t"
    then show ?thesis using y by (intro exI [of _ 1]) auto
  next
    assume a: "sched_inv s1 \<and> sched_policy s1 = THREAD_SCHED_PRIO \<and> t \<in> set (ready_queue s1) \<and>
      prio s1 t = 100 \<and> Suc (ahead t s1) = ahead t st"
    then have "m = ahead t s1" using Suc(2) by simp
    from Suc(1) [OF this] a obtain k st' where "k \<le> Suc (ahead t s1)" "repeat_op k (thread_yield ks) s1 = Some st'" "current_thread st' = t" by blast
    then show ?thesis using y a by (intro exI [of _ "Suc k"]) auto
  qed
qed

lemma prio_bounded_wait:
  "sched_inv st \<Longrightarrow> sched_policy st = THREAD_SCHED_PRIO \<Longrightarrow> t \<in> set (ready_queue st) \<Longrightarrow>
   \<exists>k st'. k \<le> nat (100 - prio st t) + length (ready_queue st) \<and> repeat_op k (thread_yield ks) st = Some st' \<and> current_thread st' = t"
proof (induction "nat (100 - prio st t)" arbitrary: st)
  case 0
  have "prio st t \<le> 100" using sched_inv_prio_range [OF 0(2) sched_inv_ready_live [OF 0(2,4)]] by (simp add: THREAD_MAX_PRIORITY_def)
  with 0(1) have "prio st t = 100" by simp
  from top_runs [OF 0(2-4) this, of ks] obtain k st' where k: "k \<le> Suc (ahead t st)" "repeat_op k (thread_yield ks) st = Some st'"
    "current_thread st' = t" by blast
  have "k \<le> nat (100 - prio st t) + length (ready_queue st)" using k(1) ahead_less [OF 0(4)] by simp
  with k(2,3) show ?case by blast
next
  case (Suc m)
  from yield_while_waiting [OF Suc(3-5), of ks] obtain s1 r where y: "thread_yield ks st = Some (s1, r)"
    and c: "current_thread s1 = t \<or> sched_inv s1 \<and> sched_policy s1 = THREAD_SCHED_PRIO \<and> t \<in> set (ready_queue s1) \<and>
      length (ready_queue s1) = length (ready_queue st) \<and> prio s1 t = bumped (prio st t)" by blast
  from c show ?case
  proof
    assume "current_thread s1 = t"
    moreover have "Suc 0 \<le> length (ready_queue st)" using Suc(5) by (cases "ready_queue st") auto
    ultimately show ?thesis using y by (intro exI [of _ "Suc 0"] exI [of _ s1]) simp
  next
    assume a: "sched_inv s1 \<and> sched_policy s1 = THREAD_SCHED_PRIO \<and> t \<in> set (ready_queue s1) \<and>
      length (ready_queue s1) = length (ready_queue st) \<and> prio s1 t = bumped (prio st t)"
    then have m: "m = nat (100 - prio s1 t)" "nat (100 - prio st t) = Suc (nat (100 - prio s1 t))"
      using Suc(2) by (auto simp: bumped_def)
    from Suc(1) [OF m(1)] a obtain k st' where "k \<le> nat (100 - prio s1 t) + length (ready_queue s1)"
      "repeat_op k (thread_yield ks) s1 = Some st'" "current_thread st' = t" by blast
    then show ?thesis using y a m(2) by (intro exI [of _ "Suc k"]) auto
  qed
qed

end
