(* ===== verification/Linked_Queue.thy ===== *)
theory Linked_Queue
  imports Scheduler
begin

text \<open>
  The ready queue of \<open>src/scheduler.c\<close> on its link fields: enqueueing, picking and aging as the code
  does them, by following and writing pointers.  Each operation implements the one of \<open>Scheduler\<close>,
  which reads the queue as a list; in particular the two loops end.
\<close>

section \<open>Definitions\<close>

text \<open>The fields that the operations use: the queue heads and links, \<open>in_ready_queue\<close> and \<open>priority\<close>.\<close>

record links =
  l_heap :: "(qid, tid) tq_heap"
  l_queued :: "tid \<Rightarrow> bool"
  l_priority :: "tid \<Rightarrow> int"

text \<open>The loop of the priority policy: the first thread from \<open>cursor\<close> on that \<open>t\<close> outranks.\<close>

partial_function (option) foreach_outranked :: "links \<Rightarrow> tid \<Rightarrow> tid option \<Rightarrow> tid option option" where
  "foreach_outranked l t cursor =
     (case cursor of
        None \<Rightarrow> Some None
      | Some c \<Rightarrow> if l_priority l t > l_priority l c then Some (Some c)
                 else foreach_outranked l t (tqe_next (l_heap l) c))"

declare foreach_outranked.simps [code]

definition enqueue_linked :: "policy \<Rightarrow> tid \<Rightarrow> links \<Rightarrow> links option" where
  "enqueue_linked pol t l =
     (if l_queued l t then Some l
      else case pol of
        THREAD_SCHED_FIFO \<Rightarrow>
          Some (l\<lparr>l_queued := (l_queued l)(t := True), l_heap := TAILQ_INSERT_TAIL ReadyQ t (l_heap l)\<rparr>)
      | THREAD_SCHED_PRIO \<Rightarrow> do {
          cursor \<leftarrow> foreach_outranked l t (TAILQ_FIRST ReadyQ (l_heap l));
          (case cursor of
             Some c \<Rightarrow> Some (l\<lparr>l_queued := (l_queued l)(t := True), l_heap := TAILQ_INSERT_BEFORE c t (l_heap l)\<rparr>)
           | None \<Rightarrow> Some (l\<lparr>l_queued := (l_queued l)(t := True), l_heap := TAILQ_INSERT_TAIL ReadyQ t (l_heap l)\<rparr>))
        })"

definition pick_next_linked :: "links \<Rightarrow> tid option \<times> links" where
  "pick_next_linked l =
     (if TAILQ_EMPTY ReadyQ (l_heap l) then (None, l)
      else case TAILQ_FIRST ReadyQ (l_heap l) of
        None \<Rightarrow> (None, l)
      | Some nxt \<Rightarrow> (Some nxt, l\<lparr>l_heap := TAILQ_REMOVE ReadyQ nxt (l_heap l), l_queued := (l_queued l)(nxt := False)\<rparr>))"

text \<open>The aging loop of \<open>thread_yield\<close>, with its body apart.\<close>

definition raise_linked :: "tid \<Rightarrow> links \<Rightarrow> links" where
  "raise_linked t l =
     (let l = l\<lparr>l_priority := (l_priority l)(t := l_priority l t + THREAD_WAIT)\<rparr>
      in if l_priority l t > THREAD_MAX_PRIORITY
         then l\<lparr>l_priority := (l_priority l)(t := THREAD_MAX_PRIORITY)\<rparr> else l)"

partial_function (option) age_linked :: "tid option \<Rightarrow> links \<Rightarrow> links option" where
  "age_linked cursor l =
     (case cursor of
        None \<Rightarrow> Some l
      | Some t \<Rightarrow> (let l = raise_linked t l in age_linked (tqe_next (l_heap l) t) l))"

declare age_linked.simps [code]

section \<open>Refinement\<close>

definition links_of :: "sys \<Rightarrow> links \<Rightarrow> bool" where
  "links_of st l \<longleftrightarrow> tq_rep (l_heap l) (queues st) \<and> l_queued l = (\<lambda>t. in_ready_queue (thr st t)) \<and> l_priority l = prio st"

text \<open>Following the links from a node of a queue.\<close>

lemma tq_list_next:
  assumes "tq_list h q (as @ t # bs)"
  shows "tqe_next h t = (case bs of [] \<Rightarrow> None | b # _ \<Rightarrow> Some b)"
  using tq_list_split(2) [OF assms] .

abbreviation head_of :: "'a list \<Rightarrow> 'a option" where
  "head_of xs \<equiv> (case xs of [] \<Rightarrow> None | x # _ \<Rightarrow> Some x)"

lemma foreach_outranked_find:
  assumes "tq_list (l_heap l) q (as @ bs)"
  shows "foreach_outranked l t (head_of bs) = Some (find (\<lambda>c. l_priority l t > l_priority l c) bs)"
  using assms
proof (induction bs arbitrary: as)
  case Nil
  then show ?case by (subst foreach_outranked.simps) simp
next
  case (Cons b bs)
  then have "foreach_outranked l t (head_of bs) = Some (find (\<lambda>c. l_priority l t > l_priority l c) bs)"
    using Cons.IH [of "as @ [b]"] by simp
  then show ?case using tq_list_next [OF Cons.prems] by (subst foreach_outranked.simps) simp
qed

lemma enqueue_linked_refines:
  assumes l: "links_of st l" and ok: "queues_ok st" and e: "thread_scheduler_enqueue t st = Some st'"
  shows "\<exists>l'. enqueue_linked (sched_policy st) t l = Some l' \<and> links_of st' l'"
proof (cases "in_ready_queue (thr st t)")
  case True
  then show ?thesis using l e by (auto simp: thread_scheduler_enqueue_def enqueue_linked_def links_of_def)
next
  case False
  let ?u = "upd_thread t (\<lambda>x. x\<lparr>in_ready_queue := True\<rparr>) st"
  have rep: "tq_rep (l_heap l) (queues st)" and q: "\<not> l_queued l t" using l False by (simp_all add: links_of_def)
  have fi: "foreach_outranked l t (TAILQ_FIRST ReadyQ (l_heap l)) = Some (find (\<lambda>c. prio st t > prio st c) (ready_queue st))"
    using foreach_outranked_find [of l ReadyQ "[]" "ready_queue st" t] tq_repD(1) [OF rep, of ReadyQ] l
    by (simp add: tq_rep_FIRST [OF rep] links_of_def)
  have relinked: "links_of st' (l\<lparr>l_queued := (l_queued l)(t := True), l_heap := h\<rparr>)"
    if "tailq_link ReadyQ t xs ?u = Some st'" "tq_rep h ((queues st)(ReadyQ := xs))" for h xs
    using that l by (auto simp: tailq_link_Some links_of_def upd_thread_def fun_eq_iff)
  have new: "t \<notin> set (queues st q)" if "tailq_link ReadyQ t xs ?u = Some st'" for xs q
    using that queues_ok_mem [OF ok, of t q] by (auto simp: tailq_link_Some upd_thread_def)
  show ?thesis
  proof (cases "\<exists>c. sched_policy st = THREAD_SCHED_PRIO \<and> find (\<lambda>c. prio st t > prio st c) (ready_queue st) = Some c")
    case True
    then obtain c where p: "sched_policy st = THREAD_SCHED_PRIO" and c: "find (\<lambda>c. prio st t > prio st c) (ready_queue st) = Some c"
      by blast
    from c have cq: "c \<in> set (ready_queue st)" by (auto simp: find_Some_iff)
    from e c p \<open>\<not> in_ready_queue (thr st t)\<close> have lk: "tailq_link ReadyQ t (list_insert_before c t (ready_queue st)) ?u = Some st'"
      by (auto simp: thread_scheduler_enqueue_def tailq_insert_before_def upd_thread_def split: if_splits)
    from relinked [OF lk tq_rep_INSERT_BEFORE [OF rep cq new [OF lk]]] show ?thesis using p q fi c by (auto simp: enqueue_linked_def)
  next
    case False
    from e False \<open>\<not> in_ready_queue (thr st t)\<close> have lk: "tailq_link ReadyQ t (ready_queue st @ [t]) ?u = Some st'"
      by (auto simp: thread_scheduler_enqueue_def tailq_insert_tail_def upd_thread_def split: if_splits policy.splits option.splits)
    from relinked [OF lk tq_rep_INSERT_TAIL [OF rep new [OF lk]]] show ?thesis
      using q fi False by (auto simp: enqueue_linked_def split: policy.splits option.splits)
  qed
qed

lemma pick_next_linked_refines:
  assumes l: "links_of st l" and e: "thread_scheduler_pick_next st = Some (n, st')" and ok: "queues_ok st"
  shows "\<exists>l'. pick_next_linked l = (n, l') \<and> links_of st' l'"
proof (cases "ready_queue st")
  case Nil
  then show ?thesis using l e by (auto simp: thread_scheduler_pick_next_def tailq_first_def pick_next_linked_def links_of_def tq_rep_EMPTY)
next
  case (Cons t ts)
  have rep: "tq_rep (l_heap l) (queues st)" using l by (simp add: links_of_def)
  have n: "n = Some t" and st': "tailq_remove ReadyQ t st = Some s1 \<Longrightarrow> st' = upd_thread t (\<lambda>x. x\<lparr>in_ready_queue := False\<rparr>) s1" for s1
    using e Cons by (auto simp: thread_scheduler_pick_next_def tailq_first_def)
  from e Cons obtain s1 where s1: "tailq_remove ReadyQ t st = Some s1"
    by (auto simp: thread_scheduler_pick_next_def tailq_first_def)
  have "tq_rep (TAILQ_REMOVE ReadyQ t (l_heap l)) ((queues st)(ReadyQ := remove1 t (ready_queue st)))"
    using tq_rep_REMOVE [OF rep, of t ReadyQ] Cons by simp
  then show ?thesis using l s1 st' [OF s1] n Cons
    by (auto simp: pick_next_linked_def tq_rep_EMPTY [OF rep] tq_rep_FIRST [OF rep] links_of_def tailq_remove_Some upd_thread_def fun_eq_iff)
qed

lemma raise_linked_heap [simp]: "l_heap (raise_linked t l) = l_heap l"
  by (simp add: raise_linked_def Let_def)

lemma age_linked_fold:
  assumes "tq_list (l_heap l) q (as @ bs)"
  shows "age_linked (head_of bs) l = Some (fold raise_linked bs l)"
  using assms
proof (induction bs arbitrary: as l)
  case Nil
  then show ?case by (subst age_linked.simps) simp
next
  case (Cons b bs)
  have "tq_list (l_heap (raise_linked b l)) q ((as @ [b]) @ bs)" using Cons.prems by simp
  from Cons.IH [OF this] show ?case
    using tq_list_next [OF Cons.prems] by (subst age_linked.simps) (simp add: Let_def)
qed

lemma age_linked_refines:
  assumes l: "links_of st l"
  shows "\<exists>l'. age_linked (TAILQ_FIRST ReadyQ (l_heap l)) l = Some l' \<and> links_of (age_waiting st) l'"
proof -
  let ?g = "\<lambda>t. upd_thread t (\<lambda>x. let p = priority x + THREAD_WAIT
    in x\<lparr>priority := (if p > THREAD_MAX_PRIORITY then THREAD_MAX_PRIORITY else p)\<rparr>)"
  have "links_of (fold ?g ts s) (fold raise_linked ts k)" if "links_of s k" for ts s k
    using that
  proof (induction ts arbitrary: s k)
    case (Cons t ts)
    have "links_of (?g t s) (raise_linked t k)"
      using Cons.prems by (auto simp: links_of_def raise_linked_def upd_thread_def Let_def fun_eq_iff)
    then show ?case using Cons.IH by simp
  qed simp
  moreover have rep: "tq_rep (l_heap l) (queues st)" using l by (simp add: links_of_def)
  moreover have "age_linked (TAILQ_FIRST ReadyQ (l_heap l)) l = Some (fold raise_linked (ready_queue st) l)"
    using age_linked_fold [of l ReadyQ "[]" "ready_queue st"] tq_repD(1) [OF rep, of ReadyQ] by (simp add: tq_rep_FIRST [OF rep])
  ultimately show ?thesis using l by (simp add: age_waiting_def)
qed

end
