(* ===== verification/Fast_Context.thy ===== *)
theory Fast_Context
  imports Prelude "HOL-Library.Word"
begin

text \<open>
  The context switch of \<open>include/context.h\<close> and \<open>src/context.S\<close> on both architectures.  The
  assembly routines are lists of instructions, one constructor per instruction form of the
  source, executed on registers and a memory of 64-bit cells.  A memory operand is
  base register plus displacement, as in the source; all operands of these routines are eight
  bytes wide and eight-byte aligned relative to their base.  The address of the label
  \<open>.Lresume\<close> is a parameter.
\<close>

unbundle bit_operations_syntax

type_synonym w64 = "64 word"
type_synonym memory = "w64 \<Rightarrow> w64"

text \<open>\<open>sp &= ~(uintptr_t)15\<close>\<close>

definition align16 :: "w64 \<Rightarrow> w64" where
  "align16 sp = sp AND NOT 15"

section \<open>x86-64\<close>

record fast_ctx_x86 =
  rip :: w64
  rsp :: w64
  rbx :: w64
  rbp :: w64
  r12 :: w64
  r13 :: w64
  r14 :: w64
  r15 :: w64

text \<open>The memory layout that the compiler gives the structure.\<close>

definition store_x86 :: "w64 \<Rightarrow> fast_ctx_x86 \<Rightarrow> memory \<Rightarrow> memory" where
  "store_x86 a c m = m(a := rip c, a + 8 := rsp c, a + 16 := rbx c, a + 24 := rbp c,
     a + 32 := r12 c, a + 40 := r13 c, a + 48 := r14 c, a + 56 := r15 c)"

definition load_x86 :: "w64 \<Rightarrow> memory \<Rightarrow> fast_ctx_x86" where
  "load_x86 a m = \<lparr>rip = m a, rsp = m (a + 8), rbx = m (a + 16), rbp = m (a + 24),
     r12 = m (a + 32), r13 = m (a + 40), r14 = m (a + 48), r15 = m (a + 56)\<rparr>"

definition fast_ctx_init_x86 :: "w64 \<Rightarrow> w64 \<Rightarrow> w64 \<Rightarrow> memory \<Rightarrow> memory" where
  "fast_ctx_init_x86 ctx stack_top entry m =
     (let sp = align16 stack_top;
          sp = sp - 8;
          m = m(sp := 0)
      in store_x86 ctx \<lparr>rip = entry, rsp = sp, rbx = 0, rbp = 0, r12 = 0, r13 = 0, r14 = 0, r15 = 0\<rparr> m)"

datatype xreg = RAX | RBX | RBP | RSP | RDI | RSI | R12 | R13 | R14 | R15

datatype xinstr =
    Leaq_resume xreg \<comment> \<open>\<open>leaq .Lresume(%rip), %r\<close>\<close>
  | Store xreg w64 xreg \<comment> \<open>\<open>movq %src, disp(%base)\<close>\<close>
  | Load w64 xreg xreg \<comment> \<open>\<open>movq disp(%base), %dst\<close>\<close>
  | Jmpq w64 xreg \<comment> \<open>\<open>jmpq *disp(%base)\<close>\<close>
  | Retq \<comment> \<open>\<open>ret\<close>\<close>

record xcpu =
  xregs :: "xreg \<Rightarrow> w64"
  xpc :: w64
  xmem :: memory

fun xstep :: "w64 \<Rightarrow> xinstr \<Rightarrow> xcpu \<Rightarrow> xcpu" where
  "xstep lresume (Leaq_resume r) s = s\<lparr>xregs := (xregs s)(r := lresume)\<rparr>"
| "xstep lresume (Store src d base) s = s\<lparr>xmem := (xmem s)(xregs s base + d := xregs s src)\<rparr>"
| "xstep lresume (Load d base dst) s = s\<lparr>xregs := (xregs s)(dst := xmem s (xregs s base + d))\<rparr>"
| "xstep lresume (Jmpq d base) s = s\<lparr>xpc := xmem s (xregs s base + d)\<rparr>"
| "xstep lresume Retq s = s\<lparr>xpc := xmem s (xregs s RSP), xregs := (xregs s)(RSP := xregs s RSP + 8)\<rparr>"

fun xexec :: "w64 \<Rightarrow> xinstr list \<Rightarrow> xcpu \<Rightarrow> xcpu" where
  "xexec lresume [] s = s"
| "xexec lresume (i # is) s = xexec lresume is (xstep lresume i s)"

definition fast_swap_context_x86 :: "xinstr list" where
  "fast_swap_context_x86 =
     [Leaq_resume RAX,
      Store RAX 0 RDI,
      Store RSP 8 RDI,
      Store RBX 16 RDI,
      Store RBP 24 RDI,
      Store R12 32 RDI,
      Store R13 40 RDI,
      Store R14 48 RDI,
      Store R15 56 RDI,
      Load 16 RSI RBX,
      Load 24 RSI RBP,
      Load 32 RSI R12,
      Load 40 RSI R13,
      Load 48 RSI R14,
      Load 56 RSI R15,
      Load 8 RSI RSP,
      Jmpq 0 RSI]"

definition resume_x86 :: "xinstr list" where
  "resume_x86 = [Retq]"

definition fast_restore_context_x86 :: "xinstr list" where
  "fast_restore_context_x86 =
     [Load 16 RDI RBX,
      Load 24 RDI RBP,
      Load 32 RDI R12,
      Load 40 RDI R13,
      Load 48 RDI R14,
      Load 56 RDI R15,
      Load 8 RDI RSP,
      Jmpq 0 RDI]"

text \<open>The callee-saved registers of the System V ABI without the stack pointer.\<close>

definition callee_saved_x86 :: "xreg set" where
  "callee_saved_x86 = {RBX, RBP, R12, R13, R14, R15}"

text \<open>What the running thread would be saved as, when it resumes at \<open>pc\<close>.\<close>

definition regs_x86 :: "w64 \<Rightarrow> xcpu \<Rightarrow> fast_ctx_x86" where
  "regs_x86 pc s = \<lparr>rip = pc, rsp = xregs s RSP, rbx = xregs s RBX, rbp = xregs s RBP,
     r12 = xregs s R12, r13 = xregs s R13, r14 = xregs s R14, r15 = xregs s R15\<rparr>"

text \<open>The cells of a structure of \<open>n\<close> fields, and structures without a common cell.\<close>

definition cells :: "nat \<Rightarrow> w64 \<Rightarrow> w64 list" where
  "cells n a = map (\<lambda>i. a + of_nat (8 * i)) [0..<n]"

definition apart :: "nat \<Rightarrow> w64 \<Rightarrow> w64 \<Rightarrow> bool" where
  "apart n a b \<longleftrightarrow> (\<forall>x \<in> set (cells n a). x \<notin> set (cells n b))"

lemma load_store_x86: "load_x86 a (store_x86 a c m) = c"
  by (simp add: load_x86_def store_x86_def)

text \<open>A switch stores the running context and loads the other one.\<close>

lemma xswap_saves:
  "xmem (xexec l fast_swap_context_x86 s) = store_x86 (xregs s RDI) (regs_x86 l s) (xmem s)"
  by (simp add: fast_swap_context_x86_def store_x86_def regs_x86_def)

lemma xswap_loads:
  fixes s :: xcpu and l :: w64
  defines "s' \<equiv> xexec l fast_swap_context_x86 s"
  shows "regs_x86 (xpc s') s' = load_x86 (xregs s RSI) (xmem s')"
  unfolding s'_def xswap_saves
  by (simp add: fast_swap_context_x86_def load_x86_def regs_x86_def store_x86_def)

lemma cells_x86:
  "cells 8 a = [a, a + 8, a + 16, a + 24, a + 32, a + 40, a + 48, a + 56]"
  by (simp add: cells_def upt_rec)

lemma store_outside_x86: "x \<notin> set (cells 8 a) \<Longrightarrow> store_x86 a c m x = m x"
  by (simp add: store_x86_def cells_x86)

lemma load_cong_x86: "(\<And>x. x \<in> set (cells 8 a) \<Longrightarrow> m x = m' x) \<Longrightarrow> load_x86 a m = load_x86 a m'"
  by (simp add: load_x86_def cells_x86)

lemma load_store_apart_x86: "apart 8 a b \<Longrightarrow> load_x86 a (store_x86 b c m) = load_x86 a m"
  by (rule load_cong_x86) (auto simp: apart_def store_outside_x86)

text \<open>Thread A switches away at \<open>s\<close>; when any thread later switches back to it, and A's context and
  the return address on A's stack are untouched, the caller of A continues with its registers.\<close>

lemma xswap_round_trip:
  fixes s s2 :: xcpu and l :: w64
  defines "s1 \<equiv> xexec l fast_swap_context_x86 s"
  defines "s3 \<equiv> xexec l fast_swap_context_x86 s2"
  defines "s4 \<equiv> xexec l resume_x86 s3"
  assumes toA: "xregs s2 RSI = xregs s RDI"
    and kept: "\<And>x. x \<in> set (cells 8 (xregs s RDI)) \<Longrightarrow> xmem s2 x = xmem s1 x"
    and sep: "apart 8 (xregs s RDI) (xregs s2 RDI)" "xregs s RSP \<notin> set (cells 8 (xregs s2 RDI))"
  shows "xpc s3 = l" "xpc s4 = xmem s2 (xregs s RSP)" "xregs s4 RSP = xregs s RSP + 8"
    "r \<in> callee_saved_x86 \<Longrightarrow> xregs s4 r = xregs s r"
proof -
  have "load_x86 (xregs s RDI) (xmem s2) = load_x86 (xregs s RDI) (xmem s1)" by (rule load_cong_x86) (rule kept)
  then have "regs_x86 (xpc s3) s3 = regs_x86 l s"
    unfolding s3_def xswap_loads xswap_saves toA
    by (simp add: load_store_apart_x86 [OF sep(1)] s1_def xswap_saves load_store_x86)
  then have r: "xpc s3 = l" "xregs s3 RSP = xregs s RSP" "xregs s3 RBX = xregs s RBX" "xregs s3 RBP = xregs s RBP"
    "xregs s3 R12 = xregs s R12" "xregs s3 R13 = xregs s R13" "xregs s3 R14 = xregs s R14" "xregs s3 R15 = xregs s R15"
    by (simp_all add: regs_x86_def)
  have "xmem s3 (xregs s RSP) = xmem s2 (xregs s RSP)" unfolding s3_def xswap_saves by (rule store_outside_x86 [OF sep(2)])
  with r show "xpc s3 = l" "xpc s4 = xmem s2 (xregs s RSP)" "xregs s4 RSP = xregs s RSP + 8"
    "r \<in> callee_saved_x86 \<Longrightarrow> xregs s4 r = xregs s r"
    by (auto simp: s4_def resume_x86_def callee_saved_x86_def)
qed

text \<open>\<open>fast_restore_context\<close> loads without saving.\<close>

lemma xrestore_loads:
  fixes s :: xcpu and l :: w64
  defines "s' \<equiv> xexec l fast_restore_context_x86 s"
  shows "xmem s' = xmem s" "regs_x86 (xpc s') s' = load_x86 (xregs s RDI) (xmem s)"
  by (simp_all add: s'_def fast_restore_context_x86_def load_x86_def regs_x86_def)

lemma align16_mod: "align16 sp mod 16 = 0" "align16 sp \<le> sp" "sp - align16 sp < 16"
proof -
  have m: "x AND 15 = x mod 16" for x :: w64
    using take_bit_eq_mask [of 4 x] by (simp add: take_bit_eq_mod mask_eq_exp_minus_1)
  have "(sp AND NOT 15) + (sp AND 15) = (sp AND NOT 15) OR (sp AND 15)"
    by (rule disjunctive_add_eq_or) (simp add: and.assoc and.left_commute)
  moreover have "(sp AND NOT 15) OR (sp AND 15) = sp" by (simp flip: bit.conj_disj_distrib)
  ultimately have "align16 sp + sp mod 16 = sp" by (simp add: m align16_def)
  then have e: "align16 sp = sp - sp mod 16" by (metis add_diff_cancel_right')
  have "align16 sp AND 15 = 0" by (simp add: align16_def and.assoc)
  then show "align16 sp mod 16 = 0" by (simp add: m)
  show "align16 sp \<le> sp" by (simp add: align16_def word_and_le1 word_and_le2)
  show "sp - align16 sp < 16" unfolding e by (simp add: word_mod_less_divisor)
qed

text \<open>The first switch to a new thread enters it on its own stack, aligned as after a call.\<close>

lemma mod16_sub8: "(x :: w64) mod 16 = 0 \<Longrightarrow> (x - 8) mod 16 = 8"
proof -
  assume "x mod 16 = 0"
  then have "uint x mod 16 = 0" using uint_mod_distrib [of x 16] by simp
  then have "(uint x - 8) mod 16 = 8" by presburger
  moreover have "uint (x - 8) = (uint x - 8) mod 2 ^ 64" by (simp add: uint_word_ariths)
  moreover have "(uint x - 8) mod 2 ^ 64 mod 16 = (uint x - 8) mod 16" by (rule mod_mod_cancel) simp
  ultimately have "uint ((x - 8) mod 16) = uint (8 :: w64)" by (simp add: uint_mod_distrib)
  then show ?thesis by (simp only: word_uint_eq_iff)
qed

lemma xinit_enters:
  fixes s :: xcpu and l top entry a :: w64
  defines "sp \<equiv> align16 top - 8"
  defines "s' \<equiv> xexec l fast_swap_context_x86 s"
  assumes init: "\<And>x. x \<in> set (cells 8 a) \<Longrightarrow> xmem s x = fast_ctx_init_x86 a top entry m x"
    and to: "xregs s RSI = a" and sep: "apart 8 a (xregs s RDI)"
  shows "xpc s' = entry" "xregs s' RSP = sp" "sp mod 16 = 8" "r \<in> callee_saved_x86 \<Longrightarrow> xregs s' r = 0"
proof -
  have "load_x86 a (xmem s) = load_x86 a (fast_ctx_init_x86 a top entry m)" by (rule load_cong_x86) (rule init)
  also have "\<dots> = \<lparr>rip = entry, rsp = sp, rbx = 0, rbp = 0, r12 = 0, r13 = 0, r14 = 0, r15 = 0\<rparr>"
    by (simp add: fast_ctx_init_x86_def Let_def load_store_x86 sp_def)
  finally have "regs_x86 (xpc s') s' = \<lparr>rip = entry, rsp = sp, rbx = 0, rbp = 0, r12 = 0, r13 = 0, r14 = 0, r15 = 0\<rparr>"
    unfolding s'_def xswap_loads xswap_saves to by (simp add: load_store_apart_x86 [OF sep])
  then show "xpc s' = entry" "xregs s' RSP = sp" "r \<in> callee_saved_x86 \<Longrightarrow> xregs s' r = 0"
    by (auto simp: regs_x86_def callee_saved_x86_def)
  show "sp mod 16 = 8" unfolding sp_def by (rule mod16_sub8) (rule align16_mod)
qed

section \<open>AArch64\<close>

text \<open>General registers \<open>x0\<close> to \<open>x30\<close> by number, the stack pointer, and the SIMD registers \<open>d0\<close> to
  \<open>d31\<close>, which no instruction of these routines touches.\<close>

record fast_ctx_arm =
  lr :: w64
  sp :: w64
  x19 :: w64
  x20 :: w64
  x21 :: w64
  x22 :: w64
  x23 :: w64
  x24 :: w64
  x25 :: w64
  x26 :: w64
  x27 :: w64
  x28 :: w64
  fp :: w64

definition store_arm :: "w64 \<Rightarrow> fast_ctx_arm \<Rightarrow> memory \<Rightarrow> memory" where
  "store_arm a c m = m(a := lr c, a + 8 := sp c, a + 16 := x19 c, a + 24 := x20 c, a + 32 := x21 c,
     a + 40 := x22 c, a + 48 := x23 c, a + 56 := x24 c, a + 64 := x25 c, a + 72 := x26 c,
     a + 80 := x27 c, a + 88 := x28 c, a + 96 := fp c)"

definition load_arm :: "w64 \<Rightarrow> memory \<Rightarrow> fast_ctx_arm" where
  "load_arm a m = \<lparr>lr = m a, sp = m (a + 8), x19 = m (a + 16), x20 = m (a + 24), x21 = m (a + 32),
     x22 = m (a + 40), x23 = m (a + 48), x24 = m (a + 56), x25 = m (a + 64), x26 = m (a + 72),
     x27 = m (a + 80), x28 = m (a + 88), fp = m (a + 96)\<rparr>"

definition fast_ctx_init_arm :: "w64 \<Rightarrow> w64 \<Rightarrow> w64 \<Rightarrow> memory \<Rightarrow> memory" where
  "fast_ctx_init_arm ctx stack_top entry m =
     (let sp = align16 stack_top
      in store_arm ctx \<lparr>lr = entry, sp = sp, x19 = 0, x20 = 0, x21 = 0, x22 = 0, x23 = 0, x24 = 0, x25 = 0,
           x26 = 0, x27 = 0, x28 = 0, fp = 0\<rparr> m)"

datatype ainstr =
    Str nat w64 nat \<comment> \<open>\<open>str xt, [xn, #imm]\<close>\<close>
  | Stp nat nat w64 nat \<comment> \<open>\<open>stp xt, xu, [xn, #imm]\<close>\<close>
  | Ldr nat w64 nat \<comment> \<open>\<open>ldr xt, [xn, #imm]\<close>\<close>
  | Ldp nat nat w64 nat \<comment> \<open>\<open>ldp xt, xu, [xn, #imm]\<close>\<close>
  | Mov_from_sp nat \<comment> \<open>\<open>mov xt, sp\<close>\<close>
  | Mov_to_sp nat \<comment> \<open>\<open>mov sp, xt\<close>\<close>
  | Ret_lr \<comment> \<open>\<open>ret\<close>, a branch to \<open>x30\<close>\<close>

record acpu =
  aregs :: "nat \<Rightarrow> w64"
  asp :: w64
  simd :: "nat \<Rightarrow> w64"
  apc :: w64
  amem :: memory

fun astep :: "ainstr \<Rightarrow> acpu \<Rightarrow> acpu" where
  "astep (Str t i n) s = s\<lparr>amem := (amem s)(aregs s n + i := aregs s t)\<rparr>"
| "astep (Stp t u i n) s =
     s\<lparr>amem := (amem s)(aregs s n + i := aregs s t, aregs s n + i + 8 := aregs s u)\<rparr>"
| "astep (Ldr t i n) s = s\<lparr>aregs := (aregs s)(t := amem s (aregs s n + i))\<rparr>"
| "astep (Ldp t u i n) s =
     s\<lparr>aregs := (aregs s)(t := amem s (aregs s n + i), u := amem s (aregs s n + i + 8))\<rparr>"
| "astep (Mov_from_sp t) s = s\<lparr>aregs := (aregs s)(t := asp s)\<rparr>"
| "astep (Mov_to_sp t) s = s\<lparr>asp := aregs s t\<rparr>"
| "astep Ret_lr s = s\<lparr>apc := aregs s 30\<rparr>"

fun aexec :: "ainstr list \<Rightarrow> acpu \<Rightarrow> acpu" where
  "aexec [] s = s"
| "aexec (i # is) s = aexec is (astep i s)"

definition fast_swap_context_arm :: "ainstr list" where
  "fast_swap_context_arm =
     [Str 30 0 0,
      Mov_from_sp 9,
      Str 9 8 0,
      Stp 19 20 16 0,
      Stp 21 22 32 0,
      Stp 23 24 48 0,
      Stp 25 26 64 0,
      Stp 27 28 80 0,
      Str 29 96 0,
      Ldp 19 20 16 1,
      Ldp 21 22 32 1,
      Ldp 23 24 48 1,
      Ldp 25 26 64 1,
      Ldp 27 28 80 1,
      Ldr 29 96 1,
      Ldr 9 8 1,
      Mov_to_sp 9,
      Ldr 30 0 1,
      Ret_lr]"

definition fast_restore_context_arm :: "ainstr list" where
  "fast_restore_context_arm =
     [Ldp 19 20 16 0,
      Ldp 21 22 32 0,
      Ldp 23 24 48 0,
      Ldp 25 26 64 0,
      Ldp 27 28 80 0,
      Ldr 29 96 0,
      Ldr 9 8 0,
      Mov_to_sp 9,
      Ldr 30 0 0,
      Ret_lr]"

text \<open>What the running thread is saved as.\<close>

definition regs_arm :: "acpu \<Rightarrow> fast_ctx_arm" where
  "regs_arm s = \<lparr>lr = aregs s 30, sp = asp s, x19 = aregs s 19, x20 = aregs s 20, x21 = aregs s 21,
     x22 = aregs s 22, x23 = aregs s 23, x24 = aregs s 24, x25 = aregs s 25, x26 = aregs s 26,
     x27 = aregs s 27, x28 = aregs s 28, fp = aregs s 29\<rparr>"

lemma load_store_arm: "load_arm a (store_arm a c m) = c"
  by (simp add: load_arm_def store_arm_def)

lemma cells_arm:
  "cells 13 a = [a, a + 8, a + 16, a + 24, a + 32, a + 40, a + 48, a + 56, a + 64, a + 72, a + 80, a + 88, a + 96]"
  by (simp add: cells_def upt_rec)

lemma store_outside_arm: "x \<notin> set (cells 13 a) \<Longrightarrow> store_arm a c m x = m x"
  by (simp add: store_arm_def cells_arm)

lemma load_cong_arm: "(\<And>x. x \<in> set (cells 13 a) \<Longrightarrow> m x = m' x) \<Longrightarrow> load_arm a m = load_arm a m'"
  by (simp add: load_arm_def cells_arm)

lemma load_store_apart_arm: "apart 13 a b \<Longrightarrow> load_arm a (store_arm b c m) = load_arm a m"
  by (rule load_cong_arm) (auto simp: apart_def store_outside_arm)

lemma aswap_saves:
  "amem (aexec fast_swap_context_arm s) = store_arm (aregs s 0) (regs_arm s) (amem s)"
  by (simp add: fast_swap_context_arm_def store_arm_def regs_arm_def add.assoc)

lemma aswap_loads:
  fixes s :: acpu
  defines "s' \<equiv> aexec fast_swap_context_arm s"
  shows "regs_arm s' = load_arm (aregs s 1) (amem s')" "apc s' = aregs s' 30" "simd s' = simd s"
  unfolding s'_def aswap_saves
  by (simp_all add: fast_swap_context_arm_def load_arm_def regs_arm_def store_arm_def add.assoc)

lemma arestore_loads:
  fixes s :: acpu
  defines "s' \<equiv> aexec fast_restore_context_arm s"
  shows "regs_arm s' = load_arm (aregs s 0) (amem s)" "apc s' = aregs s' 30" "amem s' = amem s"
  by (simp_all add: s'_def fast_restore_context_arm_def load_arm_def regs_arm_def add.assoc)

lemma aswap_round_trip:
  fixes s s2 :: acpu
  defines "s1 \<equiv> aexec fast_swap_context_arm s"
  defines "s3 \<equiv> aexec fast_swap_context_arm s2"
  assumes toA: "aregs s2 1 = aregs s 0"
    and kept: "\<And>x. x \<in> set (cells 13 (aregs s 0)) \<Longrightarrow> amem s2 x = amem s1 x"
    and sep: "apart 13 (aregs s 0) (aregs s2 0)"
  shows "regs_arm s3 = regs_arm s" "apc s3 = aregs s 30" "simd s3 = simd s2"
proof -
  have "load_arm (aregs s 0) (amem s2) = load_arm (aregs s 0) (amem s1)" by (rule load_cong_arm) (rule kept)
  then show r: "regs_arm s3 = regs_arm s"
    unfolding s3_def aswap_loads(1) aswap_saves toA
    by (simp add: load_store_apart_arm [OF sep] s1_def aswap_saves load_store_arm)
  show "apc s3 = aregs s 30" using r by (simp add: s3_def aswap_loads(2)) (simp add: regs_arm_def)
  show "simd s3 = simd s2" unfolding s3_def by (rule aswap_loads(3))
qed

lemma ainit_enters:
  fixes s :: acpu and top entry a :: w64
  defines "s' \<equiv> aexec fast_swap_context_arm s"
  assumes init: "\<And>x. x \<in> set (cells 13 a) \<Longrightarrow> amem s x = fast_ctx_init_arm a top entry m x"
    and to: "aregs s 1 = a" and sep: "apart 13 a (aregs s 0)"
  shows "apc s' = entry" "asp s' = align16 top" "asp s' mod 16 = 0" "19 \<le> r \<Longrightarrow> r \<le> 29 \<Longrightarrow> aregs s' r = 0"
proof -
  have "load_arm a (amem s) = load_arm a (fast_ctx_init_arm a top entry m)" by (rule load_cong_arm) (rule init)
  then have "regs_arm s' = \<lparr>lr = entry, sp = align16 top, x19 = 0, x20 = 0, x21 = 0, x22 = 0, x23 = 0, x24 = 0,
      x25 = 0, x26 = 0, x27 = 0, x28 = 0, fp = 0\<rparr>"
    unfolding s'_def aswap_loads(1) aswap_saves to
    by (simp add: load_store_apart_arm [OF sep] fast_ctx_init_arm_def load_store_arm)
  moreover have "r \<in> {19..29} \<Longrightarrow> r = 19 \<or> r = 20 \<or> r = 21 \<or> r = 22 \<or> r = 23 \<or> r = 24 \<or> r = 25 \<or> r = 26 \<or> r = 27 \<or> r = 28 \<or> r = 29"
    by simp presburger
  ultimately show "apc s' = entry" "asp s' = align16 top" "asp s' mod 16 = 0"
    "19 \<le> r \<Longrightarrow> r \<le> 29 \<Longrightarrow> aregs s' r = 0"
    unfolding s'_def aswap_loads(2) by (auto simp: regs_arm_def align16_mod)
qed

end
