(* ===== verification/Scenarios.thy ===== *)
theory Scenarios
  imports Shutdown Masking Mutual_Exclusion Fairness Linked_Queue Fast_Context
begin

text \<open>
  Concrete states and environments on which the properties are evaluated.
\<close>

section \<open>Scripts\<close>

text \<open>A script is the sequence of the calls that the successive running threads make; a thread that
  is switched to is resumed before the next call.  The script stops at a call that is not allowed
  (no result), and when the process ends.\<close>

definition perform :: "call \<Rightarrow> sys \<Rightarrow> result" where
  "perform c st = do { (st, r) \<leftarrow> exec_call c st; (case r of Switched \<Rightarrow> resume_current st | _ \<Rightarrow> Some (st, r)) }"

fun run :: "(sys \<Rightarrow> call \<Rightarrow> bool) \<Rightarrow> call list \<Rightarrow> sys \<Rightarrow> (sys \<times> outcome list) option" where
  "run ok [] st = Some (st, [])"
| "run ok (c # cs) st =
     (if ok st c then do {
        (st, r) \<leftarrow> perform c st;
        (st, rs) \<leftarrow> (case r of Ret _ _ \<Rightarrow> run ok cs st | _ \<Rightarrow> Some (st, []));
        Some (st, r # rs)
      }
      else None)"

lemma perform_reachable:
  assumes "reachable ok s0 (st, User)" "ok st c" "perform c st = Some (st', r)"
  shows "reachable ok s0 (st', mode_of r)"
proof -
  from assms(3) obtain s1 r1 where e: "exec_call c st = Some (s1, r1)" by (auto simp: perform_def)
  have s1: "reachable ok s0 (s1, mode_of r1)" using assms(1,2) e by (blast intro: reachable.step sys_step.call)
  show ?thesis
  proof (cases "r1 = Switched")
    case True
    then have "resume_current s1 = Some (st', r)" using assms(3) e by (simp add: perform_def)
    then show ?thesis using s1 True by (auto intro: reachable.step sys_step.switch)
  next
    case False
    then have "st' = s1" "r = r1" using assms(3) e by (auto simp: perform_def split: outcome.splits)
    then show ?thesis using s1 by simp
  qed
qed

lemma run_reachable:
  "reachable ok s0 (st, User) \<Longrightarrow> run ok cs st = Some (st', rs) \<Longrightarrow> \<forall>r \<in> set rs. mode_of r = User \<Longrightarrow>
   reachable ok s0 (st', User)"
proof (induction cs arbitrary: st rs)
  case (Cons c cs)
  from Cons.prems(2) obtain s1 r where p: "ok st c" "perform c st = Some (s1, r)" by (auto split: if_splits)
  show ?case
  proof (cases r)
    case (Ret i v)
    then obtain rs' where "run ok cs s1 = Some (st', rs')" "rs = r # rs'" using Cons.prems(2) p by (auto split: if_splits)
    then show ?thesis using Cons.IH [of s1 rs'] perform_reachable [OF Cons.prems(1) p] Ret Cons.prems(3) by simp
  qed (use Cons.prems p in \<open>auto split: if_splits\<close>)
qed simp

text \<open>A script that tracks the critical section of the mutex \<open>m\<close>.\<close>

fun track :: "oid \<Rightarrow> call list \<Rightarrow> sys \<Rightarrow> tid set \<Rightarrow> tid set \<Rightarrow> (sys \<times> tid set \<times> tid set) option" where
  "track m [] st I W = Some (st, I, W)"
| "track m (c # cs) st I W =
     (if lib_call st c \<and> disciplined m I W st c then do {
        (s1, r) \<leftarrow> exec_call c st;
        let I = inside_after m (current_thread st) c r I;
        let W = waiting_after m (current_thread st) c r W;
        (case r of
           Ret _ _ \<Rightarrow> track m cs s1 I W
         | Switched \<Rightarrow> do {
             (s2, r) \<leftarrow> resume_current s1;
             (case r of
                Ret _ _ \<Rightarrow> track m cs s2 (if enters s1 W then insert (current_thread s1) I else I)
                             (if enters s1 W then W - {current_thread s1} else W)
              | _ \<Rightarrow> None)
           }
         | _ \<Rightarrow> None)
      }
      else None)"

lemma track_tracked:
  "tracked m s0 (st, User) I W \<Longrightarrow> track m cs st I W = Some (st', I', W') \<Longrightarrow> tracked m s0 (st', User) I' W'"
proof (induction cs arbitrary: st I W)
  case (Cons c cs)
  from Cons.prems(2) obtain s1 r where c: "lib_call st c" "disciplined m I W st c" "exec_call c st = Some (s1, r)"
    by (auto split: if_splits)
  let ?I = "inside_after m (current_thread st) c r I" and ?W = "waiting_after m (current_thread st) c r W"
  note t1 = tracked.call [OF Cons.prems(1) c]
  show ?case
  proof (cases r)
    case (Ret i v)
    then show ?thesis using Cons.IH [of s1 ?I ?W] t1 Cons.prems(2) c by (simp add: Let_def)
  next
    case Switched
    then obtain s2 r2 where s2: "resume_current s1 = Some (s2, r2)" using Cons.prems(2) c by (auto simp: Let_def split: if_splits)
    let ?J = "if enters s1 ?W then insert (current_thread s1) ?I else ?I" and ?V = "if enters s1 ?W then ?W - {current_thread s1} else ?W"
    have "tracked m s0 (s1, Switching) ?I ?W" using t1 Switched by simp
    from tracked.switch [OF this s2] have t2: "tracked m s0 (s2, mode_of r2) ?J ?V" .
    show ?thesis
    proof (cases r2)
      case (Ret i v)
      then show ?thesis using Cons.IH [of s2 ?J ?V] t2 Cons.prems(2) c s2 Switched by (simp add: Let_def cong del: if_weak_cong split del: if_split)
    qed (use Cons.prems(2) c s2 Switched in \<open>simp_all add: Let_def\<close>)
  qed (use Cons.prems(2) c in \<open>simp_all add: Let_def\<close>)
qed simp

section \<open>States\<close>

text \<open>An operating system that hands out increasing addresses.\<close>

definition demo_env :: "policy \<Rightarrow> os" where
  "demo_env pol =
     \<lparr>sched_policy = pol, enable_preemption = True, enable_guard_page = True, enable_overflow_detection = True,
      os_mmap = (\<lambda>k M. let a = 65536 * Suc k in if \<forall>b \<in> M. region_disjoint a b then Some a else None),
      os_mprotect = (\<lambda>_. True),
      os_malloc = (\<lambda>k H. if Suc k \<in> H then None else Some (Suc k)),
      os_valgrind_register = (\<lambda>_ _. 0), os_sigaltstack = True,
      mmap_calls = 0, mprotect_calls = 0, malloc_calls = 0, mapped = {}, guarded = {}, madvised = {},
      deregistered = [], allocated = {}\<rparr>"

lemma demo_env_sane [simp]: "os_sane (demo_env pol)"
  by (auto simp: os_sane_def demo_env_def Let_def split: if_splits)

definition demo_memory :: raw_memory where
  "demo_memory = \<lparr>raw_thread = (\<lambda>_. main_thread_init), raw_locked = (\<lambda>_. 77), raw_count = (\<lambda>_. 77)\<rparr>"

abbreviation demo_start :: "policy \<Rightarrow> sys" where
  "demo_start pol \<equiv> initial_sys (demo_env pol) demo_memory"

text \<open>The main thread runs, the threads \<open>rs\<close> are ready, the threads \<open>ws\<close> wait in the queue \<open>q\<close>;
  all objects have been initialised.\<close>

definition demo :: "policy \<Rightarrow> tid list \<Rightarrow> qid \<Rightarrow> tid list \<Rightarrow> sys" where
  "demo pol rs q ws = (demo_start pol)\<lparr>
     thr := (\<lambda>t. if t \<in> set rs
               then main_thread_init\<lparr>entries := Some ReadyQ, in_ready_queue := True, th_state := THREAD_READY\<rparr>
             else if t \<in> set ws then main_thread_init\<lparr>entries := Some q, th_state := THREAD_BLOCKED\<rparr>
             else main_thread_init),
     queues := (\<lambda>_. [])(q := ws, ReadyQ := rs),
     live := insert main_thread (set rs \<union> set ws),
     m_locked := (\<lambda>_. 0), s_count := (\<lambda>_. 0), initialised := UNIV\<rparr>"

lemma demo_sel [simp]:
  "current_thread (demo pol rs q ws) = 0" "queues (demo pol rs q ws) = (\<lambda>_. [])(q := ws, ReadyQ := rs)"
  "sched_policy (demo pol rs q ws) = pol" "live (demo pol rs q ws) = insert 0 (set rs \<union> set ws)"
  "m_locked (demo pol rs q ws) = (\<lambda>_. 0)" "s_count (demo pol rs q ws) = (\<lambda>_. 0)"
  by (simp_all add: demo_def initial_sys_def demo_env_def main_thread_def)

lemma demo_thr:
  "thr (demo pol rs q ws) t = (if t \<in> set rs
     then main_thread_init\<lparr>entries := Some ReadyQ, in_ready_queue := True, th_state := THREAD_READY\<rparr>
     else if t \<in> set ws then main_thread_init\<lparr>entries := Some q, th_state := THREAD_BLOCKED\<rparr>
     else main_thread_init)"
  by (simp add: demo_def)

lemma demo_inv:
  assumes "distinct (rs @ ws)" "0 \<notin> set (rs @ ws)" "wait_queue q"
  shows "sched_inv (demo pol rs q ws)"
proof -
  have "desc_sorted (prio (demo pol rs q ws)) rs"
    by (rule sorted_wrt_mono_rel [of _ "\<lambda>_ _. True"]) (simp_all add: demo_thr main_thread_init_def sorted_wrt_true)
  then have "prio_ok (demo pol rs q ws)" by (auto simp: prio_ok_def)
  moreover have "queues_ok (demo pol rs q ws)"
    using assms by (auto simp: queues_ok_def demo_thr main_thread_init_def wait_queue_def)
  moreover have "thread_wf (t = 0) (thr (demo pol rs q ws) t)" if "t \<in> insert 0 (set rs \<union> set ws)" for t
    using assms that by (auto simp: thread_wf_def demo_thr main_thread_init_def wait_queue_def
        THREAD_DEFAULT_PRIORITY_def THREAD_MIN_PRIORITY_def THREAD_MAX_PRIORITY_def)
  ultimately show ?thesis
    by (auto simp: sched_inv_def flight_inv_def demo_thr main_thread_init_def main_thread_def split: if_splits)
qed

section \<open>Evaluation\<close>

text \<open>The equations by which the simplifier runs a script on the demo environment.\<close>

lemmas run_eqs =
  thread_create_def first_create_def thread_cleanup_register_def thread_head_ref_alloc_def head_ref_grow_def c_malloc_def
  c_realloc_def take_slot_def upd_thread_def init_prem_def preem_mask_init_def init_stack_overflow_detection_def
  thread_alloc_def stack_pool_empty_def stack_pool_alloc_def sys_mmap_def sys_mprotect_none_def create_with_stack_def
  init_thread_def thread_scheduler_enqueue_def tailq_insert_tail_def tailq_link_def touch_queues_def preemptible_def
  block_eq unblock_eq Let_def demo_env_def initial_sys_def main_thread_init_def main_thread_def HEAD_REF_CHUNK_SIZE_def
  create_loop.simps [of _ _ _ _ 0] perform_def thread_yield_def thread_scheduler_pick_next_def tailq_first_def
  tailq_remove_def swap_thread_eq resume_current_def region_disjoint_def STACK_SIZE_def GUARD_SIZE_def thread_entry_def
  thread_join_def join_block_def join_register_def thread_exit_def exit_bury_def exit_wake_def exit_switch_def
  defer_stack_reclaim_def thread_zombie_add_def zombie_init_def tailq_init_def join_resume_def join_finish_def
  reap_def thread_zombie_remove_def thread_obj_release_def thread_free_def out_retval_def then_unwind_def
  entry_of_def MAX_DEFERRED_STACKS_def MAX_POOLED_THREADS_def lib_call_def on_objects_def cond_objects_def demo_memory_def

end
