(* ===== verification/Scheduling_Properties.thy ===== *)
theory Scheduling_Properties
  imports Scenarios
begin

text \<open>
  The properties of the scheduler: what a yield does under both policies, that every ready thread
  gets to run, and that the linked ready queue implements the list on which they are stated.  Sequences of
  yields are chained by \<open>repeat_op\<close>; between two of them the thread that was switched to only leaves its own
  yield, which touches nothing but the signal mask.
\<close>

section \<open>Scheduling\<close>

lemma demo_ready:
  assumes "distinct rs" "0 \<notin> set rs"
  shows "sched_inv (demo pol rs (MutexQ 0) [])"
  using assms by (intro demo_inv) simp_all

text \<open>Under the FIFO policy a yield runs the head of the ready queue and puts the caller at its
  tail.\<close>

lemma fifo_yield_rotates:
  assumes "sched_inv st" "sched_policy st = THREAD_SCHED_FIFO" "ready_queue st = n # ns"
  shows "\<exists>st'. thread_yield ks st = Some (st', Switched) \<and> sched_inv st' \<and> current_thread st' = n \<and>
    ready_queue st' = ns @ [current_thread st] \<and> saved_ctx (thr st' (current_thread st)) = F_yield # ks"
  using yield_switch [OF assms(1,3), of ks] assms(2) by auto

lemma fifo_yields:
  "sched_inv st \<Longrightarrow> sched_policy st = THREAD_SCHED_FIFO \<Longrightarrow> k < length (ready_queue st) \<Longrightarrow>
   \<exists>st'. repeat_op (Suc k) (thread_yield []) st = Some st' \<and> sched_inv st' \<and> current_thread st' = ready_queue st ! k"
proof (induction k arbitrary: st)
  case 0
  then obtain n ns where q: "ready_queue st = n # ns" by (cases "ready_queue st") auto
  from yield_switch [OF 0(1) q, of "[]"] 0(2) q show ?case by auto
next
  case (Suc k)
  then obtain n ns where q: "ready_queue st = n # ns" by (cases "ready_queue st") auto
  from yield_switch [OF Suc(2) q, of "[]"] Suc(3) obtain s1 where s1: "thread_yield [] st = Some (s1, Switched)"
    "sched_inv s1" "ready_queue s1 = ns @ [current_thread st]" by auto
  have "sched_policy s1 = THREAD_SCHED_FIFO"
    using yield_calm [OF Suc(2) s1(1)] Suc(3) rest_sel(2) [of s1 st] by (simp add: calm_call_def calm_def)
  moreover have "k < length (ready_queue s1)" "ready_queue s1 ! k = ready_queue st ! Suc k"
    using Suc(4) q s1(3) by (auto simp: nth_append)
  ultimately show ?case using Suc.IH [OF s1(2)] s1(1) by auto
qed

text \<open>C10. Under the FIFO policy every ready thread runs after a bounded number of yields: the thread
  at position \<open>k\<close> runs after \<open>k + 1\<close> of them.\<close>

theorem fifo_bounded_wait:
  assumes "sched_inv st" "sched_policy st = THREAD_SCHED_FIFO" "k < length (ready_queue st)"
  shows "\<exists>st'. repeat_op (Suc k) (thread_yield []) st = Some st' \<and> current_thread st' = ready_queue st ! k"
  using fifo_yields [OF assms] by blast

theorem fifo_bounded_wait_witness:
  "\<exists>st'. repeat_op 3 (thread_yield []) (demo THREAD_SCHED_FIFO [5, 6, 7] (MutexQ 0) []) = Some st' \<and> current_thread st' = 7"
  using fifo_bounded_wait [of "demo THREAD_SCHED_FIFO [5, 6, 7] (MutexQ 0) []" 2]
  by (simp add: demo_ready eval_nat_numeral)

text \<open>C29. Under the priority policy a yield lowers the caller by two and raises every ready thread by one,
  within 0 and 100, and changes no other priority, whether or not it gives up the processor.  It runs the
  head of the ready queue exactly when that one then outranks the caller, and puts the other of the two
  back behind the threads of its priority; no ready thread outranks the thread that runs.\<close>

theorem prio_yield_decides:
  assumes "sched_inv st" "sched_policy st = THREAD_SCHED_PRIO" "ready_queue st = n # ns"
  shows "\<exists>st' r. thread_yield ks st = Some (st', r) \<and> sched_inv st' \<and>
    (\<forall>t. prio st' t = (if t = current_thread st then max 0 (prio st t - 2)
       else if t \<in> set (ready_queue st) then min 100 (prio st t + 1) else prio st t)) \<and>
    (if prio st' n \<le> prio st' (current_thread st)
     then r = Ret 0 No_out \<and> current_thread st' = current_thread st \<and> ready_queue st' = desc_insert (prio st') n ns
     else r = Switched \<and> current_thread st' = n \<and> ready_queue st' = desc_insert (prio st') (current_thread st) ns) \<and>
    (\<forall>t \<in> set (ready_queue st'). prio st' t \<le> prio st' (current_thread st'))"
proof -
  let ?a = "aged (block st)" and ?c = "current_thread st"
  have ages: "prio ?a t = (if t = ?c then max 0 (prio st t - 2) else if t \<in> set (ready_queue st) then min 100 (prio st t + 1) else prio st t)" for t
    using aged_prio(1,3) [OF assms(1,2), of t] aged_prio(2) [OF assms(1,2)] sched_inv_current(3) [OF assms(1)] by (auto simp: bumped_def lowered_def)
  have c: "?c \<notin> set (n # ns)" using sched_inv_current(3) [OF assms(1), of ReadyQ] assms(3) by simp
  have "desc_sorted (prio st) (n # ns)" using assms by (auto simp: sched_inv_def flight_inv_def prio_ok_def)
  then have h: "\<forall>t \<in> set ns. prio ?a t \<le> prio ?a n" using c assms(3) by (auto simp: ages)
  show ?thesis
  proof (cases "prio ?a n \<le> prio ?a ?c")
    case True
    from yield_stay [OF assms(1,3,2) True, of ks] obtain st' where st': "thread_yield ks st = Some (st', Ret 0 No_out)" "sched_inv st'"
      "current_thread st' = ?c" "ready_queue st' = desc_insert (prio ?a) n ns" "prio st' = prio ?a" by blast
    have pr: "prio st' t = prio ?a t" for t using fun_cong [OF st'(5)] .
    have "\<forall>t \<in> set (desc_insert (prio ?a) n ns). prio ?a t \<le> prio ?a ?c" using h True by (auto intro: order_trans)
    then have "\<forall>t \<in> set (ready_queue st'). prio st' t \<le> prio st' (current_thread st')" by (simp only: pr st'(3,4))
    moreover have "prio st' n \<le> prio st' ?c" using True by (simp only: pr)
    moreover have "ready_queue st' = desc_insert (prio st') n ns" using st'(4) by (simp only: pr)
    ultimately show ?thesis using st'(1-3) ages pr
      by (intro exI [of _ st'] exI [of _ "Ret 0 No_out"] conjI) (simp_all only: if_True simp_thms)
  next
    case False
    with yield_switch [OF assms(1,3), of ks] assms(2) obtain st' where st': "thread_yield ks st = Some (st', Switched)" "sched_inv st'"
      "current_thread st' = n" "ready_queue st' = desc_insert (prio ?a) ?c ns" "prio st' = prio ?a" by auto
    have pr: "prio st' t = prio ?a t" for t using fun_cong [OF st'(5)] .
    have "\<forall>t \<in> set (desc_insert (prio ?a) ?c ns). prio ?a t \<le> prio ?a n" using h False by auto
    then have "\<forall>t \<in> set (ready_queue st'). prio st' t \<le> prio st' (current_thread st')" by (simp only: pr st'(3,4))
    moreover have "\<not> prio st' n \<le> prio st' ?c" using False by (simp only: pr not_False_eq_True)
    moreover have "ready_queue st' = desc_insert (prio st') ?c ns" using st'(4) by (simp only: pr)
    ultimately show ?thesis using st'(1-3) ages pr
      by (intro exI [of _ st'] exI [of _ Switched] conjI) (simp_all only: if_False simp_thms not_False_eq_True)
  qed
qed

theorem prio_yield_decides_witness:
  "\<exists>st' r. thread_yield [] (demo THREAD_SCHED_PRIO [1, 2] (MutexQ 0) []) = Some (st', r) \<and> sched_inv st' \<and> r = Switched \<and>
    current_thread st' = 1 \<and> prio st' 0 = 8 \<and> prio st' 1 = 11 \<and> prio st' 2 = 11 \<and> ready_queue st' = [2, 0]"
  using prio_yield_decides [of "demo THREAD_SCHED_PRIO [1, 2] (MutexQ 0) []" 1 "[2]" "[]"]
  by (auto simp: demo_ready demo_thr main_thread_init_def THREAD_DEFAULT_PRIORITY_def desc_insert_Cons)

text \<open>Whatever its priority, a thread that keeps yielding under the priority policy while others are
  ready gives up the processor after at most 50 yields that return at once.\<close>

lemma prio_no_monopoly:
  assumes "sched_inv st" "sched_policy st = THREAD_SCHED_PRIO" "ready_queue st \<noteq> []"
  shows "\<exists>j s st'. j \<le> 50 \<and> repeat_op j (thread_yield ks) st = Some s \<and> current_thread s = current_thread st \<and>
    thread_yield ks s = Some (st', Switched)"
proof -
  have "current_thread st \<in> live st" using assms(1) by (simp add: sched_inv_def)
  from sched_inv_prio_range [OF assms(1) this] have "prio st (current_thread st) \<le> 2 * int 50"
    by (simp add: THREAD_MAX_PRIORITY_def)
  from prio_yield_progress [OF assms this] show ?thesis by blast
qed

text \<open>C11. Aging prevents starvation under the priority policy: a ready thread runs after a bounded
  number of yields, whatever the priorities of the others; the bound is the distance of its priority
  from the maximum plus the number of ready threads.\<close>

theorem prio_starvation_free:
  assumes "sched_inv st" "sched_policy st = THREAD_SCHED_PRIO" "t \<in> set (ready_queue st)"
  shows "\<exists>k st'. k \<le> nat (100 - prio st t) + length (ready_queue st) \<and> repeat_op k (thread_yield ks) st = Some st' \<and>
    current_thread st' = t"
  using prio_bounded_wait [OF assms] .

theorem prio_starvation_free_witness:
  "\<exists>k st'. k \<le> 92 \<and> repeat_op k (thread_yield []) (demo THREAD_SCHED_PRIO [1, 2] (MutexQ 0) []) = Some st' \<and> current_thread st' = 2"
  using prio_starvation_free [of "demo THREAD_SCHED_PRIO [1, 2] (MutexQ 0) []" 2 "[]"]
  by (simp add: demo_ready demo_thr main_thread_init_def THREAD_DEFAULT_PRIORITY_def)

text \<open>C30. \<open>thread_yield_to\<close> a ready thread runs exactly that thread, whatever its position in the
  queue, and keeps the others in order.\<close>

theorem yield_to_target:
  assumes "sched_inv st" "t \<in> set (ready_queue st)"
  shows "\<exists>st'. thread_yield_to ks (Some t) st = Some (st', Switched) \<and> sched_inv st' \<and> current_thread st' = t \<and>
    ready_queue st' = remove1 t (ready_insert st (current_thread st))"
  using yield_to_ready [OF assms, of ks] by blast

theorem yield_to_target_witness:
  "\<exists>st'. thread_yield_to [] (Some 2) (demo THREAD_SCHED_FIFO [1, 2, 3] (MutexQ 0) []) = Some (st', Switched) \<and>
    sched_inv st' \<and> current_thread st' = 2 \<and> ready_queue st' = [1, 3, 0]"
  using yield_to_target [of "demo THREAD_SCHED_FIFO [1, 2, 3] (MutexQ 0) []" 2 "[]"]
  by (simp add: demo_ready ready_insert_def)

text \<open>C31. \<open>thread_set_priority\<close> on a ready thread under the priority policy clamps the value to 0..100
  and leaves a sorted queue; a thread that now outranks the caller runs at once.\<close>

theorem set_priority_effect:
  assumes "sched_inv st" "sched_policy st = THREAD_SCHED_PRIO" "t \<in> set (ready_queue st)"
  shows "\<exists>st' r. thread_set_priority ks (Some t) p st = Some (st', r) \<and> sched_inv st' \<and>
    (if clamp_priority p > prio st (current_thread st) then r = Switched \<and> current_thread st' = t
     else r = Ret 0 No_out \<and> current_thread st' = current_thread st \<and> prio st' t = min 100 (max 0 p) \<and>
       ready_queue st' = desc_insert ((prio st)(t := clamp_priority p)) t (remove1 t (ready_queue st)))"
proof -
  from set_priority_ready [OF assms, of p] obtain s1 s2 where
    s: "tailq_remove ReadyQ t (upd_thread t (\<lambda>x. x\<lparr>priority := clamp_priority p\<rparr>) (block st)) = Some s1"
    "thread_scheduler_enqueue t (upd_thread t (\<lambda>x. x\<lparr>in_ready_queue := False\<rparr>) s1) = Some s2" "sched_inv s2"
    "current_thread s2 = current_thread st"
    "ready_queue s2 = desc_insert ((prio st)(t := clamp_priority p)) t (remove1 t (ready_queue st))"
    "prio s2 = (prio st)(t := clamp_priority p)" by blast
  have t: "th_state (thr st t) = THREAD_READY" "t \<noteq> current_thread st"
    using ready_state(1) [OF assms(1,3)] sched_inv_current(1) [OF assms(1)] by auto
  have cl: "clamp_priority p = min 100 (max 0 p)"
    by (simp add: clamp_priority_def THREAD_MAX_PRIORITY_def THREAD_MIN_PRIORITY_def)
  have pr: "prio s2 t = clamp_priority p" "prio s2 (current_thread st) = prio st (current_thread st)"
    using fun_cong [OF s(6), of t] fun_cong [OF s(6), of "current_thread st"] t(2) by simp_all
  have sp: "thread_set_priority ks (Some t) p st = (if clamp_priority p > prio st (current_thread st)
      then thread_yield_to ks (Some t) (unblock s2) else Some (unblock s2, Ret 0 No_out))"
    using s(1,2,4) t assms(2) pr by (simp add: thread_set_priority_def Let_def upd_thread_def)
  show ?thesis
  proof (cases "clamp_priority p > prio st (current_thread st)")
    case True
    have "t \<in> set (ready_queue (unblock s2))" using s(5) by simp
    from yield_to_ready [OF _ this, of ks] s(3) True sp show ?thesis by auto
  next
    case False
    then show ?thesis using sp s(3,4,5) pr(1) cl by auto
  qed
qed

theorem set_priority_effect_witness:
  "\<exists>st' r. thread_set_priority [] (Some 2) 7 (demo THREAD_SCHED_PRIO [1, 2, 3] (MutexQ 0) []) = Some (st', r) \<and>
    sched_inv st' \<and> r = Ret 0 No_out \<and> prio st' 2 = 7 \<and> ready_queue st' = [1, 3, 2]"
  using set_priority_effect [of "demo THREAD_SCHED_PRIO [1, 2, 3] (MutexQ 0) []" 2 "[]" 7]
  by (auto simp: demo_ready demo_thr main_thread_init_def clamp_priority_def THREAD_DEFAULT_PRIORITY_def
      THREAD_MAX_PRIORITY_def THREAD_MIN_PRIORITY_def desc_insert_Cons)

section \<open>The linked ready queue\<close>

text \<open>The demo state with the threads 1 and 2 ready, laid out in memory.\<close>

definition demo_links :: links where
  "demo_links = \<lparr>l_heap = \<lparr>tqh_first = (\<lambda>_. None)(ReadyQ := Some 1), tqh_last = (\<lambda>q. First q)(ReadyQ := Next 2),
       tqe_next = (\<lambda>_. None)(1 := Some 2), tqe_prev = (\<lambda>_. First ReadyQ)(2 := Next 1)\<rparr>,
     l_queued = (\<lambda>t. t = 1 \<or> t = 2), l_priority = (\<lambda>_. 10)\<rparr>"

lemma demo_links_of: "links_of (demo pol [1, 2] (MutexQ 0) []) demo_links"
proof -
  have "tq_list (l_heap demo_links) ReadyQ [1, 2]" "q \<noteq> ReadyQ \<Longrightarrow> tq_list (l_heap demo_links) q []" for q
    by (simp_all add: demo_links_def tq_list_def)
  then have "tq_rep (l_heap demo_links) ((\<lambda>_. [])(MutexQ 0 := [], ReadyQ := [1, 2]))" by (simp add: tq_rep_def)
  then show ?thesis
    by (auto simp: links_of_def demo_thr demo_links_def main_thread_init_def THREAD_DEFAULT_PRIORITY_def fun_eq_iff)
qed

lemma demo_queues_ok: "queues_ok (demo pol [1, 2] (MutexQ 0) [])"
  by (rule sched_inv_queues_ok) (simp add: demo_ready)

text \<open>C13. Enqueueing on the link fields implements the enqueueing on lists: under both policies the loop
  that looks for the insertion point ends, and the pointers it leaves represent the new queue, with
  every other queue untouched.\<close>

theorem enqueue_implemented:
  assumes "links_of st l" "queues_ok st" "thread_scheduler_enqueue t st = Some st'"
  shows "\<exists>l'. enqueue_linked (sched_policy st) t l = Some l' \<and> links_of st' l'"
  using enqueue_linked_refines [OF assms] .

theorem enqueue_implemented_witness:
  "\<exists>st' l'. thread_scheduler_enqueue 0 (demo THREAD_SCHED_PRIO [1, 2] (MutexQ 0) []) = Some st' \<and> ready_queue st' = [1, 2, 0] \<and>
    enqueue_linked THREAD_SCHED_PRIO 0 demo_links = Some l' \<and> links_of st' l'"
proof -
  let ?d = "demo THREAD_SCHED_PRIO [1, 2] (MutexQ 0) []"
  have "\<exists>st'. thread_scheduler_enqueue 0 ?d = Some st' \<and> ready_queue st' = [1, 2, 0]"
    by (simp add: thread_scheduler_enqueue_def demo_thr main_thread_init_def upd_thread_def tailq_insert_tail_def tailq_link_def touch_queues_eq)
  then obtain st' where s: "thread_scheduler_enqueue 0 ?d = Some st'" "ready_queue st' = [1, 2, 0]" by blast
  from enqueue_implemented [OF demo_links_of demo_queues_ok s(1)] s show ?thesis by auto
qed

text \<open>Picking the next thread on the link fields returns the same thread as on lists and leaves the
  representation of the remaining queue.\<close>

lemma pick_next_implemented:
  assumes "links_of st l" "queues_ok st" "thread_scheduler_pick_next st = Some (n, st')"
  shows "\<exists>l'. pick_next_linked l = (n, l') \<and> links_of st' l'"
  using pick_next_linked_refines [OF assms(1,3,2)] .

text \<open>C14. The aging loop of \<open>thread_yield\<close> over the link fields ends and raises the priority of every
  ready thread by one, up to the maximum, and of no other thread.\<close>

theorem aging_terminates:
  assumes "links_of st l" "queues_ok st"
  shows "\<exists>l'. age_linked (TAILQ_FIRST ReadyQ (l_heap l)) l = Some l' \<and> links_of (age_waiting st) l' \<and>
    l_priority l' = (\<lambda>t. if t \<in> set (ready_queue st) then min 100 (prio st t + 1) else prio st t)"
proof -
  from age_linked_refines [OF assms(1)] obtain l' where l': "age_linked (TAILQ_FIRST ReadyQ (l_heap l)) l = Some l'"
    "links_of (age_waiting st) l'" by blast
  have "prio (age_waiting st) t = (if t \<in> set (ready_queue st) then min 100 (prio st t + 1) else prio st t)" for t
    by (simp add: age_waiting_eq [OF assms(2)] bumped_def min.commute)
  then have "l_priority l' = (\<lambda>t. if t \<in> set (ready_queue st) then min 100 (prio st t + 1) else prio st t)"
    using l'(2) by (simp add: links_of_def fun_eq_iff)
  with l' show ?thesis by blast
qed

theorem aging_terminates_witness:
  "\<exists>l'. age_linked (Some 1) demo_links = Some l' \<and> l_priority l' 1 = 11 \<and> l_priority l' 2 = 11 \<and> l_priority l' 0 = 10"
proof -
  have "TAILQ_FIRST ReadyQ (l_heap demo_links) = Some 1" by (simp add: TAILQ_FIRST_def demo_links_def)
  then show ?thesis using aging_terminates [OF demo_links_of demo_queues_ok, of THREAD_SCHED_PRIO]
    by (auto simp: demo_thr main_thread_init_def THREAD_DEFAULT_PRIORITY_def)
qed

end
