(* ===== verification/Sync_Properties.thy ===== *)
theory Sync_Properties
  imports Scenarios
begin

text \<open>
  The properties of the synchronisation objects: mutual exclusion and hand-off of mutexes, the accounting of
  semaphores, the wake-ups of condition variables, and the signals between threads.
\<close>

unbundle bit_operations_syntax

section \<open>Mutexes\<close>

text \<open>Releasing a contended mutex hands it to the first waiter: the lock stays taken, exactly that
  waiter leaves the waiting queue and becomes ready, and no call of \<open>thread_mutex_lock\<close> can
  succeed before it runs.\<close>

lemma mutex_handoff:
  assumes "sched_inv st" "m_locked st m = 1" "queues st (MutexQ m) = w # ws"
  shows "\<exists>s1. thread_mutex_unlock (Some m) st = Some (s1, Ret 0 No_out) \<and> sched_inv s1 \<and> m_locked s1 m = 1 \<and>
    queues s1 (MutexQ m) = ws \<and> set (ready_queue s1) = insert w (set (ready_queue st)) \<and>
    (\<forall>s2 r. thread_mutex_lock ks (Some m) s1 = Some (s2, r) \<longrightarrow> r \<noteq> Ret 0 No_out)"
proof -
  have "current_thread st \<in> live st" "current_thread st \<notin> set (w # ws)"
    using assms(1) mutex_queue_apart(1) [OF assms(1), of _ m] assms(3) by (auto simp: sched_inv_def)
  then have "mutex_abs m st \<lparr>owner = Some (current_thread st), waiters = w # ws\<rparr>" using assms(2,3) by (simp add: mutex_abs_def)
  from ml.no_steal [OF assms(1) this, of _ w ws ks] unlock_handoff [OF assms(1) _ _ assms(3)] assms(2)
  show ?thesis by auto
qed

text \<open>C8. A mutex excludes.  In every execution in which a thread releases the mutex only while it is
  inside, the mutex is never passed to \<open>thread_cond_wait\<close>, and it is initialised and destroyed only while
  nobody is inside or waits, at most one thread is between the return of its \<open>thread_mutex_lock\<close> and its
  \<open>thread_mutex_unlock\<close>, whatever other calls, timer signals between calls, stack overflows and context
  switches come in between.  While a thread is inside or waits, the lock word is 1; the threads in the
  queue all wait; and while a waiter has left the queue without having run yet, no other thread is
  inside.\<close>

theorem mutual_exclusion:
  assumes "os_sane env" "tracked m (initial_sys env mem) (st, mo) I W" "mo = User \<or> mo = Switching"
  shows "(\<forall>x \<in> I. \<forall>y \<in> I. x = y) \<and> (I \<noteq> {} \<or> W \<noteq> {} \<longrightarrow> m_locked st m = 1) \<and> set (queues st (MutexQ m)) \<subseteq> W \<and>
    (\<forall>w \<in> W - set (queues st (MutexQ m)). I \<subseteq> {w}) \<and> (\<forall>w \<in> W. w \<in> live st \<and> th_state (thr st w) \<noteq> THREAD_TERMINATED)"
proof -
  have "exclusive m st I W" "parked m st W" using tracked_keeps [OF assms(2,1)] assms(3) by auto
  then show ?thesis unfolding exclusive_def parked_def active_def by auto
qed

text \<open>The main thread locks a mutex, thread 3 waits for it, the main thread releases it and goes on.\<close>

definition handover_script :: "call list" where
  "handover_script = [C_create True (Some 1) 5, C_mutex_init (Some 0), C_mutex_lock (Some 0), C_yield, C_mutex_lock (Some 0),
     C_mutex_unlock (Some 0)]"

lemma demo_handover:
  "\<exists>st. track 0 handover_script (demo_start THREAD_SCHED_FIFO) {} {} = Some (st, {}, {3})"
  by (simp add: handover_script_def run_eqs thread_mutex_init_def thread_mutex_lock_def thread_mutex_unlock_def revive_def
      inside_after_def waiting_after_def enters_def)

theorem mutual_exclusion_witness:
  "\<exists>st. track 0 handover_script (demo_start THREAD_SCHED_FIFO) {} {} = Some (st, {}, {3}) \<and> m_locked st 0 = 1 \<and> 3 \<in> live st"
proof -
  from demo_handover obtain st where s: "track 0 handover_script (demo_start THREAD_SCHED_FIFO) {} {} = Some (st, {}, {3})" by blast
  have "tracked 0 (demo_start THREAD_SCHED_FIFO) (st, User) {} {3}" by (rule track_tracked [OF tracked.start s])
  from mutual_exclusion [OF demo_env_sane this] s show ?thesis by auto
qed

lemma unlock_many:
  "sched_inv st \<Longrightarrow> m_locked st m = 1 \<Longrightarrow> k \<le> length (queues st (MutexQ m)) \<Longrightarrow>
   \<exists>s'. repeat_op k (thread_mutex_unlock (Some m)) st = Some s' \<and> sched_inv s' \<and> m_locked s' m = 1 \<and>
    queues s' (MutexQ m) = drop k (queues st (MutexQ m)) \<and>
    set (ready_queue s') = set (ready_queue st) \<union> set (take k (queues st (MutexQ m)))"
proof (induction k arbitrary: st)
  case (Suc k)
  then obtain w ws where q: "queues st (MutexQ m) = w # ws" by (cases "queues st (MutexQ m)") auto
  from unlock_handoff [OF Suc(2) _ _ q] Suc(3) obtain s1 where s1: "thread_mutex_unlock (Some m) st = Some (s1, Ret 0 No_out)"
    "sched_inv s1" "queues s1 (MutexQ m) = ws" "m_locked s1 m = 1" "set (ready_queue s1) = insert w (set (ready_queue st))" by auto
  from Suc.IH [OF s1(2,4)] Suc(4) q s1 show ?case by auto
qed simp

text \<open>A mutex is granted in the order of arrival: \<open>k\<close> releases make exactly the first \<open>k\<close> waiters
  ready, and the others keep their order.\<close>

lemma mutex_fifo:
  assumes "sched_inv st" "m_locked st m = 1" "k \<le> length (queues st (MutexQ m))"
  shows "\<exists>s'. repeat_op k (thread_mutex_unlock (Some m)) st = Some s' \<and> sched_inv s' \<and> m_locked s' m = 1 \<and>
    queues s' (MutexQ m) = drop k (queues st (MutexQ m)) \<and>
    set (ready_queue s') = set (ready_queue st) \<union> set (take k (queues st (MutexQ m)))"
  using unlock_many [OF assms] .

text \<open>C32. \<open>thread_mutex_lock\<close> and \<open>thread_mutex_unlock\<close> on every branch.  A null pointer and a destroyed
  mutex (with \<open>EINVAL\<close>) give -1, and so does unlocking a free mutex; these calls change no lock word, no
  queue and no thread.  A free mutex is taken at once.  A held one parks the caller at the tail of the
  waiting queue, or gives -1 and changes nothing when no other thread can run.  Unlocking a held mutex
  wakes exactly the first waiter, and frees the mutex when there is none.\<close>

theorem mutex_branches:
  assumes "sched_inv st"
  shows "thread_mutex_lock ks None st = Some (st, Ret (-1) No_out) \<and> thread_mutex_unlock None st = Some (st, Ret (-1) No_out) \<and>
    (m_locked st m = -1 \<longrightarrow> (\<exists>s1 s2. thread_mutex_lock ks (Some m) st = Some (s1, Ret (-1) No_out) \<and>
      thread_mutex_unlock (Some m) st = Some (s2, Ret (-1) No_out) \<and>
      (\<forall>s \<in> {s1, s2}. errno s = EINVAL \<and> m_locked s = m_locked st \<and> queues s = queues st \<and> thr s = thr st))) \<and>
    (m_locked st m = 0 \<longrightarrow> (\<exists>s1 s2. thread_mutex_lock ks (Some m) st = Some (s1, Ret 0 No_out) \<and>
      m_locked s1 = (m_locked st)(m := 1) \<and> queues s1 = queues st \<and> thr s1 = thr st \<and> thread_mutex_unlock (Some m) st = Some (s2, Ret (-1) No_out) \<and>
      m_locked s2 = m_locked st \<and> queues s2 = queues st \<and> thr s2 = thr st)) \<and>
    (m_locked st m = 1 \<longrightarrow> (case ready_queue st of
       [] \<Rightarrow> \<exists>s1. thread_mutex_lock ks (Some m) st = Some (s1, Ret (-1) No_out) \<and> m_locked s1 = m_locked st \<and> queues s1 = queues st \<and> thr s1 = thr st
     | n # ns \<Rightarrow> \<exists>s1. thread_mutex_lock ks (Some m) st = Some (s1, Switched) \<and> sched_inv s1 \<and> current_thread s1 = n \<and> m_locked s1 = m_locked st \<and>
         queues s1 = (queues st)(ReadyQ := ns, MutexQ m := queues st (MutexQ m) @ [current_thread st]) \<and>
         saved_ctx (thr s1 (current_thread st)) = F_mutex_lock # ks)) \<and>
    (m_locked st m = 1 \<longrightarrow> (\<exists>s2. thread_mutex_unlock (Some m) st = Some (s2, Ret 0 No_out) \<and> sched_inv s2 \<and>
       (case queues st (MutexQ m) of
          [] \<Rightarrow> m_locked s2 = (m_locked st)(m := 0) \<and> queues s2 = queues st \<and> thr s2 = thr st
        | w # ws \<Rightarrow> m_locked s2 = m_locked st \<and> queues s2 (MutexQ m) = ws \<and> set (ready_queue s2) = insert w (set (ready_queue st)))))"
proof (intro conjI impI)
  assume l: "m_locked st m = 1"
  show "case ready_queue st of
       [] \<Rightarrow> \<exists>s1. thread_mutex_lock ks (Some m) st = Some (s1, Ret (-1) No_out) \<and> m_locked s1 = m_locked st \<and> queues s1 = queues st \<and> thr s1 = thr st
     | n # ns \<Rightarrow> \<exists>s1. thread_mutex_lock ks (Some m) st = Some (s1, Switched) \<and> sched_inv s1 \<and> current_thread s1 = n \<and> m_locked s1 = m_locked st \<and>
         queues s1 = (queues st)(ReadyQ := ns, MutexQ m := queues st (MutexQ m) @ [current_thread st]) \<and>
         saved_ctx (thr s1 (current_thread st)) = F_mutex_lock # ks"
    using lock_wait [OF assms, of m _ _ ks] l by (cases "ready_queue st") (auto simp: lock_alone)
  show "\<exists>s2. thread_mutex_unlock (Some m) st = Some (s2, Ret 0 No_out) \<and> sched_inv s2 \<and>
       (case queues st (MutexQ m) of
          [] \<Rightarrow> m_locked s2 = (m_locked st)(m := 0) \<and> queues s2 = queues st \<and> thr s2 = thr st
        | w # ws \<Rightarrow> m_locked s2 = m_locked st \<and> queues s2 (MutexQ m) = ws \<and> set (ready_queue s2) = insert w (set (ready_queue st)))"
    using unlock_handoff [OF assms, of m] l assms by (cases "queues st (MutexQ m)") (auto simp: unlock_free)
qed (simp_all add: thread_mutex_lock_def [of ks None] thread_mutex_unlock_def [of None] lock_free lock_destroyed unlock_not_locked)

theorem mutex_branches_witness:
  "\<exists>s1 s2. thread_mutex_lock [] (Some 0) ((demo THREAD_SCHED_FIFO [1] (MutexQ 0) [4])\<lparr>m_locked := (\<lambda>_. 1)\<rparr>) = Some (s1, Switched) \<and>
    current_thread s1 = 1 \<and> queues s1 (MutexQ 0) = [4, 0] \<and>
    thread_mutex_unlock (Some 0) ((demo THREAD_SCHED_FIFO [1] (MutexQ 0) [4])\<lparr>m_locked := (\<lambda>_. 1)\<rparr>) = Some (s2, Ret 0 No_out) \<and>
    set (ready_queue s2) = {1, 4}"
  using mutex_branches [of "(demo THREAD_SCHED_FIFO [1] (MutexQ 0) [4])\<lparr>m_locked := (\<lambda>_. 1)\<rparr>" "[]" 0]
  by (auto simp: demo_inv)

text \<open>C12. A mutex implements an abstract lock with an owner and a list of waiters, where the owner is the
  thread inside or the waiter that is on its way back from \<open>thread_mutex_lock\<close>.  In every execution as
  above, once the mutex has been initialised and while it has not been destroyed: locking a free lock
  makes the caller its owner; locking a held one appends the caller to the waiters and runs the next
  thread, or fails and changes nothing when no other thread can run; unlocking passes the lock to the
  first waiter and makes exactly that one ready; and a waiter that is switched to is the owner and
  returns 0.\<close>

theorem mutex_refines_lock:
  assumes "os_sane env" "tracked m (initial_sys env mem) (st, mo) I W" "mo = User \<or> mo = Switching"
    "MutexQ m \<in> initialised st" "m_locked st m \<noteq> -1"
  shows "\<exists>a. lock_abs m st I W a \<and>
    (mo = User \<longrightarrow> (\<exists>st' r. thread_mutex_lock [] (Some m) st = Some (st', r) \<and>
      (if owner a = None then r = Ret 0 No_out \<and> lock_abs m st' (insert (current_thread st) I) W (alock_lock (current_thread st) a)
       else if ready_queue st = [] then r = Ret (-1) No_out \<and> lock_abs m st' I W a
       else r = Switched \<and> current_thread st' = hd (ready_queue st) \<and>
         lock_abs m st' I (insert (current_thread st) W) (alock_lock (current_thread st) a)))) \<and>
    (mo = User \<and> current_thread st \<in> I \<longrightarrow> (\<exists>st'. thread_mutex_unlock (Some m) st = Some (st', Ret 0 No_out) \<and>
      lock_abs m st' (I - {current_thread st}) W (alock_unlock a) \<and>
      set (ready_queue st') = set (ready_queue st) \<union> set_option (owner (alock_unlock a)))) \<and>
    (mo = Switching \<and> current_thread st \<in> W \<longrightarrow> owner a = Some (current_thread st) \<and>
      (\<exists>st'. resume_current st = Some (st', Ret 0 No_out) \<and> lock_abs m st' (insert (current_thread st) I) (W - {current_thread st}) a))"
proof -
  note k = tracked_keeps [OF assms(2,1)]
  have p: "exclusive m st I W" "parked m st W" using k assms(3) by auto
  obtain a where a: "lock_abs m st I W a" using lock_abs_exists [OF p(1) assms(4,5)] by blast
  have "mode_inv (st, mo)" using reachable_inv [OF tracked_reachable [OF assms(2)]] initial_inv [OF assms(1)] by simp
  then have i: "sched_inv st" using assms(3) user_invD(2) switch_invD(2) by auto
  have w: "current_thread st \<notin> W" if "mo = User" using k that by simp
  have q: "set (queues st (MutexQ m)) \<subseteq> W" using p(1) by (simp add: exclusive_def)
  from a lock_simulates [OF i a w] unlock_simulates [OF i a w _ q] resume_simulates [OF i a p(2)] show ?thesis by blast
qed

lemma demo_contended:
  "\<exists>st. track 0 (butlast handover_script) (demo_start THREAD_SCHED_FIFO) {} {} = Some (st, {0}, {3}) \<and> current_thread st = 0"
  "\<exists>st. track 0 (butlast handover_script) (demo_start THREAD_SCHED_FIFO) {} {} = Some (st, {0}, {3}) \<and> queues st (MutexQ 0) = [3]"
  "\<exists>st. track 0 (butlast handover_script) (demo_start THREAD_SCHED_FIFO) {} {} = Some (st, {0}, {3}) \<and> MutexQ 0 \<in> initialised st"
  by (simp_all add: handover_script_def run_eqs thread_mutex_init_def thread_mutex_lock_def thread_mutex_unlock_def revive_def
      inside_after_def waiting_after_def enters_def)

theorem mutex_refines_lock_witness:
  "\<exists>st st'. track 0 (butlast handover_script) (demo_start THREAD_SCHED_FIFO) {} {} = Some (st, {0}, {3}) \<and>
    thread_mutex_unlock (Some 0) st = Some (st', Ret 0 No_out) \<and> lock_abs 0 st' {} {3} \<lparr>owner = Some 3, waiters = []\<rparr> \<and> 3 \<in> set (ready_queue st')"
proof -
  from demo_contended obtain st where s: "track 0 (butlast handover_script) (demo_start THREAD_SCHED_FIFO) {} {} = Some (st, {0}, {3})"
    "current_thread st = 0" "queues st (MutexQ 0) = [3]" "MutexQ 0 \<in> initialised st" by auto
  have t: "tracked 0 (demo_start THREAD_SCHED_FIFO) (st, User) {0} {3}" by (rule track_tracked [OF tracked.start s(1)])
  have "m_locked st 0 = 1" using tracked_keeps [OF t demo_env_sane] by (simp add: exclusive_def)
  then obtain a st' where a: "lock_abs 0 st {0} {3} a" "thread_mutex_unlock (Some 0) st = Some (st', Ret 0 No_out)"
    "lock_abs 0 st' {} {3} (alock_unlock a)" "set (ready_queue st') = set (ready_queue st) \<union> set_option (owner (alock_unlock a))"
    using mutex_refines_lock [OF demo_env_sane t _ s(4)] s(2) by auto
  have "alock_unlock a = \<lparr>owner = Some 3, waiters = []\<rparr>" using a(1) s(3) by (simp add: lock_abs_def alock_unlock_def)
  with a s(1) show ?thesis by auto
qed

section \<open>Semaphores\<close>

text \<open>C33. The value of a semaphore, its count minus its waiters, drops by one with every wait that
  does not fail; a wait succeeds at once when the value is positive and blocks otherwise, and it
  fails only when no other thread can run.\<close>

theorem sem_wait_accounting:
  assumes "sched_inv st" "sem_inv s st"
  shows "\<exists>st' r. thread_sem_wait ks (Some s) st = Some (st', r) \<and> sched_inv st' \<and> sem_inv s st' \<and>
    (if r = Ret (-1) No_out then sem_value s st \<le> 0 \<and> ready_queue st = [] \<and> sem_value s st' = sem_value s st
     else sem_value s st' = sem_value s st - 1 \<and>
       (r = Ret 0 No_out \<and> sem_value s st > 0 \<or> r = Switched \<and> sem_value s st \<le> 0))"
proof -
  from sem_wait_ok [OF assms(1), of ks "Some s"] obtain st' r where
    "thread_sem_wait ks (Some s) st = Some (st', r)" "sched_inv st'" by blast
  with sem_wait_value [OF assms this(1)] show ?thesis by blast
qed

theorem sem_wait_accounting_witness:
  "\<exists>st' r. thread_sem_wait [] (Some 0) ((demo THREAD_SCHED_FIFO [1] (SemQ 0) [])\<lparr>s_count := (\<lambda>_. 3)\<rparr>) = Some (st', r) \<and>
    sem_value 0 st' = 2 \<and> r = Ret 0 No_out"
  using sem_wait_accounting [of "(demo THREAD_SCHED_FIFO [1] (SemQ 0) [])\<lparr>s_count := (\<lambda>_. 3)\<rparr>" 0 "[]"]
  by (auto simp: demo_inv sem_inv_def sem_value_def split: if_splits)

text \<open>C34. A post raises the value by one and never fails below the largest \<open>int\<close>; with waiters it makes
  the first of them ready.\<close>

theorem sem_post_accounting:
  assumes "sched_inv st" "sem_inv s st" "sem_value s st < INT_MAX"
  shows "\<exists>st'. thread_sem_post (Some s) st = Some (st', Ret 0 No_out) \<and> sched_inv st' \<and> sem_inv s st' \<and>
    sem_value s st' = sem_value s st + 1 \<and> queues st' (SemQ s) = tl (queues st (SemQ s)) \<and>
    set (ready_queue st') = set (ready_queue st) \<union> set (take 1 (queues st (SemQ s)))"
proof (cases "queues st (SemQ s)")
  case Nil
  then have "s_count st s \<noteq> INT_MAX" using assms(3) by (simp add: sem_value_def)
  with sem_post_incr [OF Nil this] sem_post_value [OF assms] Nil show ?thesis by auto
next
  case (Cons w ws)
  with sem_post_wake [OF assms(1) Cons] sem_post_value [OF assms] show ?thesis by auto
qed

theorem sem_post_accounting_witness:
  "\<exists>st'. thread_sem_post (Some 0) (demo THREAD_SCHED_FIFO [1] (SemQ 0) [7, 8]) = Some (st', Ret 0 No_out) \<and>
    sem_value 0 st' = -1 \<and> queues st' (SemQ 0) = [8] \<and> set (ready_queue st') = {1, 7}"
  using sem_post_accounting [of "demo THREAD_SCHED_FIFO [1] (SemQ 0) [7, 8]" 0]
  by (auto simp: demo_inv sem_inv_def sem_value_def)

section \<open>Condition variables\<close>

text \<open>C35. Waiting on a condition is atomic: in one step the caller leaves the processor, is parked at
  the tail of the condition's queue, and gives up the mutex, which goes to its first waiter or becomes
  free.\<close>

theorem cond_wait_atomic:
  assumes "sched_inv st" "ready_queue st = n # ns"
  shows "\<exists>st'. thread_cond_wait ks (Some c) (Some m) st = Some (st', Switched) \<and> sched_inv st' \<and> current_thread st' = n \<and>
    queues st' (CondQ c) = queues st (CondQ c) @ [current_thread st] \<and>
    (case queues st (MutexQ m) of
       [] \<Rightarrow> m_locked st' m = 0 \<and> set (ready_queue st') = set ns
     | w # ws \<Rightarrow> m_locked st' m = m_locked st m \<and> queues st' (MutexQ m) = ws \<and> set (ready_queue st') = insert w (set ns))"
  using cond_wait_switch [OF assms, of ks c m] by (fastforce split: list.splits)

theorem cond_wait_atomic_witness:
  "\<exists>st'. thread_cond_wait [] (Some 3) (Some 0) ((demo THREAD_SCHED_FIFO [1] (MutexQ 0) [4])\<lparr>m_locked := (\<lambda>_. 1)\<rparr>) = Some (st', Switched) \<and>
    current_thread st' = 1 \<and> queues st' (CondQ 3) = [0] \<and> m_locked st' 0 = 1 \<and> set (ready_queue st') = {4}"
  using cond_wait_atomic [of "(demo THREAD_SCHED_FIFO [1] (MutexQ 0) [4])\<lparr>m_locked := (\<lambda>_. 1)\<rparr>" 1 "[]" "[]" 3 0]
  by (auto simp: demo_inv)

lemma cond_signals:
  "sched_inv st \<Longrightarrow> k \<le> length (queues st (CondQ c)) \<Longrightarrow>
   \<exists>s. repeat_op k (thread_cond_signal (Some c)) st = Some s \<and> sched_inv s \<and> queues s (CondQ c) = drop k (queues st (CondQ c)) \<and>
     set (ready_queue s) = set (ready_queue st) \<union> set (take k (queues st (CondQ c)))"
proof (induction k arbitrary: st)
  case (Suc k)
  then obtain w ws where q: "queues st (CondQ c) = w # ws" by (cases "queues st (CondQ c)") auto
  from cond_signal_wakes [OF Suc(2) q] obtain s1 where s1: "thread_cond_signal (Some c) st = Some (s1, Ret 0 No_out)"
    "sched_inv s1" "queues s1 (CondQ c) = ws" "set (ready_queue s1) = insert w (set (ready_queue st))" by auto
  from Suc.IH [OF s1(2)] Suc(3) q s1 show ?case by auto
qed simp

text \<open>C18. Waiters of a condition are woken in the order of their arrival.  In every consistent state, however
  it came about: of the signals that are sent in a row, the first \<open>k\<close> leave the thread at position \<open>k\<close> in
  the queue and not ready, and the next one makes it ready and leaves the later ones waiting; a
  broadcast makes it ready and empties the queue.\<close>

theorem cond_wakes_in_order:
  assumes "sched_inv st" "k < length (queues st (CondQ c))" "t = queues st (CondQ c) ! k"
  shows "(\<forall>j \<le> k. \<exists>s. repeat_op j (thread_cond_signal (Some c)) st = Some s \<and> t \<in> set (queues s (CondQ c)) \<and> t \<notin> set (ready_queue s)) \<and>
    (\<exists>s. repeat_op (Suc k) (thread_cond_signal (Some c)) st = Some s \<and> sched_inv s \<and> t \<in> set (ready_queue s) \<and>
      queues s (CondQ c) = drop (Suc k) (queues st (CondQ c))) \<and>
    (\<exists>s. thread_cond_broadcast (Some c) st = Some (s, Ret 0 No_out) \<and> sched_inv s \<and> t \<in> set (ready_queue s) \<and> queues s (CondQ c) = [])"
proof (intro conjI allI impI)
  fix j assume j: "j \<le> k"
  with cond_signals [OF assms(1), of j c] assms(2) obtain s where s: "repeat_op j (thread_cond_signal (Some c)) st = Some s" "sched_inv s"
    "queues s (CondQ c) = drop j (queues st (CondQ c))" by auto
  have "queues st (CondQ c) ! k = drop j (queues st (CondQ c)) ! (k - j)" using j assms(2) by simp
  then have t: "t \<in> set (queues s (CondQ c))" using j assms(2,3) s(3) by (metis length_drop diff_less_mono nth_mem)
  moreover have "t \<notin> set (ready_queue s)" using t queues_ok_mem [OF sched_inv_queues_ok [OF s(2)], of t] by simp
  ultimately show "\<exists>s. repeat_op j (thread_cond_signal (Some c)) st = Some s \<and> t \<in> set (queues s (CondQ c)) \<and> t \<notin> set (ready_queue s)"
    using s(1) by blast
next
  have "t \<in> set (take (Suc k) (queues st (CondQ c)))" using assms(2,3) by (simp add: take_Suc_conv_app_nth)
  then show "\<exists>s. repeat_op (Suc k) (thread_cond_signal (Some c)) st = Some s \<and> sched_inv s \<and> t \<in> set (ready_queue s) \<and>
      queues s (CondQ c) = drop (Suc k) (queues st (CondQ c))"
    using cond_signals [OF assms(1), of "Suc k" c] assms(2) by auto
  show "\<exists>s. thread_cond_broadcast (Some c) st = Some (s, Ret 0 No_out) \<and> sched_inv s \<and> t \<in> set (ready_queue s) \<and> queues s (CondQ c) = []"
    using cond_broadcast_wakes [OF assms(1), of c] assms(2,3) by auto
qed

theorem cond_wakes_in_order_witness:
  "\<exists>s. repeat_op 2 (thread_cond_signal (Some 3)) (demo THREAD_SCHED_FIFO [1] (CondQ 3) [5, 6, 7]) = Some s \<and> 6 \<in> set (ready_queue s) \<and>
    queues s (CondQ 3) = [7]"
  using cond_wakes_in_order [of "demo THREAD_SCHED_FIFO [1] (CondQ 3) [5, 6, 7]" 1 3 6] by (auto simp: demo_inv eval_nat_numeral)

text \<open>A thread that returns from its wait holds the mutex again: it takes a free mutex at once and
  returns 0; while another thread holds it, the returning thread queues for it.\<close>

lemma cond_wait_reacquires:
  assumes "sched_inv st" "mutex_inv m st"
  shows "(m_locked st m = 0 \<longrightarrow> (\<exists>st'. cond_wait_resume [] m st = Some (st', Ret 0 No_out) \<and> sched_inv st' \<and> m_locked st' m = 1)) \<and>
    (m_locked st m = 1 \<longrightarrow> (\<forall>n ns. ready_queue st = n # ns \<longrightarrow> (\<exists>st'. cond_wait_resume [] m st = Some (st', Switched) \<and> sched_inv st' \<and>
       queues st' (MutexQ m) = queues st (MutexQ m) @ [current_thread st] \<and>
       saved_ctx (thr st' (current_thread st)) = [F_mutex_lock, F_cond_relock 0])))"
proof (intro conjI impI allI)
  assume "m_locked st m = 0"
  then show "\<exists>st'. cond_wait_resume [] m st = Some (st', Ret 0 No_out) \<and> sched_inv st' \<and> m_locked st' m = 1"
    using assms(1) lock_free [of "unblock st" m "[F_cond_relock 0]"] by (simp add: cond_wait_resume_def cond_relock_def)
next
  fix n ns assume l: "m_locked st m = 1" and q: "ready_queue st = n # ns"
  have "sched_inv (unblock st)" using assms(1) by simp
  from lock_wait [OF this, of m n ns "[F_cond_relock 0]"] l q
  show "\<exists>st'. cond_wait_resume [] m st = Some (st', Switched) \<and> sched_inv st' \<and>
       queues st' (MutexQ m) = queues st (MutexQ m) @ [current_thread st] \<and>
       saved_ctx (thr st' (current_thread st)) = [F_mutex_lock, F_cond_relock 0]"
    by (auto simp: cond_wait_resume_def cond_relock_def)
qed

text \<open>C36. \<open>thread_cond_wait\<close> chooses the next thread before it releases the mutex.  When the only
  thread that could run is a waiter of that mutex, the release makes it ready, yet the caller does not
  wait on the condition: it queues for the mutex and will return -1.\<close>

theorem cond_wait_misses_successor:
  assumes "sched_inv st" "ready_queue st = []" "queues st (MutexQ m) = w # ws" "m_locked st m = 1"
  shows "\<exists>st'. thread_cond_wait [] (Some c) (Some m) st = Some (st', Switched) \<and> sched_inv st' \<and> current_thread st' = w \<and>
    queues st' (CondQ c) = queues st (CondQ c) \<and> queues st' (MutexQ m) = ws @ [current_thread st] \<and>
    saved_ctx (thr st' (current_thread st)) = [F_mutex_lock, F_cond_relock (-1)]"
proof -
  have fl: "flight_inv {} (Some (current_thread st)) (block st)" using assms(1) by (simp add: sched_inv_def)
  from cond_release_ok [OF fl, of m] assms(2-4) obtain s1 where s1: "cond_release m (block st) = Some s1"
    "flight_inv {} (Some (current_thread st)) s1" "live s1 = live st" "current_thread s1 = current_thread st"
    "queues s1 (MutexQ m) = ws" "set (ready_queue s1) = {w}" "queues s1 (CondQ c) = queues st (CondQ c)" "m_locked s1 m = 1" by auto
  have "distinct (ready_queue s1)" using s1(2) by (auto simp: flight_inv_def queues_ok_def)
  with s1(6) have q: "ready_queue s1 = [w]" by (cases "ready_queue s1"; cases "tl (ready_queue s1)") auto
  have "sched_inv (unblock s1)" using s1 assms(1) by (simp add: sched_inv_def)
  from lock_wait [OF this, of m w "[]" "[F_cond_relock (-1)]"] s1(4,5,7,8) q obtain st' where
    st': "thread_mutex_lock [F_cond_relock (-1)] (Some m) (unblock s1) = Some (st', Switched)" "sched_inv st'" "current_thread st' = w"
    "queues st' = (queues s1)(ReadyQ := [], MutexQ m := ws @ [current_thread st])"
    "saved_ctx (thr st' (current_thread st)) = [F_mutex_lock, F_cond_relock (-1)]" by auto
  have "thread_cond_wait [] (Some c) (Some m) st = cond_relock (-1) [] m (unblock s1)"
    using assms(2) s1(1) by (simp add: thread_cond_wait_def Let_def pick_next_empty)
  then show ?thesis using st' s1(7) by (auto simp: cond_relock_def)
qed

theorem cond_wait_misses_successor_witness:
  "\<exists>st'. thread_cond_wait [] (Some 3) (Some 0) ((demo THREAD_SCHED_FIFO [] (MutexQ 0) [4])\<lparr>m_locked := (\<lambda>_. 1)\<rparr>) = Some (st', Switched) \<and>
    current_thread st' = 4 \<and> queues st' (CondQ 3) = [] \<and> queues st' (MutexQ 0) = [0] \<and>
    saved_ctx (thr st' 0) = [F_mutex_lock, F_cond_relock (-1)]"
  using cond_wait_misses_successor [of "(demo THREAD_SCHED_FIFO [] (MutexQ 0) [4])\<lparr>m_locked := (\<lambda>_. 1)\<rparr>" 0 4 "[]" 3]
  by (auto simp: demo_inv)

section \<open>Signals\<close>

text \<open>C37. \<open>thread_sigwait\<close> with a signal available returns at once with the lowest-numbered one and
  consumes exactly that one.\<close>

theorem sigwait_takes_lowest:
  assumes "sigs \<noteq> 0" "blocked_signals (thr st (current_thread st)) = 0"
    "pending_signals (thr st (current_thread st)) AND sigs \<noteq> 0"
  shows "\<exists>st' sig. thread_sigwait ks sigs True st = Some (st', Ret 0 (Out_sig sig)) \<and> 1 \<le> sig \<and> sig \<le> 32 \<and>
    bit (pending_signals (thr st (current_thread st)) AND sigs) (nat (sig - 1)) \<and>
    (\<forall>n < nat (sig - 1). \<not> bit (pending_signals (thr st (current_thread st)) AND sigs) n) \<and>
    (\<forall>n < 32. bit (pending_signals (thr st' (current_thread st))) n \<longleftrightarrow>
       bit (pending_signals (thr st (current_thread st))) n \<and> n \<noteq> nat (sig - 1))"
proof -
  let ?c = "current_thread st"
  let ?a = "pending_signals (thr st ?c) AND sigs"
  let ?s = "thread_signal_pick_one ?a"
  let ?st = "unblock (upd_thread ?c (\<lambda>x. x\<lparr>pending_signals := pending_signals x AND NOT (thread_signal_bit ?s)\<rparr>) (block st))"
  note low = pick_one_lowest [OF assms(3)]
  have "thread_sigwait ks sigs True st = Some (?st, Ret 0 (Out_sig ?s))"
    using sigwait_takes [of "block st" sigs ks] assms by (simp add: thread_sigwait_def)
  moreover have "bit (pending_signals (thr ?st ?c)) n \<longleftrightarrow> bit (pending_signals (thr st ?c)) n \<and> n \<noteq> nat (?s - 1)" if "n < 32" for n
    using bit_clear_signal [OF low(1,2) that, of "pending_signals (thr st ?c)"] low(1) by (auto simp: upd_thread_def)
  moreover have "\<forall>n < nat (?s - 1). \<not> bit ?a n" using low(4) by auto
  ultimately show ?thesis using low(1-3) by blast
qed

theorem sigwait_takes_lowest_witness:
  "\<exists>st' sig. thread_sigwait [] 7 True (upd_thread 0 (\<lambda>x. x\<lparr>pending_signals := 6\<rparr>) (demo THREAD_SCHED_FIFO [] (MutexQ 0) [])) =
     Some (st', Ret 0 (Out_sig sig)) \<and> bit (6 :: 32 word) (nat (sig - 1)) \<and> (\<forall>n < nat (sig - 1). \<not> bit (6 :: 32 word) n)"
  using sigwait_takes_lowest [of 7 "upd_thread 0 (\<lambda>x. x\<lparr>pending_signals := 6\<rparr>) (demo THREAD_SCHED_FIFO [] (MutexQ 0) [])" "[]"]
  by (auto simp: upd_thread_def demo_thr main_thread_init_def)

text \<open>What a thread returns that is resumed in \<open>thread_sigwait\<close> with the signal \<open>sig\<close> available.\<close>

lemma sigwait_resumes:
  assumes "saved_ctx (thr st t) = [F_sigwait w]" "blocked_signals (thr st t) = 0" "current_thread st = t"
    "1 \<le> sig" "sig \<le> 32" "bit w (nat (sig - 1))" "bit (pending_signals (thr st t)) (nat (sig - 1))"
  shows "\<exists>st' s. resume_current st = Some (st', Ret 0 (Out_sig s)) \<and> s = thread_signal_pick_one (pending_signals (thr st t) AND w) \<and>
    1 \<le> s \<and> s \<le> sig \<and> bit w (nat (s - 1)) \<and> bit (pending_signals (thr st t)) (nat (s - 1)) \<and>
    (s \<noteq> sig \<longrightarrow> bit (pending_signals (thr st' t)) (nat (sig - 1)))"
proof -
  let ?a = "pending_signals (thr st t) AND w"
  let ?s = "thread_signal_pick_one ?a"
  let ?st = "unblock (upd_thread t (\<lambda>x. x\<lparr>pending_signals := pending_signals x AND NOT (thread_signal_bit ?s)\<rparr>) st)"
  have b: "bit ?a (nat (sig - 1))" using assms(6,7) by (simp add: bit_and_iff)
  then have nz: "?a \<noteq> 0" by auto
  note low = pick_one_lowest [OF nz]
  have le: "?s \<le> sig" using low(4) [of "nat (sig - 1)"] b assms(4) by (cases "?s \<le> sig") auto
  have "resume_current st = Some (?st, Ret 0 (Out_sig ?s))"
    using sigwait_takes [of st w "[]"] nz assms(1-3) by (simp add: resume_current_def then_unwind_def)
  moreover have "bit (pending_signals (thr ?st t)) (nat (sig - 1))" if "?s \<noteq> sig"
    using bit_clear_signal [OF low(1,2), of "nat (sig - 1)" "pending_signals (thr st t)"] assms(4,5,7) that by (simp add: upd_thread_def)
  ultimately show ?thesis using low(1,3) le by (auto simp: bit_and_iff)
qed

text \<open>C17. A signal reaches its receiver, whatever happens before it runs: when a thread blocked in
  \<open>thread_sigwait\<close> is sent a signal it waits for, it becomes ready; and after any execution in which it is
  not switched to, when it is resumed, its call returns a signal it waits for that is pending and not
  greater than the one sent; if another one was sent in the meantime and comes first, the first signal
  stays pending; if none was, the call returns the signal that was sent.\<close>

theorem signal_round_trip:
  assumes "os_sane env" "reachable lib_call (initial_sys env mem) (st, User)" "t \<in> live st" "waiting_for_signal (thr st t)"
    "saved_ctx (thr st t) = [F_sigwait (waited_signals (thr st t))]"
    "1 \<le> sig" "sig \<le> 32" "waited_signals (thr st t) AND thread_signal_bit sig \<noteq> 0"
  shows "\<exists>s1. thread_signal_send (Some t) sig st = Some (s1, Ret 0 No_out) \<and> t \<in> set (ready_queue s1) \<and>
    (\<forall>s2. sleeps lib_call t (s1, User) (s2, Switching) \<and> current_thread s2 = t \<longrightarrow>
      (\<exists>s3 s. resume_current s2 = Some (s3, Ret 0 (Out_sig s)) \<and> 1 \<le> s \<and> s \<le> sig \<and>
        bit (waited_signals (thr st t)) (nat (s - 1)) \<and> bit (pending_signals (thr s2 t)) (nat (s - 1)) \<and>
        (s \<noteq> sig \<longrightarrow> bit (pending_signals (thr s3 t)) (nat (sig - 1))) \<and>
        (pending_signals (thr s2 t) = pending_signals (thr s1 t) \<longrightarrow> s = sig)))"
proof -
  let ?w = "waited_signals (thr st t)" and ?b = "thread_signal_bit sig" and ?p = "pending_signals (thr st t)"
  note i = user_invD [OF reachable_user [OF assms(1,2)]]
  have so: "sig_ok (thr st t)" using i(3) assms(3) by (simp add: sig_inv_def)
  then have x: "th_state (thr st t) = THREAD_BLOCKED" "entries (thr st t) = None" "?p AND ?w = 0" "blocked_signals (thr st t) = 0"
    using assms(4) by (simp_all add: sig_ok_def)
  from send_wakes [OF i(2) assms(3) x(2) assms(6,7) x(1) assms(4,8)] obtain s1 where
    s1: "thread_signal_send (Some t) sig st = Some (s1, Ret 0 No_out)" "live s1 = live st"
    "queues s1 = (queues st)(ReadyQ := ready_insert st t)"
    "thr s1 t = (thr st t)\<lparr>entries := Some ReadyQ, th_state := THREAD_READY, in_ready_queue := True,
      pending_signals := ?p OR ?b, waited_signals := 0, waiting_for_signal := False\<rparr>" by auto
  have "sys_step lib_call (st, User) (s1, User)"
    using sys_step.call [of lib_call st "C_signal_send (Some t) sig" s1 "Ret 0 No_out"] s1(1) assms(3) by (simp add: lib_call_def)
  with assms(2) have "reachable lib_call (initial_sys env mem) (s1, User)" by (rule reachable.step)
  then have mi: "mode_inv (s1, User)" using reachable_inv initial_inv [OF assms(1)] by fastforce
  have wb: "bit ?w (nat (sig - 1))" using and_signal_bit [OF assms(6,7)] assms(8) by blast
  have av: "(?p OR ?b) AND ?w = ?b"
  proof (rule bit_word_eqI)
    fix n :: nat assume "n < LENGTH(32)"
    have "\<not> (bit ?p n \<and> bit ?w n)" using x(3) by (metis bit_and_iff bit_0_eq bot_apply bot_bool_def)
    moreover have "bit ?w n" if "bit ?b n" using that wb bit_thread_signal_bit [OF assms(6,7), of n] nat_int [of n] by simp
    ultimately show "bit ((?p OR ?b) AND ?w) n = bit ?b n" by (auto simp: bit_or_iff bit_and_iff)
  qed
  have pk: "thread_signal_pick_one ?b = sig"
  proof -
    have "bit ?b (nat (sig - 1))" using bit_thread_signal_bit [OF assms(6,7)] assms(6) by simp
    then have "?b \<noteq> 0" by auto
    from pick_one_lowest(1,3) [OF this] show ?thesis
      using bit_thread_signal_bit [OF assms(6,7), of "nat (thread_signal_pick_one ?b - 1)"] by simp
  qed
  have "\<exists>s3 s. resume_current s2 = Some (s3, Ret 0 (Out_sig s)) \<and> 1 \<le> s \<and> s \<le> sig \<and>
        bit ?w (nat (s - 1)) \<and> bit (pending_signals (thr s2 t)) (nat (s - 1)) \<and>
        (s \<noteq> sig \<longrightarrow> bit (pending_signals (thr s3 t)) (nat (sig - 1))) \<and>
        (pending_signals (thr s2 t) = pending_signals (thr s1 t) \<longrightarrow> s = sig)"
    if sl: "sleeps lib_call t (s1, User) (s2, Switching)" and c: "current_thread s2 = t" for s2
  proof -
    have "t \<in> active s1" using s1(2,4) assms(3) by (simp add: active_def)
    with sleeps_context [OF sl mi] have k: "kept (thr s1 t) (thr s2 t)" by simp
    have "bit (pending_signals (thr s2 t)) (nat (sig - 1))"
      using k s1(4) bit_thread_signal_bit [OF assms(6,7), of "nat (sig - 1)"] assms(6) by (simp add: bit_or_iff)
    from sigwait_resumes [OF _ _ c assms(6,7) wb this] k s1(4) assms(5) x(4) obtain s3 s where
      "resume_current s2 = Some (s3, Ret 0 (Out_sig s))" "s = thread_signal_pick_one (pending_signals (thr s2 t) AND ?w)"
      "1 \<le> s" "s \<le> sig" "bit ?w (nat (s - 1))" "bit (pending_signals (thr s2 t)) (nat (s - 1))"
      "s \<noteq> sig \<longrightarrow> bit (pending_signals (thr s3 t)) (nat (sig - 1))" by auto
    then show ?thesis using av pk s1(4) by auto
  qed
  moreover have "t \<in> set (ready_queue s1)" using s1(3) by simp
  ultimately show ?thesis using s1(1) by blast
qed

text \<open>The main thread waits for the signals 1 and 3; thread 3 sends both before the main thread runs.\<close>

definition signal_script :: "call list" where
  "signal_script = [C_create True (Some 1) 5, C_sigwait 5 True]"

lemma signal_bits: "thread_signal_bit 1 = 1" "thread_signal_bit 3 = 4"
  by (simp_all add: thread_signal_bit_def push_bit_eq_mult eval_nat_numeral)

lemma demo_signals:
  "\<exists>st. run lib_call signal_script (demo_start THREAD_SCHED_FIFO) = Some (st, [Ret 0 (Out_thread 3), Ret 0 No_out]) \<and>
    current_thread st = 3 \<and> 0 \<in> live st \<and> waiting_for_signal (thr st 0)"
  "\<exists>st. run lib_call signal_script (demo_start THREAD_SCHED_FIFO) = Some (st, [Ret 0 (Out_thread 3), Ret 0 No_out]) \<and>
    waited_signals (thr st 0) = 5 \<and> saved_ctx (thr st 0) = [F_sigwait 5]"
  "\<exists>st s1 s2 s3. run lib_call signal_script (demo_start THREAD_SCHED_FIFO) = Some (st, [Ret 0 (Out_thread 3), Ret 0 No_out]) \<and>
    thread_signal_send (Some 0) 3 st = Some (s1, Ret 0 No_out) \<and> thread_signal_send (Some 0) 1 s1 = Some (s2, Ret 0 No_out) \<and>
    thread_yield [] s2 = Some (s3, Switched) \<and> current_thread s1 = 3 \<and> current_thread s2 = 3 \<and> current_thread s3 = 0 \<and>
    0 \<in> live s1 \<and> pending_signals (thr s3 0) = 5"
  by (simp_all add: signal_script_def run_eqs thread_sigwait_def sigwait_step_def thread_signal_send_def signal_bits
      THREAD_SIGNAL_MIN_def THREAD_SIGNAL_MAX_def)

theorem signal_round_trip_witness:
  "\<exists>st s1 s2 s3 s4 s. run lib_call signal_script (demo_start THREAD_SCHED_FIFO) = Some (st, [Ret 0 (Out_thread 3), Ret 0 No_out]) \<and>
    thread_signal_send (Some 0) 3 st = Some (s1, Ret 0 No_out) \<and> thread_signal_send (Some 0) 1 s1 = Some (s2, Ret 0 No_out) \<and>
    thread_yield [] s2 = Some (s3, Switched) \<and> resume_current s3 = Some (s4, Ret 0 (Out_sig s)) \<and> s \<le> 3 \<and> bit (5 :: 32 word) (nat (s - 1)) \<and>
    (s \<noteq> 3 \<longrightarrow> bit (pending_signals (thr s4 0)) 2)"
proof -
  from demo_signals obtain st s1 s2 s3 where st: "run lib_call signal_script (demo_start THREAD_SCHED_FIFO) = Some (st, [Ret 0 (Out_thread 3), Ret 0 No_out])"
    "current_thread st = 3" "0 \<in> live st" "waiting_for_signal (thr st 0)" "waited_signals (thr st 0) = 5" "saved_ctx (thr st 0) = [F_sigwait 5]"
    and s: "thread_signal_send (Some 0) 3 st = Some (s1, Ret 0 No_out)" "thread_signal_send (Some 0) 1 s1 = Some (s2, Ret 0 No_out)"
    "thread_yield [] s2 = Some (s3, Switched)" "current_thread s1 = 3" "current_thread s2 = 3" "current_thread s3 = 0" "0 \<in> live s1" by auto
  have r: "reachable lib_call (demo_start THREAD_SCHED_FIFO) (st, User)" by (rule run_reachable [OF reachable.start st(1)]) simp
  have "sys_step lib_call (s1, User) (s2, User)"
    using sys_step.call [of lib_call s1 "C_signal_send (Some 0) 1" s2 "Ret 0 No_out"] s(2,7) by (simp add: lib_call_def)
  from sleeps.later [OF sleeps.here [of _ 0] _ this] have "sleeps lib_call 0 (s1, User) (s2, User)" using s(4) by simp
  moreover have "sys_step lib_call (s2, User) (s3, Switching)"
    using sys_step.call [of lib_call s2 C_yield s3 Switched] s(3) by (simp add: lib_call_def)
  ultimately have sl: "sleeps lib_call 0 (s1, User) (s3, Switching)" using s(5) by (simp add: sleeps.later [of _ _ _ "(s2, User)"])
  have "(5 :: 32 word) AND thread_signal_bit 3 \<noteq> 0" by (simp add: signal_bits)
  with signal_round_trip [OF demo_env_sane r st(3,4), of 3] st(5,6) s(1,6) sl
  have "\<exists>s4 s. resume_current s3 = Some (s4, Ret 0 (Out_sig s)) \<and> s \<le> 3 \<and> bit (5 :: 32 word) (nat (s - 1)) \<and>
    (s \<noteq> 3 \<longrightarrow> bit (pending_signals (thr s4 0)) 2)" by auto
  with st(1) s(1-3) show ?thesis by blast
qed

end
