(* ===== verification/Context_Properties.thy ===== *)
theory Context_Properties
  imports Scenarios
begin

text \<open>
  The properties of the context switch on both architectures and of the stacks it runs on.
\<close>

section \<open>The context switch\<close>

text \<open>C15. On x86-64 a thread that switches away and is later switched back to continues after its call
  with its stack pointer and all callee-saved registers, provided nobody has written to its saved
  context.\<close>

theorem x86_switch_round_trip:
  assumes "xregs s2 RSI = xregs s RDI"
    "\<forall>x \<in> set (cells 8 (xregs s RDI)). xmem s2 x = xmem (xexec l fast_swap_context_x86 s) x"
    "apart 8 (xregs s RDI) (xregs s2 RDI)" "xregs s RSP \<notin> set (cells 8 (xregs s2 RDI))"
  shows "let s3 = xexec l fast_swap_context_x86 s2; s4 = xexec l resume_x86 s3
    in xpc s3 = l \<and> xpc s4 = xmem s2 (xregs s RSP) \<and> xregs s4 RSP = xregs s RSP + 8 \<and>
       (\<forall>r \<in> callee_saved_x86. xregs s4 r = xregs s r)"
  using xswap_round_trip [of s2 s l] assms by (simp add: Let_def)

text \<open>Thread A runs with its context at 4096 and its stack at 32768; thread B's context is at 8192.\<close>

definition demo_x86 :: xcpu where
  "demo_x86 = \<lparr>xregs = (\<lambda>r. if r = RDI then 4096 else if r = RSI then 8192 else if r = RSP then 32768 else 7),
     xpc = 0, xmem = (\<lambda>_. 99)\<rparr>"

theorem x86_switch_round_trip_witness:
  "let s2 = (xexec 500 fast_swap_context_x86 demo_x86)\<lparr>xregs := (\<lambda>r. if r = RDI then 8192 else if r = RSI then 4096 else 1)\<rparr>;
       s4 = xexec 500 resume_x86 (xexec 500 fast_swap_context_x86 s2)
   in xpc s4 = 99 \<and> xregs s4 RSP = 32776 \<and> xregs s4 RBX = 7"
proof -
  let ?s2 = "(xexec 500 fast_swap_context_x86 demo_x86)\<lparr>xregs := (\<lambda>r. if r = RDI then 8192 else if r = RSI then 4096 else 1)\<rparr>"
  have m: "xmem ?s2 32768 = 99" by (simp add: xswap_saves store_x86_def demo_x86_def)
  have "xregs ?s2 RSI = xregs demo_x86 RDI" "apart 8 (xregs demo_x86 RDI) (xregs ?s2 RDI)"
    "xregs demo_x86 RSP \<notin> set (cells 8 (xregs ?s2 RDI))"
    by (simp_all add: demo_x86_def apart_def cells_x86)
  with x86_switch_round_trip [of ?s2 demo_x86 500] m show ?thesis
    by (simp add: Let_def demo_x86_def callee_saved_x86_def)
qed

text \<open>C16. On AArch64 a round trip restores the stack pointer, the frame pointer, the link register and
  \<open>x19\<close> to \<open>x28\<close>; the SIMD registers are those of whatever thread ran last, the callee-saved
  \<open>d8\<close> to \<open>d15\<close> included.\<close>

theorem arm_switch_round_trip:
  assumes "aregs s2 1 = aregs s 0"
    "\<forall>x \<in> set (cells 13 (aregs s 0)). amem s2 x = amem (aexec fast_swap_context_arm s) x"
    "apart 13 (aregs s 0) (aregs s2 0)"
  shows "let s3 = aexec fast_swap_context_arm s2
    in regs_arm s3 = regs_arm s \<and> apc s3 = aregs s 30 \<and> simd s3 = simd s2"
  using aswap_round_trip [of s2 s] assms by (simp add: Let_def)

definition demo_arm :: acpu where
  "demo_arm = \<lparr>aregs = (\<lambda>_. 7)(0 := 4096, 1 := 8192, 30 := 600), asp = 32768, simd = (\<lambda>_. 1), apc = 0, amem = (\<lambda>_. 99)\<rparr>"

theorem arm_switch_round_trip_witness:
  "let s2 = (aexec fast_swap_context_arm demo_arm)\<lparr>aregs := (\<lambda>_. 5)(0 := 8192, 1 := 4096), simd := (\<lambda>_. 2)\<rparr>;
       s3 = aexec fast_swap_context_arm s2
   in apc s3 = 600 \<and> regs_arm s3 = regs_arm demo_arm \<and> simd s3 8 = 2 \<and> simd demo_arm 8 = 1"
proof -
  let ?s2 = "(aexec fast_swap_context_arm demo_arm)\<lparr>aregs := (\<lambda>_. 5)(0 := 8192, 1 := 4096), simd := (\<lambda>_. 2)\<rparr>"
  have "aregs ?s2 1 = aregs demo_arm 0" "apart 13 (aregs demo_arm 0) (aregs ?s2 0)"
    by (simp_all add: demo_arm_def apart_def cells_arm)
  moreover have "simd ?s2 8 = 2" "aregs demo_arm 30 = 600" "simd demo_arm 8 = 1" by (simp_all add: demo_arm_def)
  ultimately show ?thesis using arm_switch_round_trip [of ?s2 demo_arm] by (simp add: Let_def)
qed

text \<open>C40. The first switch to a new thread enters its entry function at the top of its own stack,
  aligned as the x86-64 calling convention demands at a function's entry, with cleared callee-saved
  registers.\<close>

theorem x86_first_entry:
  fixes a top entry l :: w64
  assumes "\<forall>x \<in> set (cells 8 a). xmem s x = fast_ctx_init_x86 a top entry m x" "xregs s RSI = a" "apart 8 a (xregs s RDI)"
  shows "let s' = xexec l fast_swap_context_x86 s
    in xpc s' = entry \<and> xregs s' RSP = align16 top - 8 \<and> (xregs s' RSP + 8) mod 16 = 0 \<and> align16 top \<le> top \<and>
       top - align16 top < 16 \<and> (\<forall>r \<in> callee_saved_x86. xregs s' r = 0)"
proof -
  have "xpc (xexec l fast_swap_context_x86 s) = entry" "xregs (xexec l fast_swap_context_x86 s) RSP = align16 top - 8"
    "\<And>r. r \<in> callee_saved_x86 \<Longrightarrow> xregs (xexec l fast_swap_context_x86 s) r = 0"
    by (rule xinit_enters [of a s top entry m]; use assms in simp)+
  then show ?thesis by (simp add: Let_def align16_mod)
qed

theorem x86_first_entry_witness:
  "let s' = xexec 500 fast_swap_context_x86 (demo_x86\<lparr>xmem := fast_ctx_init_x86 8192 65541 1234 (\<lambda>_. 99)\<rparr>)
   in xpc s' = 1234 \<and> (xregs s' RSP + 8) mod 16 = 0 \<and> xregs s' RBX = 0"
  using x86_first_entry [where a = 8192 and s = "demo_x86\<lparr>xmem := fast_ctx_init_x86 8192 65541 1234 (\<lambda>_. 99)\<rparr>"
    and top = 65541 and entry = 1234 and m = "\<lambda>_. 99" and l = 500]
  by (simp add: Let_def demo_x86_def apart_def cells_x86 callee_saved_x86_def align16_mod)

section \<open>Stacks\<close>

text \<open>C23. The stack pool gives every stack to one owner at a time: an allocated stack is page-aligned,
  disjoint from every stack in use, and giving it back makes it available again; a stack that is pushed
  into a pool with room is the next one handed out.\<close>

theorem stack_pool_discipline:
  assumes "pool_ok s" "stack_pool_alloc s = (Some e, s')"
  shows "pool_ok s' \<and> se_map e mod 4096 = 0 \<and> se_stack e = se_map e + GUARD_SIZE \<and>
    (\<forall>b \<in> in_use s. region_disjoint (se_map e) b) \<and>
    pool_ok (stack_pool_push e s') \<and> in_use (stack_pool_push e s') = in_use s \<and>
    (length (stack_pool s') < MAX_POOLED_STACKS \<longrightarrow> (\<exists>s''. stack_pool_alloc (stack_pool_push e s') = (Some e, s'')))"
proof -
  have a: "pool_ok s'" "entry_ok e" "se_map e \<notin> in_use s" "in_use s' = insert (se_map e) (in_use s)"
    using pool_ok_alloc [OF assms] by auto
  then have "se_map e \<in> mapped s'" "in_use s \<subseteq> mapped s'" by (auto simp: in_use_def)
  moreover have "\<forall>a \<in> mapped s'. \<forall>b \<in> mapped s'. a \<noteq> b \<longrightarrow> region_disjoint a b" using a(1) by (simp add: pool_ok_def)
  ultimately have "region_disjoint (se_map e) b" if "b \<in> in_use s" for b
    using a(3) that by (metis subsetD)
  moreover have "pool_ok (stack_pool_push e s')" "in_use (stack_pool_push e s') = in_use s"
    using sp.alloc_push [OF assms] by simp_all
  ultimately show ?thesis using a(1,2) alloc_after_push [of s' e] by (auto simp: entry_ok_def)
qed

lemma demo_pool: "pool_ok (demo_start pol)"
  using initial_inv [OF demo_env_sane, of pol demo_memory] by (simp add: user_inv_def mem_inv_def stacks_ok_def Let_def)

theorem stack_pool_discipline_witness:
  "\<exists>s'. stack_pool_alloc (demo_start THREAD_SCHED_FIFO) = (Some \<lparr>se_map = 65536, se_stack = 69632, se_valgrind_id = 0\<rparr>, s') \<and>
    pool_ok s' \<and> in_use (stack_pool_push \<lparr>se_map = 65536, se_stack = 69632, se_valgrind_id = 0\<rparr> s') = {}"
proof -
  let ?e = "\<lparr>se_map = 65536, se_stack = 69632, se_valgrind_id = 0\<rparr>"
  have "\<exists>s'. stack_pool_alloc (demo_start THREAD_SCHED_FIFO) = (Some ?e, s')"
    by (simp add: stack_pool_alloc_def sys_mmap_def sys_mprotect_none_def initial_sys_def demo_env_def Let_def GUARD_SIZE_def)
  then obtain s' where s': "stack_pool_alloc (demo_start THREAD_SCHED_FIFO) = (Some ?e, s')" by blast
  have "in_use (demo_start THREAD_SCHED_FIFO) = {}" by (simp add: in_use_def initial_sys_def)
  with stack_pool_discipline [OF demo_pool s'] s' show ?thesis by auto
qed

text \<open>C25. The batched reclaim of deferred stacks is the same as pushing them one by one, latest first,
  and it leaves none behind.\<close>

theorem reclaim_is_push_all:
  assumes "length (deferred_stacks st) \<le> MAX_DEFERRED_STACKS"
  shows "reclaim_deferred_stacks_all st = fold stack_pool_push (rev (deferred_stacks st)) (st\<lparr>deferred_stacks := []\<rparr>)"
  using reclaim_batch_eq [OF assms] by (simp add: reclaim_deferred_stacks_all_def)

theorem reclaim_is_push_all_witness:
  "stack_pool (reclaim_deferred_stacks_all ((demo_start THREAD_SCHED_FIFO)
     \<lparr>deferred_stacks := [\<lparr>se_map = 1, se_stack = 2, se_valgrind_id = 3\<rparr>, \<lparr>se_map = 4, se_stack = 5, se_valgrind_id = 6\<rparr>]\<rparr>)) =
   [\<lparr>se_map = 4, se_stack = 5, se_valgrind_id = 6\<rparr>, \<lparr>se_map = 1, se_stack = 2, se_valgrind_id = 3\<rparr>]"
  using reclaim_is_push_all [of "(demo_start THREAD_SCHED_FIFO)
     \<lparr>deferred_stacks := [\<lparr>se_map = 1, se_stack = 2, se_valgrind_id = 3\<rparr>, \<lparr>se_map = 4, se_stack = 5, se_valgrind_id = 6\<rparr>]\<rparr>"]
  by (simp add: MAX_DEFERRED_STACKS_def stack_pool_push_def MAX_POOLED_STACKS_def initial_sys_def)

end
