(* ===== verification/Spec2Isabelle.thy ===== *)
theory Spec2Isabelle
  imports Scheduling_Properties Sync_Properties Context_Properties
begin

text \<open>
  A verification of a user-level thread library in C: threads that are created, scheduled, joined
  and ended in user space, with mutexes, semaphores, condition variables, inter-thread signals, timer
  preemption and detection of stack overflows.

  \<^bold>\<open>The program and its model.\<close>  The library is a set of source files that share the thread structure
  of \<open>include/thread_internal.h\<close> and static variables.  The model gathers these in one record \<open>sys\<close>
  (\<open>Thread_State\<close>), which extends the stack pool and the operating system of \<open>Stack_Pool\<close>.  Every C function
  is one definition with the same name; a loop or a part of a function that resumes after a context switch is a
  definition of its own.  An operation returns \<open>None\<close> when the C code would have undefined behaviour that the
  model tracks (linking a linked queue node, unlinking a node from a queue it is not in, freeing a block
  that is not allocated, overflow of an \<open>int\<close>, use of an object before its initialisation), and otherwise the new state with an outcome: the call
  returned, control went to another thread, the process exits, or a signal kills it.

  \<^item> \<open>Prelude\<close>: error numbers, options, lists sorted by priority.
  \<^item> \<open>Tailq\<close>: the macros of \<open>sys/queue.h\<close> on pointers, and that they implement lists; the locale
    \<open>tail_queues\<close> is what the library relies on, interpreted on the pointers and on the state.
  \<^item> \<open>Stack_Pool\<close> (\<open>src/pool.c\<close>): allocation, reuse and release of stacks; the locale \<open>stack_store\<close>.
    \<open>mmap\<close>, \<open>mprotect\<close>, \<open>malloc\<close> and Valgrind are fields of the environment; \<open>os_sane\<close> states what
    their documentation promises.
  \<^item> \<open>Thread_State\<close> (\<open>include/thread_internal.h\<close>, mask operations of \<open>src/preemption.c\<close>): the data, the
    queue primitives, the context switch.
  \<^item> \<open>Scheduler\<close> (\<open>src/scheduler.c\<close>): both policies, aging, \<open>thread_yield\<close>, \<open>thread_yield_to\<close>,
    \<open>thread_set_priority\<close>, and the scheduler invariant \<open>sched_inv\<close>; \<open>Dispatch\<close> and \<open>Yielding\<close> prove what
    the operations do to it (locale \<open>dispatcher\<close>).  \<open>Linked_Queue\<close> repeats the queue operations on
    the link fields and proves that they implement the ones on lists.
  \<^item> \<open>Mutex\<close>, \<open>Semaphore\<close>, \<open>Cond_Var\<close>, \<open>Thread_Signal\<close> (\<open>src/thread_mutex.c\<close>, \<open>thread_sem.c\<close>,
    \<open>thread_cond.c\<close>, \<open>thread_sig.c\<close>): the synchronisation objects.  A mutex refines an abstract lock (locale
    \<open>queue_lock\<close>); signal sets are 32-bit words.
  \<^item> \<open>Thread_Gc\<close> (\<open>src/thread_gc.c\<close>): the zombie queue and the final clean-up.  \<open>Preemption\<close> and
    \<open>Signal_Handlers\<close> (\<open>src/preemption.c\<close>): the timer, the alternate stack and the two handlers.
  \<^item> \<open>Thread_Core\<close> (\<open>src/thread.c\<close>): creation, exit and join with the structure pool, the deferred stacks and the
    join-chain slots.  \<open>Thread_Memory\<close> proves the ownership of memory, \<open>Frame_Conditions\<close> what the
    synchronisation calls leave alone, \<open>Lifecycle\<close> and \<open>Joining\<close> the effect of exit and join.
  \<^item> \<open>Fast_Context\<close> (\<open>include/context.h\<close>, \<open>src/context.S\<close>): both context switches as instruction
    lists with an interpreter over 64-bit words.
  \<^item> \<open>System\<close>: the calls of the interface, what happens when a suspended thread is switched to, and the step
    relation \<open>sys_step\<close> that interleaves calls, timer signals, memory faults, context switches and
    the exit of the process.  \<open>System_Invariant\<close>, \<open>Exit_Join_Invariant\<close> and \<open>Create_Invariant\<close> prove that every
    step keeps the invariant, \<open>Reachability\<close> that it holds in all reachable states, \<open>Shutdown\<close> what the exit
    handlers leave behind, and \<open>Masking\<close> that under FIFO, until \<open>exit\<close> runs its handlers, threads are linked and unlinked
    only while the timer signal is blocked.
  \<^item> \<open>Retention\<close>, \<open>Mutual_Exclusion\<close> and \<open>Fairness\<close> are about executions rather than states.
    \<open>Retention\<close> follows one thread: the return value and the overflow mark of a terminated thread stay until
    its structure is released (\<open>outlives\<close>), and the saved context and the pending signals of a suspended one until
    it is switched to (\<open>sleeps\<close>).  \<open>Mutual_Exclusion\<close> records along an execution which threads are inside the critical
    section of a mutex and which wait for it (\<open>tracked\<close>); with this the states of an execution implement the abstract
    lock whose owner is the thread inside or, after a hand-over, the next to enter (\<open>lock_abs\<close>).  \<open>Fairness\<close> bounds the number of yields for which a ready
    thread waits under the priority policy.
  \<^item> \<open>Scenarios\<close>: concrete environments, states and scripts of calls for the witnesses.

  \<^bold>\<open>What is proved.\<close>  The properties of single components are in \<open>Scheduling_Properties\<close>,
  \<open>Sync_Properties\<close> and \<open>Context_Properties\<close>; this theory has the ones that span components.  They are
  about the states reachable from the static initialisers, with arbitrary contents of the memory that has not been
  written yet (\<open>raw_memory\<close>), by calls that satisfy \<open>lib_call\<close>: thread handles are live, a mutex, semaphore or
  condition has been initialised before it is used (\<open>initialised\<close>) and is not re-initialised while threads
  wait in it, the two counters do not overflow, and \<open>thread_join\<close> is not called on a running thread while no other thread is ready.  The
  last condition excludes a defect that \<open>stale_join_corrupts\<close> exhibits.  Mutual exclusion in addition requires
  that a mutex is released by the thread inside only, is initialised and destroyed only while no thread is inside or
  waits, and is not used with \<open>thread_cond_wait\<close>, which gives the mutex away and may return without it
  (\<open>cond_wait_misses_successor\<close>).

  \<^bold>\<open>Bounds and termination.\<close>  Nothing is cut off by fuel.  The retry loop of \<open>thread_create\<close> ends by its own
  bound of 4096 yields and the loop of \<open>thread_signal_pick_one\<close> at 32, both proved by a measure; the
  loops over queues are \<open>partial_function\<close>s, and that they return is proved for every state that satisfies
  the invariant.  Signal numbers, priorities and identifiers are unbounded integers with the ranges and
  overflow checks of the code written out; register contents are 64-bit words.

  \<^bold>\<open>Not modelled.\<close>
  \<^item> The macros under \<open>USE_PTHREAD\<close>, which rename the interface to that of the system library, and the output in
    \<open>init_prem\<close>.
  \<^item> Timer signals inside library code: they are delivered between library calls, and all properties hold under
    this condition only.  The auxiliary variable \<open>unmasked\<close> records whether a thread was linked or unlinked while one
    could have arrived: never under FIFO as long as the process runs (\<open>fifo_updates_protected\<close>), but in the exit handlers
    (\<open>exit_unmasked\<close>) and under the priority policy (\<open>requeue_unmasked\<close>); \<open>bare_inits\<close> records the objects that were
    initialised while one could have arrived (\<open>init_unmasked\<close>).  The pools that \<open>thread_create\<close> uses are not protected
    by the code either; no auxiliary variable follows them.
  \<^item> The memory of mutexes, semaphores and conditions is the caller's: that it stays allocated while the object is in
    use is not expressed.
  \<^item> The contents of stacks and the user code that runs on them; a thread's saved context is the list of library
    frames that are suspended in it.
  \<^item> Accesses to released structures inside the library: that handles are live is required of the caller,
    and \<open>live\<close> is tracked by the invariant, but reads are not guarded one by one.
  \<^item> The failure results of \<open>sigaction\<close>, \<open>setitimer\<close> and \<open>atexit\<close>, which the code does not handle.
\<close>

section \<open>All reachable states\<close>

text \<open>The main thread has created two threads.\<close>

lemma demo_two:
  "\<exists>st. run lib_call [C_create True (Some 1) 5, C_create True (Some 1) 6] (demo_start THREAD_SCHED_FIFO) =
     Some (st, [Ret 0 (Out_thread 3), Ret 0 (Out_thread 4)]) \<and>
     current_thread st = 0 \<and> ready_queue st = [3, 4] \<and> live st = {0, 3, 4} \<and> stack_map (thr st 3) = Some 65536 \<and>
     stack_map (thr st 4) = Some 131072 \<and> atexit_handlers st = registered_handlers \<and> zombie_queue st = []"
  by (simp add: run_eqs insert_commute) auto

lemma demo_reachable:
  assumes "run lib_call cs (demo_start pol) = Some (st, rs)" "\<forall>r \<in> set rs. mode_of r = User"
  shows "reachable lib_call (demo_start pol) (st, User)"
  using run_reachable [OF reachable.start assms] .



text \<open>C2. In every reachable state the scheduler's data is consistent: exactly the current thread is
  running, exactly the ready threads are in the ready queue, zombies have terminated, no thread is in
  two queues or twice in one, priorities lie between 0 and 100, and under the priority policy the ready
  queue is sorted.\<close>

theorem threads_well_placed:
  assumes "os_sane env" "reachable lib_call (initial_sys env mem) (st, User)" "t \<in> live st"
  shows "(th_state (thr st t) = THREAD_RUNNING \<longleftrightarrow> t = current_thread st) \<and>
    (th_state (thr st t) = THREAD_READY \<longleftrightarrow> t \<in> set (ready_queue st)) \<and>
    (t \<in> set (zombie_queue st) \<longrightarrow> th_state (thr st t) = THREAD_TERMINATED) \<and>
    (\<forall>q q'. t \<in> set (queues st q) \<and> t \<in> set (queues st q') \<longrightarrow> q = q') \<and> (\<forall>q. distinct (queues st q)) \<and>
    0 \<le> prio st t \<and> prio st t \<le> 100 \<and>
    (sched_policy st = THREAD_SCHED_PRIO \<longrightarrow> sorted_wrt (\<lambda>a b. prio st b \<le> prio st a) (ready_queue st))"
proof -
  have i: "sched_inv st" using user_invD(2) [OF reachable_user [OF assms(1,2)]] .
  note ok = sched_inv_queues_ok [OF i]
  have wf: "thread_wf (current_thread st = t) (thr st t)" using sched_inv_wf [OF i assms(3)] by (simp add: eq_commute)
  note mem = queues_ok_mem [OF ok, of t]
  have "th_state (thr st t) = THREAD_READY \<longleftrightarrow> entries (thr st t) = Some ReadyQ"
    "entries (thr st t) = Some ZombieQ \<longrightarrow> th_state (thr st t) = THREAD_TERMINATED"
    using wf by (cases "th_state (thr st t)"; auto simp: thread_wf_def)+
  moreover have "prio_ok st" using i by (simp add: sched_inv_def flight_inv_def)
  ultimately show ?thesis using wf mem queues_ok_distinct [OF ok]
    by (auto simp: thread_wf_def prio_ok_def THREAD_MIN_PRIORITY_def THREAD_MAX_PRIORITY_def)
qed

theorem threads_well_placed_witness:
  "\<exists>st. run lib_call [C_create True (Some 1) 5, C_create True (Some 1) 6] (demo_start THREAD_SCHED_FIFO) =
      Some (st, [Ret 0 (Out_thread 3), Ret 0 (Out_thread 4)]) \<and>
    th_state (thr st 3) = THREAD_READY \<and> th_state (thr st 0) = THREAD_RUNNING \<and> prio st 3 \<le> 100"
proof -
  from demo_two obtain st where st: "run lib_call [C_create True (Some 1) 5, C_create True (Some 1) 6] (demo_start THREAD_SCHED_FIFO) =
      Some (st, [Ret 0 (Out_thread 3), Ret 0 (Out_thread 4)])" "ready_queue st = [3, 4]" "live st = {0, 3, 4}" "current_thread st = 0" by blast
  have r: "reachable lib_call (demo_start THREAD_SCHED_FIFO) (st, User)" by (rule demo_reachable [OF st(1)]) simp
  have "th_state (thr st 3) = THREAD_READY" "prio st 3 \<le> 100"
    using threads_well_placed [OF demo_env_sane r, of 3] st(2,3) by auto
  moreover have "th_state (thr st 0) = THREAD_RUNNING" using threads_well_placed [OF demo_env_sane r, of 0] st(3,4) by auto
  ultimately show ?thesis using st(1) by blast
qed

text \<open>C3. In every reachable state the stack of a live thread is a mapped, page-aligned region above its
  guard page, disjoint from the stacks of all other live threads and from the pooled and the deferred
  stacks.\<close>

theorem stacks_separate:
  assumes "os_sane env" "reachable lib_call (initial_sys env mem) (st, User)" "t \<in> live st" "stack_map (thr st t) = Some m"
  shows "m \<in> mapped st \<and> m \<noteq> 0 \<and> m mod 4096 = 0 \<and> stack_base (thr st t) = Some (m + GUARD_SIZE) \<and>
    (\<forall>u \<in> live st. \<forall>n. u \<noteq> t \<longrightarrow> stack_map (thr st u) = Some n \<longrightarrow> region_disjoint m n) \<and>
    (\<forall>e \<in> set (stack_pool st) \<union> set (deferred_stacks st). region_disjoint m (se_map e))"
proof -
  have sk: "stacks_ok st" using user_invD(8) [OF reachable_user [OF assms(1,2)]] by (simp add: mem_inv_def)
  have own: "stack_owned st t m" using stacks_ok_owned [OF sk assms(3,4)] .
  have use: "in_use st = deferred_maps st \<union> stacks_of (live st) st" and po: "pool_ok st" using sk by (simp_all add: stacks_ok_def)
  have dis: "region_disjoint a b" if "a \<in> mapped st" "b \<in> mapped st" "a \<noteq> b" for a b using po that by (simp add: pool_ok_def)
  have mm: "m \<in> in_use st" using use assms(3,4) by (auto simp: stacks_of_def)
  then have m: "m \<in> mapped st" "m \<notin> pool_maps st" by (simp_all add: in_use_def)
  have "region_disjoint m n" if "u \<in> live st" "u \<noteq> t" "stack_map (thr st u) = Some n" for u n
    using that own use m dis [of m n] by (auto simp: stack_owned_def stacks_of_def in_use_def)
  moreover have "region_disjoint m (se_map e)" if "e \<in> set (stack_pool st)" for e
  proof -
    have "se_map e \<in> pool_maps st" "pool_maps st \<subseteq> mapped st" using that po by (auto simp: pool_maps_def pool_ok_def)
    then show ?thesis using m dis [of m "se_map e"] by auto
  qed
  moreover have "region_disjoint m (se_map e)" if "e \<in> set (deferred_stacks st)" for e
  proof -
    have "se_map e \<in> deferred_maps st" using that by (simp add: deferred_maps_def)
    then show ?thesis using own m use dis [of m "se_map e"] by (auto simp: stack_owned_def in_use_def)
  qed
  moreover have "entry_ok (entry_of m (thr st t))" using own by (simp add: stack_owned_def)
  then have "m \<noteq> 0" "m mod 4096 = 0" "stack_base (thr st t) = Some (m + GUARD_SIZE)"
    by (auto simp: entry_ok_def entry_of_def GUARD_SIZE_def split: option.splits)
  ultimately show ?thesis using m(1) by blast
qed

theorem stacks_separate_witness:
  "\<exists>st. run lib_call [C_create True (Some 1) 5, C_create True (Some 1) 6] (demo_start THREAD_SCHED_FIFO) =
      Some (st, [Ret 0 (Out_thread 3), Ret 0 (Out_thread 4)]) \<and> stack_base (thr st 3) = Some (65536 + GUARD_SIZE) \<and>
    region_disjoint 65536 131072"
proof -
  from demo_two obtain st where st: "run lib_call [C_create True (Some 1) 5, C_create True (Some 1) 6] (demo_start THREAD_SCHED_FIFO) =
      Some (st, [Ret 0 (Out_thread 3), Ret 0 (Out_thread 4)])" "live st = {0, 3, 4}" "stack_map (thr st 3) = Some 65536"
    "stack_map (thr st 4) = Some 131072" by blast
  have r: "reachable lib_call (demo_start THREAD_SCHED_FIFO) (st, User)" by (rule demo_reachable [OF st(1)]) simp
  from stacks_separate [OF demo_env_sane r, of 3 65536] st(2-4)
  have "stack_base (thr st 3) = Some (65536 + GUARD_SIZE)" "region_disjoint 65536 131072" by auto
  with st(1) show ?thesis by blast
qed

text \<open>A thread that waits for signals is blocked and has none of them pending.\<close>

lemma no_signal_lost:
  assumes "os_sane env" "reachable lib_call (initial_sys env mem) (st, User)" "t \<in> live st" "waiting_for_signal (thr st t)"
  shows "th_state (thr st t) = THREAD_BLOCKED \<and> and (pending_signals (thr st t)) (waited_signals (thr st t)) = 0"
  using user_invD(3) [OF reachable_user [OF assms(1,2)]] assms(3,4) by (simp add: sig_inv_def sig_ok_def)

text \<open>C4. In every reachable state the join relation is one-to-one: a thread that waits for another is its
  only joiner, is blocked until the other has terminated and is ready afterwards; and a terminated
  thread with a joiner stays out of the zombie queue.\<close>

theorem joins_one_to_one:
  assumes "os_sane env" "reachable lib_call (initial_sys env mem) (st, User)" "j \<in> live st" "waiting_for (thr st j) = Some t"
  shows "t \<in> live st \<and> t \<noteq> j \<and> joined_by (thr st t) = Some j \<and>
    (\<forall>k \<in> live st. waiting_for (thr st k) = Some t \<longrightarrow> k = j) \<and>
    (th_state (thr st t) \<noteq> THREAD_TERMINATED \<longrightarrow> th_state (thr st j) = THREAD_BLOCKED) \<and>
    (th_state (thr st t) = THREAD_TERMINATED \<longrightarrow> j \<in> set (ready_queue st) \<and> t \<notin> set (zombie_queue st))"
proof -
  note u = reachable_user [OF assms(1,2)]
  note i = user_invD [OF u]
  have l: "t \<in> live st" "joined_by (thr st t) = Some j" "join_link st t j" using join_inv_waits [OF i(4) assms(3,4)] by auto
  have "j \<noteq> current_thread st" using assms(4) i(6) by auto
  then have nr: "th_state (thr st j) \<noteq> THREAD_RUNNING" using sched_inv_wf [OF i(2) assms(3)] by (auto simp: thread_wf_def)
  have rq: "th_state (thr st j) = THREAD_READY \<Longrightarrow> j \<in> set (ready_queue st)"
    using sched_inv_wf [OF i(2) assms(3)] queues_ok_mem [OF sched_inv_queues_ok [OF i(2)], of j ReadyQ] by (simp add: thread_wf_def)
  have zq: "entries (thr st t) = None \<Longrightarrow> t \<notin> set (zombie_queue st)"
    using queues_ok_mem [OF sched_inv_queues_ok [OF i(2)], of t ZombieQ] by simp
  have "\<forall>k \<in> live st. waiting_for (thr st k) = Some t \<longrightarrow> k = j" using join_inv_waits [OF i(4)] l(2) by (metis option.inject)
  moreover have "th_state (thr st t) \<noteq> THREAD_TERMINATED \<longrightarrow> th_state (thr st j) = THREAD_BLOCKED" "t \<noteq> j"
    using l(3) by (simp_all add: join_link_def)
  moreover have "th_state (thr st t) = THREAD_TERMINATED \<longrightarrow> j \<in> set (ready_queue st) \<and> t \<notin> set (zombie_queue st)"
    using l(3) nr rq zq by (cases "th_state (thr st t) = THREAD_TERMINATED") (auto simp: join_link_def)
  ultimately show ?thesis using l(1,2) by simp
qed

text \<open>C24. In every reachable state the pools respect their bounds and hold no entry twice, and no live
  thread is in the pool of free structures.\<close>

theorem resources_bounded:
  assumes "os_sane env" "reachable lib_call (initial_sys env mem) (st, User)"
  shows "length (stack_pool st) \<le> 131072 \<and> length (deferred_stacks st) \<le> 16384 \<and> length (thread_pool st) \<le> 50000 \<and>
    distinct (map se_map (stack_pool st)) \<and> distinct (map se_map (deferred_stacks st)) \<and> distinct (thread_pool st) \<and>
    live st \<inter> set (thread_pool st) = {}"
proof -
  from user_invD(8) [OF reachable_user [OF assms]] obtain R where sk: "stacks_ok st" and sr: "structs_ok R st"
    by (auto simp: mem_inv_def)
  have "length (stack_pool st) \<le> 131072" "length (deferred_stacks st) \<le> 16384"
    "distinct (map se_map (stack_pool st))" "distinct (map se_map (deferred_stacks st))"
    using sk by (simp_all add: stacks_ok_def pool_ok_def MAX_POOLED_STACKS_def MAX_DEFERRED_STACKS_def)
  moreover have "length (thread_pool st) \<le> 50000" "distinct (blocks st)" "live st \<inter> set (blocks st) = {}"
    using sr by (simp_all add: structs_ok_def MAX_POOLED_THREADS_def)
  ultimately show ?thesis by (auto simp: blocks_def)
qed

theorem resources_bounded_witness:
  "\<exists>st. run lib_call [C_create True (Some 1) 5, C_create True (Some 1) 6] (demo_start THREAD_SCHED_FIFO) =
      Some (st, [Ret 0 (Out_thread 3), Ret 0 (Out_thread 4)]) \<and> length (stack_pool st) \<le> 131072 \<and> live st \<inter> set (thread_pool st) = {}"
proof -
  from demo_two obtain st where st: "run lib_call [C_create True (Some 1) 5, C_create True (Some 1) 6] (demo_start THREAD_SCHED_FIFO) =
      Some (st, [Ret 0 (Out_thread 3), Ret 0 (Out_thread 4)])" by blast
  have r: "reachable lib_call (demo_start THREAD_SCHED_FIFO) (st, User)" by (rule demo_reachable [OF st]) simp
  from resources_bounded [OF demo_env_sane r] st show ?thesis by blast
qed

lemma demo_joining:
  "\<exists>st. run lib_call [C_create True (Some 1) 5, C_join (Some 3) True] (demo_start THREAD_SCHED_FIFO) =
      Some (st, [Ret 0 (Out_thread 3), Ret 0 No_out]) \<and> live st = {0, 3} \<and> waiting_for (thr st 0) = Some 3"
  by (simp add: run_eqs insert_commute) auto

theorem joins_one_to_one_witness:
  "\<exists>st. run lib_call [C_create True (Some 1) 5, C_join (Some 3) True] (demo_start THREAD_SCHED_FIFO) =
      Some (st, [Ret 0 (Out_thread 3), Ret 0 No_out]) \<and> joined_by (thr st 3) = Some 0"
proof -
  from demo_joining obtain st where st: "run lib_call [C_create True (Some 1) 5, C_join (Some 3) True] (demo_start THREAD_SCHED_FIFO) =
      Some (st, [Ret 0 (Out_thread 3), Ret 0 No_out])" "live st = {0, 3}" "waiting_for (thr st 0) = Some 3" by blast
  have r: "reachable lib_call (demo_start THREAD_SCHED_FIFO) (st, User)" by (rule demo_reachable [OF st(1)]) simp
  from joins_one_to_one [OF demo_env_sane r, of 0 3] st show ?thesis by blast
qed

section \<open>Termination and joining\<close>

text \<open>C6. A thread that exits while another one waits for it in \<open>thread_join\<close> makes that thread ready or
  runs it at once, keeps its return value for it, and stays out of the zombie queue; its structure is
  not released yet.\<close>

theorem exit_wakes_joiner:
  assumes "os_sane env" "reachable lib_call (initial_sys env mem) (st, User)" "joined_by (thr st (current_thread st)) = Some j"
  shows "\<exists>st' want. thread_exit rv st = Some (st', Switched) \<and> (j = current_thread st' \<or> j \<in> set (ready_queue st')) \<and>
    saved_ctx (thr st' j) = [F_join (current_thread st) want] \<and> th_state (thr st' (current_thread st)) = THREAD_TERMINATED \<and>
    retval (thr st' (current_thread st)) = rv \<and> current_thread st \<in> live st' \<and> current_thread st \<notin> set (zombie_queue st')"
proof -
  let ?c = "current_thread st"
  note i = user_invD [OF reachable_user [OF assms(1,2)]]
  have c: "?c \<in> live st" "th_state (thr st ?c) = THREAD_RUNNING" using i(2) sched_inv_current(1) [OF i(2)] by (simp_all add: sched_inv_def)
  have l: "join_link st ?c j" using join_inv_link [OF i(4) c(1) assms(3)] c(2) by simp
  then have j: "j \<in> active st - {?c}" "waiting_for (thr st j) = Some ?c" using c(2) by (auto simp: join_link_def active_def)
  with i(7) have k: "ctx_ok (saved_ctx (thr st j))" "join_target (saved_ctx (thr st j)) = Some ?c" by (auto simp: ctxs_ok_def)
  then obtain want where w: "saved_ctx (thr st j) = [F_join ?c want]"
    by (auto simp: ctx_ok_def join_target_def split: list.splits frame.splits)
  have "j \<in> set (exit_ready st)" using assms(3) by (simp add: exit_ready_def)
  then obtain n ns where q: "exit_ready st = n # ns" by (cases "exit_ready st") auto
  from exit_fields [OF i(2,5,4) q, of rv] obtain st' where st': "thread_exit rv st = Some (st', Switched)" "current_thread st' = n"
    "live st' = live st" "ready_queue st' = ns" "zombie_queue st' = zombie_queue st"
    and v: "\<And>x. exit_view rv n st (thr st' x) x" using assms(3) by (auto simp: becomes_zombie_def)
  have "?c \<notin> set (zombie_queue st)"
    using queues_ok_mem [OF sched_inv_queues_ok [OF i(2)], of ?c ZombieQ] sched_inv_current(2) [OF i(2)] by simp
  then show ?thesis using st' v [of j] v [of ?c] w c(1) \<open>j \<in> set (exit_ready st)\<close> q by (auto simp: exit_view_def)
qed

text \<open>C5. The value that a thread exits with reaches its joiner, whatever the other threads do in between
  and however long it takes: as long as the structure of the thread has not been released, a thread
  that is resumed in \<open>thread_join\<close> gets exactly that value, and so does a thread that calls
  \<open>thread_join\<close> only afterwards; both release the structure.\<close>

theorem join_returns_value:
  assumes "os_sane env" "reachable lib_call (initial_sys env mem) (s1, User)" "thread_exit rv s1 = Some (s2, Switched)"
    "t = current_thread s1"
  shows "(outlives lib_call t (s2, Switching) (st, Switching) \<and> saved_ctx (thr st (current_thread st)) = [F_join t want] \<longrightarrow>
      (\<exists>st'. resume_current st = Some (st', Ret 0 (if want then Out_val rv else No_out)) \<and> user_inv {} st' \<and> (t \<noteq> main_thread \<longrightarrow> t \<notin> live st'))) \<and>
    (outlives lib_call t (s2, Switching) (st, User) \<and> joined_by (thr st t) = None \<longrightarrow>
      (\<exists>st'. thread_join [] (Some t) want st = Some (st', Ret 0 (if want then Out_val rv else No_out)) \<and> user_inv {} st' \<and>
        (t \<noteq> main_thread \<longrightarrow> t \<notin> live st')))"
proof -
  note u = reachable_user [OF assms(1,2)]
  have "sys_step lib_call (s1, User) (s2, Switching)"
    using sys_step.call [of lib_call s1 "C_exit rv" s2 Switched] assms(3) by (simp add: lib_call_def)
  with assms(2) have r: "reachable lib_call (initial_sys env mem) (s2, Switching)" by (rule reachable.step)
  note f = exit_leaves_fate [OF u assms(3)]
  have "t \<in> live s1" "th_state (thr s1 t) = THREAD_RUNNING"
    using user_invD(2) [OF u] sched_inv_current(1) [OF user_invD(2) [OF u]] assms(4) by (simp_all add: sched_inv_def)
  then have "\<not> stack_overflow (thr s1 t)" using reachable_unmarked [OF assms(2,1)] by (auto simp: unmarked_def)
  then show ?thesis using fate_reaches_joiner [OF assms(1) r, of t rv False] f assms(4) by simp
qed

lemma demo_join_exit:
  "\<exists>st s2. run lib_call [C_create True (Some 1) 5, C_join (Some 3) True] (demo_start THREAD_SCHED_FIFO) =
      Some (st, [Ret 0 (Out_thread 3), Ret 0 No_out]) \<and> current_thread st = 3 \<and> joined_by (thr st 3) = Some 0 \<and>
    exec_call (C_exit 42) st = Some (s2, Switched) \<and> lib_call st (C_exit 42) \<and> current_thread s2 = 0 \<and>
    saved_ctx (thr s2 0) = [F_join 3 True] \<and> retval (thr s2 3) = 42 \<and> \<not> stack_overflow (thr s2 3)"
  by (simp add: run_eqs)

theorem exit_wakes_joiner_witness:
  "\<exists>st st'. run lib_call [C_create True (Some 1) 5, C_join (Some 3) True] (demo_start THREAD_SCHED_FIFO) =
      Some (st, [Ret 0 (Out_thread 3), Ret 0 No_out]) \<and> thread_exit 42 st = Some (st', Switched) \<and> retval (thr st' 3) = 42"
proof -
  from demo_join_exit obtain st where st: "run lib_call [C_create True (Some 1) 5, C_join (Some 3) True] (demo_start THREAD_SCHED_FIFO) =
      Some (st, [Ret 0 (Out_thread 3), Ret 0 No_out])" "current_thread st = 3" "joined_by (thr st 3) = Some 0" by blast
  have r: "reachable lib_call (demo_start THREAD_SCHED_FIFO) (st, User)" by (rule demo_reachable [OF st(1)]) simp
  from exit_wakes_joiner [OF demo_env_sane r, of 0 42] st show ?thesis by auto
qed

text \<open>Thread 3 exits while the main thread waits for it; thread 4 runs in between.\<close>

lemma demo_late_exit:
  "\<exists>s1 s2 s3 s4. run lib_call [C_create True (Some 1) 5, C_create True (Some 1) 6, C_join (Some 3) True] (demo_start THREAD_SCHED_FIFO) =
      Some (s1, [Ret 0 (Out_thread 3), Ret 0 (Out_thread 4), Ret 0 No_out]) \<and> current_thread s1 = 3 \<and>
    thread_exit 42 s1 = Some (s2, Switched) \<and> resume_current s2 = Some (s3, Ret 0 No_out) \<and> current_thread s3 = 4 \<and>
    thread_yield [] s3 = Some (s4, Switched) \<and> current_thread s4 = 0 \<and> saved_ctx (thr s4 0) = [F_join 3 True] \<and>
    3 \<in> live s2 \<and> 3 \<in> live s3 \<and> 3 \<in> live s4"
  by (simp add: run_eqs)

theorem join_returns_value_witness:
  "\<exists>s1 s2 s3 s4 s5. run lib_call [C_create True (Some 1) 5, C_create True (Some 1) 6, C_join (Some 3) True] (demo_start THREAD_SCHED_FIFO) =
      Some (s1, [Ret 0 (Out_thread 3), Ret 0 (Out_thread 4), Ret 0 No_out]) \<and> thread_exit 42 s1 = Some (s2, Switched) \<and>
    resume_current s2 = Some (s3, Ret 0 No_out) \<and> thread_yield [] s3 = Some (s4, Switched) \<and>
    resume_current s4 = Some (s5, Ret 0 (Out_val 42)) \<and> 3 \<notin> live s5"
proof -
  from demo_late_exit obtain s1 s2 s3 s4 where
    s: "run lib_call [C_create True (Some 1) 5, C_create True (Some 1) 6, C_join (Some 3) True] (demo_start THREAD_SCHED_FIFO) =
      Some (s1, [Ret 0 (Out_thread 3), Ret 0 (Out_thread 4), Ret 0 No_out])" "current_thread s1 = 3"
    "thread_exit 42 s1 = Some (s2, Switched)" "resume_current s2 = Some (s3, Ret 0 No_out)"
    "thread_yield [] s3 = Some (s4, Switched)" "current_thread s4 = 0" "saved_ctx (thr s4 0) = [F_join 3 True]"
    and l: "3 \<in> live s2" "3 \<in> live s3" "3 \<in> live s4" by blast
  have r: "reachable lib_call (demo_start THREAD_SCHED_FIFO) (s1, User)" by (rule demo_reachable [OF s(1)]) simp
  have "sys_step lib_call (s2, Switching) (s3, User)" using sys_step.switch [OF s(4), of lib_call] by simp
  moreover have "sys_step lib_call (s3, User) (s4, Switching)"
    using sys_step.call [of lib_call s3 C_yield s4 Switched] s(5) by (simp add: lib_call_def)
  moreover have "outlives lib_call 3 (s2, Switching) (s2, Switching)" using l(1) by (simp add: outlives.here)
  ultimately have "outlives lib_call 3 (s2, Switching) (s4, Switching)" using l by (metis fst_conv outlives.later)
  with join_returns_value [OF demo_env_sane r s(3), of 3 s4 True] s show ?thesis by (auto simp: main_thread_def)
qed

lemma demo_late_exit_main:
  "\<exists>s1 s2. run lib_call [C_create True (Some 1) 5, C_create True (Some 1) 6, C_join (Some 3) True] (demo_start THREAD_SCHED_FIFO) =
      Some (s1, [Ret 0 (Out_thread 3), Ret 0 (Out_thread 4), Ret 0 No_out]) \<and> thread_exit 42 s1 = Some (s2, Switched) \<and>
    0 \<in> live s1 \<and> th_state (thr s1 0) \<noteq> THREAD_TERMINATED \<and> current_thread s2 = 4"
  by (simp add: run_eqs)

text \<open>C9. The context of a suspended thread is safe from the others: as long as it is not switched to,
  it stays alive and the library calls it has to resume are the same, whatever the other threads
  call and whatever signals arrive.\<close>

theorem context_preserved:
  assumes "os_sane env" "reachable lib_call (initial_sys env mem) s0" "t \<in> active (fst s0)" "sleeps lib_call t s0 (st, mo)"
    "mo = User \<or> mo = Switching"
  shows "t \<in> live st \<and> th_state (thr st t) \<noteq> THREAD_TERMINATED \<and> saved_ctx (thr st t) = saved_ctx (thr (fst s0) t)"
proof -
  have "mode_inv s0" using reachable_inv [OF assms(2)] initial_inv [OF assms(1)] by simp
  from sleeps_context [OF assms(4) this assms(3)] assms(5) show ?thesis by (auto simp: active_def)
qed

theorem context_preserved_witness:
  "\<exists>s1 s2 s3 s4. run lib_call [C_create True (Some 1) 5, C_create True (Some 1) 6, C_join (Some 3) True] (demo_start THREAD_SCHED_FIFO) =
      Some (s1, [Ret 0 (Out_thread 3), Ret 0 (Out_thread 4), Ret 0 No_out]) \<and> thread_exit 42 s1 = Some (s2, Switched) \<and>
    resume_current s2 = Some (s3, Ret 0 No_out) \<and> thread_yield [] s3 = Some (s4, Switched) \<and>
    saved_ctx (thr s4 0) = saved_ctx (thr s1 0)"
proof -
  from demo_late_exit obtain s1 s2 s3 s4 where
    s: "run lib_call [C_create True (Some 1) 5, C_create True (Some 1) 6, C_join (Some 3) True] (demo_start THREAD_SCHED_FIFO) =
      Some (s1, [Ret 0 (Out_thread 3), Ret 0 (Out_thread 4), Ret 0 No_out])" "current_thread s1 = 3"
    "thread_exit 42 s1 = Some (s2, Switched)" "resume_current s2 = Some (s3, Ret 0 No_out)" "current_thread s3 = 4"
    "thread_yield [] s3 = Some (s4, Switched)" by blast
  with demo_late_exit_main have a: "0 \<in> active s1" "current_thread s2 = 4" by (auto simp: active_def)
  have r: "reachable lib_call (demo_start THREAD_SCHED_FIFO) (s1, User)" by (rule demo_reachable [OF s(1)]) simp
  have "sys_step lib_call (s1, User) (s2, Switching)"
    using sys_step.call [of lib_call s1 "C_exit 42" s2 Switched] s(3) by (simp add: lib_call_def)
  from sleeps.later [OF sleeps.here [of _ 0] _ this] have "sleeps lib_call 0 (s1, User) (s2, Switching)" using s(2) by simp
  moreover have "sys_step lib_call (s2, Switching) (s3, User)" using sys_step.switch [OF s(4), of lib_call] by simp
  ultimately have "sleeps lib_call 0 (s1, User) (s3, User)" using a(2) by (simp add: sleeps.later [of _ _ _ "(s2, Switching)"])
  moreover have "sys_step lib_call (s3, User) (s4, Switching)"
    using sys_step.call [of lib_call s3 C_yield s4 Switched] s(6) by (simp add: lib_call_def)
  ultimately have "sleeps lib_call 0 (s1, User) (s4, Switching)" using s(5) by (simp add: sleeps.later [of _ _ _ "(s3, User)"])
  with context_preserved [OF demo_env_sane r, of 0 s4 Switching] a(1) s show ?thesis by auto
qed

text \<open>Thread 3 exits before anybody waits for it.\<close>

lemma demo_zombie:
  "\<exists>st. run lib_call [C_create True (Some 1) 5, C_yield, C_exit 7] (demo_start THREAD_SCHED_FIFO) =
      Some (st, [Ret 0 (Out_thread 3), Ret 0 No_out, Ret 0 No_out]) \<and> current_thread st = 0 \<and> live st = {0, 3} \<and>
    th_state (thr st 3) = THREAD_TERMINATED \<and> joined_by (thr st 3) = None \<and> retval (thr st 3) = 7 \<and> zombie_queue st = [3] \<and>
    ready_queue st = [] \<and> joined_by (thr st 0) = None \<and> th_state (thr st 0) = THREAD_RUNNING \<and> atexit_handlers st = registered_handlers"
  by (simp add: run_eqs insert_commute) auto

text \<open>C38. \<open>thread_join\<close> on every branch that fails.  A null handle and a thread that has a joiner
  give \<open>EINVAL\<close>, the caller itself \<open>EDEADLK\<close>; for a thread that has not terminated, a missing join-chain slot of
  the target or of the caller gives \<open>EINVAL\<close> and a chain that closes at its head \<open>EDEADLK\<close>; these calls change
  nothing but the error number and the signal mask.  When no other thread is ready, the call gives
  \<open>EDEADLK\<close> and the caller goes on running, but stays registered with the target.  A joiner that is resumed
  after its target overflowed its stack gets -1 with \<open>EFAULT\<close>.\<close>

theorem join_error_branches:
  assumes "sched_inv st"
  shows "thread_join [] None want st = Some (set_errno EINVAL st, Ret (-1) No_out) \<and>
    (joined_by (thr st t) \<noteq> None \<longrightarrow> thread_join [] (Some t) want st = Some (set_errno EINVAL st, Ret (-1) No_out)) \<and>
    (joined_by (thr st (current_thread st)) = None \<longrightarrow>
      thread_join [] (Some (current_thread st)) want st = Some (set_errno EDEADLK st, Ret EDEADLK No_out)) \<and>
    (joined_by (thr st t) = None \<and> t \<noteq> current_thread st \<and> th_state (thr st t) \<noteq> THREAD_TERMINATED \<longrightarrow>
      (case (head_joiner (thr st t), head_joiner (thr st (current_thread st))) of
         (Some r, Some r') \<Rightarrow>
           if r' = r \<and> head_cells st r = t
           then thread_join [] (Some t) want st = Some (set_errno EDEADLK (unblock (block st)), Ret EDEADLK No_out)
           else ready_queue st = [] \<longrightarrow> (\<exists>st'. thread_join [] (Some t) want st = Some (st', Ret EDEADLK No_out) \<and> sched_inv st' \<and>
             errno st' = EDEADLK \<and> current_thread st' = current_thread st \<and> queues st' = queues st \<and>
             th_state (thr st' (current_thread st)) = THREAD_RUNNING \<and> waiting_for (thr st' (current_thread st)) = None \<and>
             joined_by (thr st' t) = Some (current_thread st))
       | _ \<Rightarrow> thread_join [] (Some t) want st = Some (set_errno EINVAL (unblock (block st)), Ret (-1) No_out))) \<and>
    (os_sane env \<and> reachable lib_call (initial_sys env mem) (s, Switching) \<and>
       saved_ctx (thr s (current_thread s)) = [F_join t want] \<and> stack_overflow (thr s t) \<longrightarrow>
      (\<exists>s'. resume_current s = Some (s', Ret (-1) (if want then Out_val (retval (thr s t)) else No_out)) \<and> errno s' = EFAULT))"
proof (intro conjI impI)
  assume a: "joined_by (thr st t) = None \<and> t \<noteq> current_thread st \<and> th_state (thr st t) \<noteq> THREAD_TERMINATED"
  show "case (head_joiner (thr st t), head_joiner (thr st (current_thread st))) of
         (Some r, Some r') \<Rightarrow>
           if r' = r \<and> head_cells st r = t
           then thread_join [] (Some t) want st = Some (set_errno EDEADLK (unblock (block st)), Ret EDEADLK No_out)
           else ready_queue st = [] \<longrightarrow> (\<exists>st'. thread_join [] (Some t) want st = Some (st', Ret EDEADLK No_out) \<and> sched_inv st' \<and>
             errno st' = EDEADLK \<and> current_thread st' = current_thread st \<and> queues st' = queues st \<and>
             th_state (thr st' (current_thread st)) = THREAD_RUNNING \<and> waiting_for (thr st' (current_thread st)) = None \<and>
             joined_by (thr st' t) = Some (current_thread st))
       | _ \<Rightarrow> thread_join [] (Some t) want st = Some (set_errno EINVAL (unblock (block st)), Ret (-1) No_out)"
  proof (cases "head_joiner (thr st t) = None \<or> head_joiner (thr st (current_thread st)) = None")
    case True
    then show ?thesis using a join_no_slot [of st t "[]" want] by (auto split: option.splits)
  next
    case False
    then obtain r r' where r: "head_joiner (thr st t) = Some r" "head_joiner (thr st (current_thread st)) = Some r'" by auto
    show ?thesis
    proof (cases "r' = r \<and> head_cells st r = t")
      case True
      then show ?thesis using a r join_chain_deadlock [of st t r "[]" want] by simp
    next
      case False
      then show ?thesis using a r join_fails_registered [OF assms, of t r r' "[]" want] by auto
    qed
  qed
next
  assume a: "os_sane env \<and> reachable lib_call (initial_sys env mem) (s, Switching) \<and>
    saved_ctx (thr s (current_thread s)) = [F_join t want] \<and> stack_overflow (thr s t)"
  then show "\<exists>s'. resume_current s = Some (s', Ret (-1) (if want then Out_val (retval (thr s t)) else No_out)) \<and> errno s' = EFAULT"
    using join_resumes [of env mem s t want] by auto
qed (auto simp: join_null join_twice join_self)

text \<open>Thread 3 waits for a semaphore, so that no thread is ready when the main thread joins it.\<close>

lemma demo_alone:
  "\<exists>st. run lib_call [C_sem_init (Some 9) 0, C_create True (Some 1) 0, C_yield, C_sem_wait (Some 9)] (demo_start THREAD_SCHED_FIFO) =
      Some (st, [Ret 0 No_out, Ret 0 (Out_thread 3), Ret 0 No_out, Ret 0 No_out]) \<and> current_thread st = 0 \<and> ready_queue st = [] \<and>
    joined_by (thr st 3) = None \<and> th_state (thr st 3) \<noteq> THREAD_TERMINATED"
  "\<exists>st. run lib_call [C_sem_init (Some 9) 0, C_create True (Some 1) 0, C_yield, C_sem_wait (Some 9)] (demo_start THREAD_SCHED_FIFO) =
      Some (st, [Ret 0 No_out, Ret 0 (Out_thread 3), Ret 0 No_out, Ret 0 No_out]) \<and>
    (\<exists>r r'. head_joiner (thr st 3) = Some r \<and> head_joiner (thr st 0) = Some r' \<and> r' \<noteq> r)"
  by (simp_all add: run_eqs thread_sem_init_def thread_sem_wait_def fast_swap_context_def)

theorem join_error_branches_witness:
  "\<exists>st st'. run lib_call [C_sem_init (Some 9) 0, C_create True (Some 1) 0, C_yield, C_sem_wait (Some 9)] (demo_start THREAD_SCHED_FIFO) =
      Some (st, [Ret 0 No_out, Ret 0 (Out_thread 3), Ret 0 No_out, Ret 0 No_out]) \<and>
    thread_join [] (Some 3) True st = Some (st', Ret EDEADLK No_out) \<and> th_state (thr st' 0) = THREAD_RUNNING \<and> joined_by (thr st' 3) = Some 0 \<and>
    thread_join [] (Some 4) True (demo THREAD_SCHED_FIFO [1] (MutexQ 0) [4]) =
      Some (set_errno EINVAL (unblock (block (demo THREAD_SCHED_FIFO [1] (MutexQ 0) [4]))), Ret (-1) No_out)"
proof -
  from demo_alone obtain st where st: "run lib_call [C_sem_init (Some 9) 0, C_create True (Some 1) 0, C_yield, C_sem_wait (Some 9)] (demo_start THREAD_SCHED_FIFO) =
      Some (st, [Ret 0 No_out, Ret 0 (Out_thread 3), Ret 0 No_out, Ret 0 No_out])" "current_thread st = 0" "ready_queue st = []"
    "joined_by (thr st 3) = None" "th_state (thr st 3) \<noteq> THREAD_TERMINATED"
    "\<exists>r r'. head_joiner (thr st 3) = Some r \<and> head_joiner (thr st 0) = Some r' \<and> r' \<noteq> r" by auto
  then obtain p p' where p: "head_joiner (thr st 3) = Some p" "head_joiner (thr st 0) = Some p'" "p' \<noteq> p" by blast
  have r: "reachable lib_call (demo_start THREAD_SCHED_FIFO) (st, User)" by (rule demo_reachable [OF st(1)]) simp
  have i: "sched_inv st" using user_invD(2) [OF reachable_user [OF demo_env_sane r]] .
  have "\<exists>st'. thread_join [] (Some 3) True st = Some (st', Ret EDEADLK No_out) \<and> th_state (thr st' 0) = THREAD_RUNNING \<and> joined_by (thr st' 3) = Some 0"
    using join_error_branches [OF i, of True 3 "demo_env THREAD_SCHED_FIFO" demo_memory st] st(2-5) p by auto
  moreover have "thread_join [] (Some 4) True (demo THREAD_SCHED_FIFO [1] (MutexQ 0) [4]) =
      Some (set_errno EINVAL (unblock (block (demo THREAD_SCHED_FIFO [1] (MutexQ 0) [4]))), Ret (-1) No_out)"
    using join_error_branches [of "demo THREAD_SCHED_FIFO [1] (MutexQ 0) [4]" True 4] by (simp add: demo_inv demo_thr main_thread_init_def)
  ultimately show ?thesis using st(1) by blast
qed

section \<open>Creation\<close>

text \<open>C22. A new thread reuses the structure that was released last and the stack that was pooled last, and
  nothing of its former life is left: every field of the structure is set, with a fresh identifier, the
  default priority, no return value, no joiner, no overflow mark and no signals, and it heads a join chain
  of its own; it starts at \<open>thread_entry\<close>, and is ready; no other thread is touched.\<close>

theorem create_recycles:
  assumes "os_sane env" "reachable lib_call (initial_sys env mem) (st, User)" "scheduler_initialized st"
    "thread_pool st = ts @ [t]" "stack_pool st = es @ [e]" "head_ref_active_chunk st = Some c" "head_ref_active_index st < 1024"
    "next_thread_id st < INT_MAX"
  shows "\<exists>st'. thread_create [] True (Some f) a st = Some (st', Ret 0 (Out_thread t)) \<and> t \<notin> live st \<and> live st' = insert t (live st) \<and>
    thread_pool st' = ts \<and> stack_pool st' = es \<and> set (ready_queue st') = insert t (set (ready_queue st)) \<and>
    current_thread st' = current_thread st \<and> next_thread_id st' = next_thread_id st + 1 \<and> head_cells st' (c, head_ref_active_index st) = t \<and>
    thr st' t = \<lparr>saved_ctx = [F_entry], start_fun = f, arg = a, entries = Some ReadyQ, retval = 0, stack_map = Some (se_map e),
      stack_base = Some (se_stack e), joined_by = None, waiting_for = None, head_joiner = Some (c, head_ref_active_index st),
      th_id = next_thread_id st, th_state = THREAD_READY, valgrind_stack_id = se_valgrind_id e, priority = 10,
      in_ready_queue = True, in_zombie_queue = False, stack_overflow = False, pending_signals = 0,
      blocked_signals = 0, waited_signals = 0, waiting_for_signal = False\<rparr> \<and>
    (\<forall>u. u \<noteq> t \<longrightarrow> thr st' u = thr st u)"
proof -
  note u = reachable_user [OF assms(1,2)]
  note i = user_invD [OF u]
  let ?x = "(init_thread f a e (thr st t))\<lparr>head_joiner := Some (c, head_ref_active_index st), saved_ctx := [F_entry], th_id := next_thread_id st\<rparr>"
  let ?s = "st\<lparr>thread_pool := ts, stack_pool := es, head_ref_active_index := Suc (head_ref_active_index st),
    head_cells := (head_cells st)((c, head_ref_active_index st) := t), live := insert t (live st),
    sigmask := sigmask st \<union> (if enable_preemption st then sigvtalrm_mask st else {}), thr := (thr st)(t := ?x),
    next_thread_id := next_thread_id st + 1\<rparr>"
  have al: "thread_alloc st = (Some t, st\<lparr>thread_pool := ts\<rparr>)" using assms(4) by (simp add: thread_alloc_def)
  have t: "t \<notin> live st" using alloc_user [OF u al] by simp
  have cr: "thread_create [] True (Some f) a st =
      do { s \<leftarrow> thread_scheduler_enqueue t ?s; Some (unblock s, Ret 0 (Out_thread t)) }"
    using assms(3,5-8) al
    by (simp add: thread_create_def first_create_def stack_pool_empty_def Let_def create_loop.simps [of _ _ _ _ 0] stack_pool_alloc_def
        create_with_stack_def thread_head_ref_alloc_def HEAD_REF_CHUNK_SIZE_def take_slot_def upd_thread_def block_eq)
  have fl: "flight_inv {} (Some (current_thread st)) st" and cl: "current_thread st \<in> live st" using i(2) by (simp_all add: sched_inv_def)
  have en: "entries (thr st t) = None" using fl t by (auto simp: flight_inv_def)
  let ?o = "st\<lparr>thr := (thr st)(t := ?x)\<rparr>"
  have x: "unlinked ?x" "th_state ?x = THREAD_READY" using en
    by (simp_all add: unlinked_def init_thread_def THREAD_DEFAULT_PRIORITY_def THREAD_MIN_PRIORITY_def THREAD_MAX_PRIORITY_def)
  have "flight_inv {} (Some (current_thread st)) ?o" using flight_overwrite [OF fl t, of ?x] x(1) by (simp add: unlinked_def)
  from flight_adopt [OF this, of t] x(1) have "flight_inv {t} (Some (current_thread st)) (?o\<lparr>live := insert t (live ?o)\<rparr>)" by simp
  then have "flight_inv {t} (Some (current_thread st)) ?s"
    by (subst flight_cong [of _ "?o\<lparr>live := insert t (live ?o)\<rparr>"]) simp_all
  moreover have "Some (current_thread st) \<noteq> Some t" using cl t by auto
  ultimately obtain s where s: "thread_scheduler_enqueue t ?s = Some s" "queues s = (queues ?s)(ReadyQ := ready_insert ?s t)"
    "live s = live ?s" "current_thread s = current_thread ?s" "thr s = (thr ?s)(t := (thr ?s t)\<lparr>in_ready_queue := True, entries := Some ReadyQ\<rparr>)"
    using flight_enqueue [of "{t}" "Some (current_thread st)" ?s t] x(2) by auto
  note r = rest_sel [OF rest_enqueue [OF s(1)]]
  have "set (ready_queue (unblock s)) = insert t (set (ready_queue st))" using s(2) set_ready_insert [of ?s t] by (simp add: block_eq)
  then show ?thesis using cr s r(4,9,11,17) t
    by (cases "thr st t") (simp add: init_thread_def THREAD_DEFAULT_PRIORITY_def unblock_eq)
qed

text \<open>Two threads have been created and joined, and a third one has taken one of the two stacks.\<close>

definition recycle_script :: "call list" where
  "recycle_script = [C_create True (Some 1) 0, C_create True (Some 1) 0, C_join (Some 3) True, C_exit 1, C_exit 2, C_join (Some 4) True,
     C_create True (Some 1) 0]"

lemma demo_recycle:
  "\<exists>st. run lib_call recycle_script (demo_start THREAD_SCHED_FIFO) =
     Some (st, [Ret 0 (Out_thread 3), Ret 0 (Out_thread 4), Ret 0 No_out, Ret 0 No_out, Ret 0 (Out_val 1), Ret 0 (Out_val 2),
       Ret 0 (Out_thread 4)]) \<and>
    scheduler_initialized st \<and> thread_pool st = [3] \<and> stack_pool st = [\<lparr>se_map = 131072, se_stack = 135168, se_valgrind_id = 0\<rparr>] \<and>
    head_ref_active_chunk st = Some 1 \<and> head_ref_active_index st = 4 \<and> next_thread_id st = 4 \<and> live st = {0, 4}"
  by (simp add: recycle_script_def run_eqs reclaim_deferred_stacks_all_def reclaim_deferred_stacks_batch.simps stack_pool_push_def
      MAX_POOLED_STACKS_def insert_commute) auto

theorem create_recycles_witness:
  "\<exists>st st'. run lib_call recycle_script (demo_start THREAD_SCHED_FIFO) =
     Some (st, [Ret 0 (Out_thread 3), Ret 0 (Out_thread 4), Ret 0 No_out, Ret 0 No_out, Ret 0 (Out_val 1), Ret 0 (Out_val 2),
       Ret 0 (Out_thread 4)]) \<and>
    thread_create [] True (Some 8) 9 st = Some (st', Ret 0 (Out_thread 3)) \<and> th_id (thr st' 3) = 4 \<and> stack_map (thr st' 3) = Some 131072 \<and>
    retval (thr st' 3) = 0"
proof -
  from demo_recycle obtain st where st: "run lib_call recycle_script (demo_start THREAD_SCHED_FIFO) =
     Some (st, [Ret 0 (Out_thread 3), Ret 0 (Out_thread 4), Ret 0 No_out, Ret 0 No_out, Ret 0 (Out_val 1), Ret 0 (Out_val 2),
       Ret 0 (Out_thread 4)])" "scheduler_initialized st" "thread_pool st = [] @ [3]"
    "stack_pool st = [] @ [\<lparr>se_map = 131072, se_stack = 135168, se_valgrind_id = 0\<rparr>]"
    "head_ref_active_chunk st = Some 1" "head_ref_active_index st < 1024" "next_thread_id st = 4" "next_thread_id st < INT_MAX" by fastforce
  have r: "reachable lib_call (demo_start THREAD_SCHED_FIFO) (st, User)" by (rule demo_reachable [OF st(1)]) simp
  from create_recycles [OF demo_env_sane r st(2-6) st(8), of 8 9] st(7)
  have "\<exists>st'. thread_create [] True (Some 8) 9 st = Some (st', Ret 0 (Out_thread 3)) \<and> th_id (thr st' 3) = 4 \<and> stack_map (thr st' 3) = Some 131072 \<and>
    retval (thr st' 3) = 0" by auto
  with st(1) show ?thesis by blast
qed




















section \<open>The end of the process\<close>

text \<open>What the exit handlers leave allocated and mapped belongs to threads that have not been joined and
  have not terminated, and to calls of \<open>thread_create\<close> that have not returned.\<close>

lemma exit_releases:
  assumes "os_sane env" "reachable lib_call (initial_sys env mem) (st, User)" "atexit_handlers st = registered_handlers"
  shows "\<exists>st'. process_exit st = Some st' \<and> stack_pool st' = [] \<and> deferred_stacks st' = [] \<and> zombie_queue st' = [] \<and>
    allocated st' = (live st - set (zombie_queue st) - {main_thread}) \<union> pending (active st - {current_thread st}) st \<and>
    mapped st' = stacks_of (live st - set (zombie_queue st)) st"
proof -
  note u = reachable_user [OF assms(1,2)]
  note i = user_invD [OF u]
  have "set (zombie_queue st) \<subseteq> live st" using i(2) by (auto simp: sched_inv_def flight_inv_def queues_ok_mem)
  from process_exit_releases [OF user_exit_inv [OF u] i(8) this assms(3)] show ?thesis by auto
qed

text \<open>C7. When the last thread exits and every other one has terminated, the process gives back all
  its memory: every thread structure and join-chain chunk is freed exactly once, and every stack is
  unmapped, the one of the exiting thread included.\<close>

theorem last_exit_releases_all:
  assumes "os_sane env" "reachable lib_call (initial_sys env mem) (st, User)" "atexit_handlers st = registered_handlers"
    "ready_queue st = []" "joined_by (thr st (current_thread st)) = None"
    "\<forall>t \<in> live st. t = current_thread st \<or> th_state (thr st t) = THREAD_TERMINATED \<and> (t = main_thread \<or> t \<in> set (zombie_queue st))"
  shows "\<exists>s st'. thread_exit rv st = Some (s, Exited) \<and> process_exit s = Some st' \<and> allocated st' = {} \<and> mapped st' = {}"
proof -
  note u = reachable_user [OF assms(1,2)]
  note i = user_invD [OF u]
  have "active st = {current_thread st}" using assms(6) i(2) sched_inv_current(1) [OF i(2)] by (auto simp: active_def sched_inv_def)
  moreover have "exit_ready st = []" using assms(4,5) by (simp add: exit_ready_def)
  moreover have "live st \<subseteq> {main_thread, current_thread st} \<union> set (zombie_queue st)" using assms(6) by auto
  ultimately show ?thesis using last_exit_releases [OF u] assms(3) by blast
qed

theorem last_exit_releases_all_witness:
  "\<exists>st s st'. run lib_call [C_create True (Some 1) 5, C_yield, C_exit 7] (demo_start THREAD_SCHED_FIFO) =
      Some (st, [Ret 0 (Out_thread 3), Ret 0 No_out, Ret 0 No_out]) \<and>
    thread_exit 0 st = Some (s, Exited) \<and> process_exit s = Some st' \<and> allocated st' = {} \<and> mapped st' = {}"
proof -
  from demo_zombie obtain st where st: "run lib_call [C_create True (Some 1) 5, C_yield, C_exit 7] (demo_start THREAD_SCHED_FIFO) =
      Some (st, [Ret 0 (Out_thread 3), Ret 0 No_out, Ret 0 No_out])" "current_thread st = 0" "live st = {0, 3}"
    "th_state (thr st 3) = THREAD_TERMINATED" "zombie_queue st = [3]" "ready_queue st = []" "joined_by (thr st 0) = None"
    "atexit_handlers st = registered_handlers" by blast
  have r: "reachable lib_call (demo_start THREAD_SCHED_FIFO) (st, User)" by (rule demo_reachable [OF st(1)]) simp
  from last_exit_releases_all [OF demo_env_sane r st(8,6), of 0] st(2-7) have
    "\<exists>s st'. thread_exit 0 st = Some (s, Exited) \<and> process_exit s = Some st' \<and> allocated st' = {} \<and> mapped st' = {}" by auto
  with st(1) show ?thesis by blast
qed

section \<open>Joins that go wrong\<close>

text \<open>A join that fails because no other thread is ready stays registered with its target.\<close>

lemma failed_join_sticks:
  assumes "sched_inv st" "joined_by (thr st t) = None" "t \<noteq> current_thread st" "th_state (thr st t) \<noteq> THREAD_TERMINATED"
    "head_joiner (thr st t) = Some r" "head_joiner (thr st (current_thread st)) = Some r'" "\<not> (head_cells st r = t \<and> r' = r)"
    "ready_queue st = []"
  shows "\<exists>st'. thread_join [] (Some t) want st = Some (st', Ret EDEADLK No_out) \<and> sched_inv st' \<and>
    (\<forall>s. joined_by (thr s t) = joined_by (thr st' t) \<longrightarrow> thread_join [] (Some t) want s = Some (set_errno EINVAL s, Ret (-1) No_out))"
proof -
  from join_fails_registered [OF assms, of "[]" want] obtain st' where st': "thread_join [] (Some t) want st = Some (st', Ret EDEADLK No_out)"
    "sched_inv st'" "joined_by (thr st' t) = Some (current_thread st)" by blast
  then show ?thesis using join_twice [of _ t "current_thread st" "[]" want] by auto
qed

definition stale_join_script :: "call list" where
  "stale_join_script = [C_sem_init (Some 9) 0, C_create True (Some 1) 0, C_yield, C_sem_wait (Some 9), C_join (Some 3) True,
     C_sem_post (Some 9), C_sem_wait (Some 9)]"

text \<open>C19. The registration of a failed join is fatal later on.  The main thread tries to join a thread
  that waits for a semaphore, gets \<open>EDEADLK\<close>, posts the semaphore and then waits for it itself; all
  these calls are allowed.  When the other thread exits, it wakes its recorded joiner although that
  one is linked in the queue of the semaphore, and the queues are corrupted.\<close>

theorem stale_join_corrupts:
  "\<exists>st. run call_ok stale_join_script (demo_start THREAD_SCHED_FIFO) =
     Some (st, [Ret 0 No_out, Ret 0 (Out_thread 3), Ret 0 No_out, Ret 0 No_out, Ret EDEADLK No_out, Ret 0 No_out, Ret 0 No_out]) \<and>
    reachable call_ok (demo_start THREAD_SCHED_FIFO) (st, User) \<and> current_thread st = 3 \<and> queues st (SemQ 9) = [0] \<and>
    call_ok st (C_exit 0) \<and> exec_call (C_exit 0) st = None"
proof -
  have "\<exists>st. run call_ok stale_join_script (demo_start THREAD_SCHED_FIFO) =
     Some (st, [Ret 0 No_out, Ret 0 (Out_thread 3), Ret 0 No_out, Ret 0 No_out, Ret EDEADLK No_out, Ret 0 No_out, Ret 0 No_out]) \<and>
    queues st (SemQ 9) = [0] \<and> current_thread st = 3 \<and> exec_call (C_exit 0) st = None"
    by (simp add: stale_join_script_def run_eqs thread_sem_init_def thread_sem_wait_def thread_sem_post_def revive_def fast_swap_context_def)
  then obtain st where st: "run call_ok stale_join_script (demo_start THREAD_SCHED_FIFO) =
     Some (st, [Ret 0 No_out, Ret 0 (Out_thread 3), Ret 0 No_out, Ret 0 No_out, Ret EDEADLK No_out, Ret 0 No_out, Ret 0 No_out])"
    "queues st (SemQ 9) = [0]" "current_thread st = 3" "exec_call (C_exit 0) st = None" by blast
  moreover have "reachable call_ok (demo_start THREAD_SCHED_FIFO) (st, User)"
    by (rule run_reachable [OF reachable.start st(1)]) simp
  ultimately show ?thesis by auto
qed





definition three_threads :: "call list" where
  "three_threads = [C_create True (Some 1) 0, C_create True (Some 1) 0, C_create True (Some 1) 0, C_yield]"



text \<open>Two threads that join each other are caught.\<close>

lemma join_pair_detected:
  "\<exists>st rs. run lib_call (three_threads @ [C_join (Some 4) False, C_join (Some 3) False]) (demo_start THREAD_SCHED_FIFO) = Some (st, rs) \<and>
     last rs = Ret EDEADLK No_out"
  by (simp add: three_threads_def run_eqs)

section \<open>Preemption\<close>

text \<open>C27. A timer signal acts as a yield of the interrupted thread: under FIFO it runs the next ready
  thread, and when the interrupted thread runs again it continues with the signal mask it had; while
  the signal is blocked, nothing happens.\<close>

theorem tick_preempts:
  assumes "sched_inv st" "sched_policy st = THREAD_SCHED_FIFO" "handler_vtalrm st" "ready_queue st = n # ns"
  shows "if preemptible st
    then \<exists>st'. deliver_sigvtalrm st = Some (st', Switched) \<and> sched_inv st' \<and> current_thread st' = n \<and>
      ready_queue st' = ns @ [current_thread st] \<and>
      (\<forall>s2. current_thread s2 = current_thread st \<and> saved_ctx (thr s2 (current_thread st)) = saved_ctx (thr st' (current_thread st)) \<longrightarrow>
        (\<exists>s3. resume_current s2 = Some (s3, Ret 0 No_out) \<and> sigmask s3 = sigmask st))
    else deliver_sigvtalrm st = Some (st, Ret 0 No_out)"
proof (cases "preemptible st")
  case True
  let ?u = "st\<lparr>sigmask := insert SIGVTALRM (sigmask st)\<rparr>"
  have "sched_inv ?u" "ready_queue ?u = n # ns" using assms(1,4) by simp_all
  from yield_switch [OF this, of "[F_handler (sigmask st)]"] assms(2) obtain st' where
    st': "thread_yield [F_handler (sigmask st)] ?u = Some (st', Switched)" "sched_inv st'" "current_thread st' = n"
    "ready_queue st' = ns @ [current_thread st]" "saved_ctx (thr st' (current_thread st)) = [F_yield, F_handler (sigmask st)]" by auto
  then have "deliver_sigvtalrm st = Some (st', Switched)" using True assms(3) by (simp add: deliver_sigvtalrm_def preemption_handler_def Let_def)
  with st' True show ?thesis by (simp add: resume_current_def)
qed (simp add: deliver_sigvtalrm_def)

theorem tick_preempts_witness:
  "\<exists>st'. deliver_sigvtalrm ((demo THREAD_SCHED_FIFO [1, 2] (MutexQ 0) [])\<lparr>handler_vtalrm := True, timer_us := Some 100, sigmask := {}\<rparr>) =
      Some (st', Switched) \<and> current_thread st' = 1 \<and> ready_queue st' = [2, 0]"
proof -
  let ?d = "(demo THREAD_SCHED_FIFO [1, 2] (MutexQ 0) [])\<lparr>handler_vtalrm := True, timer_us := Some 100, sigmask := {}\<rparr>"
  have "sched_inv (demo THREAD_SCHED_FIFO [1, 2] (MutexQ 0) [])" by (simp add: demo_inv)
  then have "sched_inv ?d" by (simp add: sched_inv_def) (subst flight_cong [of _ "demo THREAD_SCHED_FIFO [1, 2] (MutexQ 0) []"], simp_all)
  from tick_preempts [OF this, of 1 "[2]"] show ?thesis by (auto simp: preemptible_def)
qed

text \<open>C26. Under the FIFO policy and until the process exits, no timer signal can interrupt the linking or
  unlinking of a thread, whatever calls the program makes: in every reachable state in which the program
  runs, all these updates so far were made with the signal blocked or before the timer was started, and
  control passes between threads only with the signal blocked.  The one unprotected operation on a queue is
  the initialisation of a mutex, semaphore or condition.\<close>

theorem fifo_updates_protected:
  assumes "sched_policy env = THREAD_SCHED_FIFO" "reachable ok (initial_sys env mem) (st, mo)" "mo = User \<or> mo = Switching"
  shows "\<not> unmasked st \<and> (\<forall>q \<in> bare_inits st. \<exists>x. q = MutexQ x \<or> q = SemQ x \<or> q = CondQ x) \<and> (mo = Switching \<longrightarrow> \<not> preemptible st)"
proof -
  have "wait_queue q \<Longrightarrow> \<exists>x. q = MutexQ x \<or> q = SemQ x \<or> q = CondQ x" for q by (cases q) (simp_all add: wait_queue_def)
  then show ?thesis using reachable_quiet [OF assms(2,1)] assms(3) by (auto simp: mode_quiet_def shielded_def)
qed

theorem fifo_updates_protected_witness:
  "\<exists>st. run lib_call [C_create True (Some 1) 5, C_create True (Some 1) 6] (demo_start THREAD_SCHED_FIFO) =
      Some (st, [Ret 0 (Out_thread 3), Ret 0 (Out_thread 4)]) \<and> ready_queue st = [3, 4] \<and> \<not> unmasked st"
proof -
  from demo_two obtain st where st: "run lib_call [C_create True (Some 1) 5, C_create True (Some 1) 6] (demo_start THREAD_SCHED_FIFO) =
      Some (st, [Ret 0 (Out_thread 3), Ret 0 (Out_thread 4)])" "ready_queue st = [3, 4]" by blast
  have r: "reachable lib_call (demo_start THREAD_SCHED_FIFO) (st, User)" by (rule demo_reachable [OF st(1)]) simp
  have "sched_policy (demo_env THREAD_SCHED_FIFO) = THREAD_SCHED_FIFO" by (simp add: demo_env_def)
  from fifo_updates_protected [OF this r] st show ?thesis by blast
qed

text \<open>The two exceptions occur: objects are initialised with the signal deliverable, and so are zombies
  unlinked by the exit handlers when the main function returns.\<close>

lemma init_unmasked:
  "\<exists>st rs. run lib_call [C_create True (Some 1) 0, C_mutex_init (Some 7)] (demo_start THREAD_SCHED_FIFO) = Some (st, rs) \<and> bare_inits st = {MutexQ 7}"
  by (simp add: run_eqs thread_mutex_init_def)

lemma exit_unmasked:
  "\<exists>st rs st'. run lib_call [C_create True (Some 1) 0, C_yield, C_exit 0] (demo_start THREAD_SCHED_FIFO) = Some (st, rs) \<and> \<not> unmasked st \<and>
    process_exit st = Some st' \<and> unmasked st'"
  by (simp add: run_eqs process_exit_def do_final_cleanup_def free_zombies_def free_zombies_from.simps tailq_next_def free_thread_def c_free_def
      sys_munmap_def stack_pool_free_all_def thread_pool_free_all_def reclaim_deferred_stacks_all_def reclaim_deferred_stacks_batch.simps
      stack_pool_push_def MAX_POOLED_STACKS_def valgrind_deregister_def)

text \<open>Under the priority policy a yield that keeps the processor puts the other thread back into the
  ready queue after it has unblocked the timer signal.  Under FIFO the same calls never do that.\<close>

lemma requeue_unmasked:
  "(\<exists>st rs. run lib_call [C_create True (Some 1) 0, C_set_priority (Some 0) 50, C_yield] (demo_start THREAD_SCHED_PRIO) = Some (st, rs) \<and> unmasked st) \<and>
   (\<exists>st rs. run lib_call [C_create True (Some 1) 0, C_set_priority (Some 0) 50, C_yield] (demo_start THREAD_SCHED_FIFO) = Some (st, rs) \<and> \<not> unmasked st)"
  by (simp add: run_eqs thread_set_priority_def clamp_priority_def age_waiting_def age_running_def THREAD_MAX_PRIORITY_def THREAD_MIN_PRIORITY_def
      THREAD_AGING_def THREAD_WAIT_def THREAD_DEFAULT_PRIORITY_def)

section \<open>Stack overflow\<close>

text \<open>C28. A thread that overflows its stack ends without taking the others with it: it is marked as
  overflowed and terminated, and the next thread runs; \<open>SIGSEGV\<close> stays blocked.\<close>

theorem overflow_isolated:
  assumes "os_sane env" "reachable lib_call (initial_sys env mem) (st, User)" "handler_segv st" "SIGSEGV \<notin> sigmask st"
    "stack_map (thr st (current_thread st)) = Some m" "m \<le> a" "a < m + GUARD_SIZE" "exit_ready st = n # ns"
  shows "\<exists>st'. deliver_sigsegv a st = Some (st', Switched) \<and> switch_inv st' \<and> current_thread st' = n \<and>
    th_state (thr st' (current_thread st)) = THREAD_TERMINATED \<and> stack_overflow (thr st' (current_thread st)) \<and> SIGSEGV \<in> sigmask st'"
proof -
  note u = reachable_user [OF assms(1,2)]
  note i = user_invD [OF u]
  have "in_guard_page a (thr st (current_thread st))" using assms(5-7) by (simp add: in_guard_page_def)
  from segv_overflow [OF i(2,5,4) assms(3,4) this assms(8)] fault_sound [OF u, of a] show ?thesis
    by (auto simp: sound_def result_inv_def)
qed

theorem overflow_isolated_witness:
  "\<exists>st st'. run lib_call [C_create True (Some 1) 0, C_create True (Some 1) 0, C_yield] (demo_start THREAD_SCHED_FIFO) =
      Some (st, [Ret 0 (Out_thread 3), Ret 0 (Out_thread 4), Ret 0 No_out]) \<and>
    deliver_sigsegv 65540 st = Some (st', Switched) \<and> current_thread st' = 4 \<and> stack_overflow (thr st' 3)"
proof -
  have "\<exists>st. run lib_call [C_create True (Some 1) 0, C_create True (Some 1) 0, C_yield] (demo_start THREAD_SCHED_FIFO) =
      Some (st, [Ret 0 (Out_thread 3), Ret 0 (Out_thread 4), Ret 0 No_out]) \<and> current_thread st = 3 \<and> handler_segv st \<and>
    SIGSEGV \<notin> sigmask st \<and> stack_map (thr st 3) = Some 65536 \<and> joined_by (thr st 3) = None \<and> ready_queue st = [4, 0]"
    by (simp add: run_eqs)
  then obtain st where st: "run lib_call [C_create True (Some 1) 0, C_create True (Some 1) 0, C_yield] (demo_start THREAD_SCHED_FIFO) =
      Some (st, [Ret 0 (Out_thread 3), Ret 0 (Out_thread 4), Ret 0 No_out])" "current_thread st = 3" "handler_segv st"
    "SIGSEGV \<notin> sigmask st" "stack_map (thr st 3) = Some 65536" "joined_by (thr st 3) = None" "ready_queue st = [4, 0]" by blast
  have r: "reachable lib_call (demo_start THREAD_SCHED_FIFO) (st, User)" by (rule demo_reachable [OF st(1)]) simp
  have "exit_ready st = [4, 0]" using st(2,6,7) by (simp add: exit_ready_def)
  with overflow_isolated [OF demo_env_sane r st(3,4), of 65536 65540] st(1,2,5) show ?thesis by (auto simp: GUARD_SIZE_def)
qed

lemma demo_overflow:
  "\<exists>s1 s2. run lib_call [C_create True (Some 1) 5, C_join (Some 3) True] (demo_start THREAD_SCHED_FIFO) =
      Some (s1, [Ret 0 (Out_thread 3), Ret 0 No_out]) \<and> deliver_sigsegv 65536 s1 = Some (s2, Switched) \<and> current_thread s1 = 3 \<and>
    handler_segv s1 \<and> SIGSEGV \<notin> sigmask s1 \<and> stack_map (thr s1 3) = Some 65536"
  "\<exists>s1 s2. run lib_call [C_create True (Some 1) 5, C_join (Some 3) True] (demo_start THREAD_SCHED_FIFO) =
      Some (s1, [Ret 0 (Out_thread 3), Ret 0 No_out]) \<and> deliver_sigsegv 65536 s1 = Some (s2, Switched) \<and> 3 \<in> live s2 \<and> current_thread s2 = 0"
  "\<exists>s1 s2. run lib_call [C_create True (Some 1) 5, C_join (Some 3) True] (demo_start THREAD_SCHED_FIFO) =
      Some (s1, [Ret 0 (Out_thread 3), Ret 0 No_out]) \<and> deliver_sigsegv 65536 s1 = Some (s2, Switched) \<and> saved_ctx (thr s2 0) = [F_join 3 True]"
  by (simp_all add: run_eqs deliver_sigsegv_def sigsegv_handler_def in_guard_page_def)

text \<open>C21. A stack overflow is reported to a joiner that was already waiting: its \<open>thread_join\<close> returns -1
  with \<open>EFAULT\<close>, as \<open>thread.h\<close> documents, while \<open>test/72-stack-overflow.c\<close> expects 0 there.  A thread that joins
  later gets 0, as if the thread had returned a null pointer.\<close>

theorem overflow_reported:
  assumes "os_sane env" "reachable lib_call (initial_sys env mem) (s1, User)" "handler_segv s1" "SIGSEGV \<notin> sigmask s1"
    "in_guard_page a (thr s1 (current_thread s1))" "deliver_sigsegv a s1 = Some (s2, Switched)" "t = current_thread s1"
  shows "(outlives lib_call t (s2, Switching) (st, Switching) \<and> saved_ctx (thr st (current_thread st)) = [F_join t want] \<longrightarrow>
      (\<exists>st'. resume_current st = Some (st', Ret (-1) (if want then Out_val 0 else No_out)) \<and> errno st' = EFAULT)) \<and>
    (outlives lib_call t (s2, Switching) (st, User) \<and> joined_by (thr st t) = None \<longrightarrow>
      (\<exists>st'. thread_join [] (Some t) want st = Some (st', Ret 0 (if want then Out_val 0 else No_out))))"
proof -
  note u = reachable_user [OF assms(1,2)]
  have "sys_step lib_call (s1, User) (s2, Switching)" using sys_step.fault [OF assms(6), of lib_call] by simp
  with assms(2) have r: "reachable lib_call (initial_sys env mem) (s2, Switching)" by (rule reachable.step)
  show ?thesis using fate_reaches_joiner [OF assms(1) r, of t 0 True st want] overflow_leaves_mark [OF u assms(3-6)] assms(7) by fastforce
qed

theorem overflow_reported_witness:
  "\<exists>s1 s2 s3. run lib_call [C_create True (Some 1) 5, C_join (Some 3) True] (demo_start THREAD_SCHED_FIFO) =
      Some (s1, [Ret 0 (Out_thread 3), Ret 0 No_out]) \<and> deliver_sigsegv 65536 s1 = Some (s2, Switched) \<and>
    resume_current s2 = Some (s3, Ret (-1) (Out_val 0)) \<and> errno s3 = EFAULT"
proof -
  from demo_overflow(1) obtain s1 s2 where s: "run lib_call [C_create True (Some 1) 5, C_join (Some 3) True] (demo_start THREAD_SCHED_FIFO) =
      Some (s1, [Ret 0 (Out_thread 3), Ret 0 No_out])" "deliver_sigsegv 65536 s1 = Some (s2, Switched)" "current_thread s1 = 3"
    "handler_segv s1" "SIGSEGV \<notin> sigmask s1" "stack_map (thr s1 3) = Some 65536" by blast
  with demo_overflow(2,3) have l: "3 \<in> live s2" "current_thread s2 = 0" "saved_ctx (thr s2 0) = [F_join 3 True]" by auto
  have r: "reachable lib_call (demo_start THREAD_SCHED_FIFO) (s1, User)" by (rule demo_reachable [OF s(1)]) simp
  have "outlives lib_call 3 (s2, Switching) (s2, Switching)" using l(1) by (simp add: outlives.here)
  moreover have "in_guard_page 65536 (thr s1 (current_thread s1))" using s(3,6) by (simp add: in_guard_page_def GUARD_SIZE_def)
  note overflow_reported [OF demo_env_sane r s(4,5) this s(2) s(3) [symmetric], of s2 True]
  ultimately have "\<exists>s3. resume_current s2 = Some (s3, Ret (-1) (Out_val 0)) \<and> errno s3 = EFAULT" using l(2,3) by auto
  with s(1,2) show ?thesis by blast
qed

text \<open>Two threads overflow their stacks one after the other: the first one ends alone, the second one
  kills the process, because the handler of the first left without restoring the signal mask.\<close>

lemma second_overflow_kills:
  "\<exists>st s1 s2 s3. run lib_call [C_create True (Some 1) 0, C_create True (Some 1) 0, C_yield] (demo_start THREAD_SCHED_FIFO) =
      Some (st, [Ret 0 (Out_thread 3), Ret 0 (Out_thread 4), Ret 0 No_out]) \<and>
    deliver_sigsegv 65536 st = Some (s1, Switched) \<and> resume_current s1 = Some (s2, Ret 0 No_out) \<and> current_thread s2 = 4 \<and>
    deliver_sigsegv 131072 s2 = Some (s3, Killed)"
  by (simp add: run_eqs deliver_sigsegv_def sigsegv_handler_def in_guard_page_def)

end
